(* ===== verification/Prelude.thy ===== *)
theory Prelude
  imports Main "HOL-Library.Char_ord" "HOL-Library.Sublist" "HOL-Library.Code_Target_Nat"
begin

text \<open>
  What the components of the development share: C strings as lists of bytes,
  the functions of the C library the sources call on them (case folding,
  blank trimming, tokenising, decimal reading and printing), results with an
  error branch, \<open>struct timeval\<close> arithmetic, and the two interfaces most
  components are instances of: a machine whose invariant is lifted to whole
  runs, and a codec whose decoder inverts its encoder on a stream.

  A NUL-terminated C string is a \<open>string\<close> without NUL bytes; a pointer with a
  length is a \<open>string\<close> that may hold any byte. Bytes are compared unsigned, as
  \<open>unsigned char\<close>; where the source compares a plain \<open>char\<close> with ASCII bounds the
  two readings agree.
\<close>

named_theorems char_simps

type_synonym bytes = "char list"

section \<open>Results with an error branch\<close>

definition rbind :: "'e + 'a \<Rightarrow> ('a \<Rightarrow> 'e + 'b) \<Rightarrow> 'e + 'b" where
  "rbind r f = (case r of Inl e \<Rightarrow> Inl e | Inr x \<Rightarrow> f x)"

lemma rbind_simps [simp]:
  "rbind (Inl e) f = Inl e"
  "rbind (Inr x) f = f x"
  by (simp_all add: rbind_def)

lemma rbind_Inr_iff: "rbind r f = Inr y \<longleftrightarrow> (\<exists>x. r = Inr x \<and> f x = Inr y)"
  by (cases r) auto

lemma rbind_InrE [elim!]:
  assumes "rbind r f = Inr y"
  obtains x where "r = Inr x" and "f x = Inr y"
  using assms by (auto simp: rbind_Inr_iff)

section \<open>Bytes and C strings\<close>

definition isdigit :: "char \<Rightarrow> bool" where
  "isdigit c \<longleftrightarrow> CHR ''0'' \<le> c \<and> c \<le> CHR ''9''"

definition digit_val :: "char \<Rightarrow> nat" where
  "digit_val c = of_char c - 48"

definition digit_char :: "nat \<Rightarrow> char" where
  "digit_char n = char_of (48 + n)"

definition is_blank :: "char \<Rightarrow> bool" where
  "is_blank c \<longleftrightarrow> c = CHR '' '' \<or> c = CHR 0x09"

text \<open>\<open>tolower\<close> and \<open>toupper\<close> in the C locale.\<close>

definition ascii_lower :: "char \<Rightarrow> char" where
  "ascii_lower c = (if CHR ''A'' \<le> c \<and> c \<le> CHR ''Z'' then char_of (of_char c + (32::nat)) else c)"

definition ascii_upper :: "char \<Rightarrow> char" where
  "ascii_upper c = (if CHR ''a'' \<le> c \<and> c \<le> CHR ''z'' then char_of (of_char c - (32::nat)) else c)"

text \<open>\<open>strcasecmp(a, b) == 0\<close> and \<open>strncasecmp(a, b, n) == 0\<close> on C strings.\<close>

definition strcaseeq :: "string \<Rightarrow> string \<Rightarrow> bool" where
  "strcaseeq a b \<longleftrightarrow> map ascii_lower a = map ascii_lower b"

definition strncaseeq :: "string \<Rightarrow> string \<Rightarrow> nat \<Rightarrow> bool" where
  "strncaseeq a b n \<longleftrightarrow> map ascii_lower (take n a) = map ascii_lower (take n b)"

text \<open>\<open>strchr\<close>, \<open>memchr\<close>: the part before the first occurrence, and the rest from it on.\<close>

definition find_char :: "char \<Rightarrow> bytes \<Rightarrow> nat option" where
  "find_char c s = (if c \<in> set s then Some (length (takeWhile (\<lambda>x. x \<noteq> c) s)) else None)"

definition trim_left :: "bytes \<Rightarrow> bytes" where
  "trim_left s = dropWhile is_blank s"

definition trim_right :: "bytes \<Rightarrow> bytes" where
  "trim_right s = rev (dropWhile is_blank (rev s))"

definition trim_blank :: "bytes \<Rightarrow> bytes" where
  "trim_blank s = trim_right (trim_left s)"

text \<open>\<open>strstr(s, pat) != NULL\<close>.\<close>

fun contains_str :: "bytes \<Rightarrow> bytes \<Rightarrow> bool" where
  "contains_str pat [] \<longleftrightarrow> pat = []"
| "contains_str pat (c # s) \<longleftrightarrow> prefix pat (c # s) \<or> contains_str pat s"

text \<open>
  The tokens a loop over \<open>strtok_r(s, delims, ...)\<close> sees: the maximal runs of
  bytes outside the delimiters, so empty tokens never appear.
\<close>

fun strtok_aux :: "(char \<Rightarrow> bool) \<Rightarrow> bytes \<Rightarrow> bytes \<Rightarrow> bytes list" where
  "strtok_aux d acc [] = (if acc = [] then [] else [rev acc])"
| "strtok_aux d acc (c # s) =
     (if d c then (if acc = [] then strtok_aux d [] s else rev acc # strtok_aux d [] s)
      else strtok_aux d (c # acc) s)"

definition strtok_all :: "(char \<Rightarrow> bool) \<Rightarrow> bytes \<Rightarrow> bytes list" where
  "strtok_all d s = strtok_aux d [] s"

fun join_with :: "char \<Rightarrow> bytes list \<Rightarrow> bytes" where
  "join_with c [] = []"
| "join_with c [t] = t"
| "join_with c (t # u # ts) = t @ c # join_with c (u # ts)"

text \<open>The pieces between separators, empty ones included.\<close>

fun split_on :: "char \<Rightarrow> bytes \<Rightarrow> bytes list" where
  "split_on d [] = [[]]"
| "split_on d (c # s) =
     (if c = d then [] # split_on d s
      else (case split_on d s of [] \<Rightarrow> [[c]] | p # ps \<Rightarrow> (c # p) # ps))"

subsection \<open>Decimal numbers\<close>

fun dec :: "nat \<Rightarrow> string" where
  "dec n = (if n < 10 then [digit_char n] else dec (n div 10) @ [digit_char (n mod 10)])"

declare dec.simps [simp del]

definition dec_value :: "nat \<Rightarrow> string \<Rightarrow> nat" where
  "dec_value v s = foldl (\<lambda>v c. v * 10 + digit_val c) v s"

text \<open>\<open>%02d\<close>/\<open>%04d\<close> on a non-negative number: left padded with zeros.\<close>

definition dec_pad :: "nat \<Rightarrow> nat \<Rightarrow> string" where
  "dec_pad w n = replicate (w - length (dec n)) CHR ''0'' @ dec n"

definition hex_char :: "nat \<Rightarrow> char" where
  "hex_char n = ''0123456789abcdef'' ! n"

fun hex :: "nat \<Rightarrow> string" where
  "hex n = (if n < 16 then [hex_char n] else hex (n div 16) @ [hex_char (n mod 16)])"

declare hex.simps [simp del]

section \<open>Times: \<open>struct timeval\<close>\<close>

record timeval =
  tv_sec :: int
  tv_usec :: int

definition tv_ok :: "timeval \<Rightarrow> bool" where
  "tv_ok t \<longleftrightarrow> 0 \<le> tv_sec t \<and> 0 \<le> tv_usec t \<and> tv_usec t < 1000000"

definition timerclear :: timeval where
  "timerclear = \<lparr>tv_sec = 0, tv_usec = 0\<rparr>"

definition timerisset :: "timeval \<Rightarrow> bool" where
  "timerisset t \<longleftrightarrow> tv_sec t \<noteq> 0 \<or> tv_usec t \<noteq> 0"

definition timeradd :: "timeval \<Rightarrow> timeval \<Rightarrow> timeval" where
  "timeradd a b =
     (let s = tv_sec a + tv_sec b; u = tv_usec a + tv_usec b
      in if u \<ge> 1000000 then \<lparr>tv_sec = s + 1, tv_usec = u - 1000000\<rparr>
         else \<lparr>tv_sec = s, tv_usec = u\<rparr>)"

definition timersub :: "timeval \<Rightarrow> timeval \<Rightarrow> timeval" where
  "timersub a b =
     (let s = tv_sec a - tv_sec b; u = tv_usec a - tv_usec b
      in if u < 0 then \<lparr>tv_sec = s - 1, tv_usec = u + 1000000\<rparr>
         else \<lparr>tv_sec = s, tv_usec = u\<rparr>)"

definition timer_lt :: "timeval \<Rightarrow> timeval \<Rightarrow> bool" where
  "timer_lt a b \<longleftrightarrow>
     (if tv_sec a = tv_sec b then tv_usec a < tv_usec b else tv_sec a < tv_sec b)"

text \<open>The instant a \<open>timeval\<close> names, in microseconds.\<close>

definition usecs :: "timeval \<Rightarrow> int" where
  "usecs t = tv_sec t * 1000000 + tv_usec t"

section \<open>Interfaces\<close>

text \<open>
  A machine: the events of a component, the function that handles one, and an
  invariant that the start state has and every event keeps. Its client lemmas
  lift the invariant, and any relation a step keeps, to whole runs.
\<close>

locale machine =
  fixes step :: "'s \<Rightarrow> 'e \<Rightarrow> 's"
    and ok :: "'e \<Rightarrow> bool"
    and inv :: "'s \<Rightarrow> bool"
  assumes step_inv: "inv s \<Longrightarrow> ok e \<Longrightarrow> inv (step s e)"
begin

lemma run_inv: "inv s \<Longrightarrow> list_all ok es \<Longrightarrow> inv (foldl step s es)"
  by (induction es arbitrary: s) (auto intro: step_inv)

lemma run_rel:
  assumes trans: "\<And>a b c. R a b \<Longrightarrow> R b c \<Longrightarrow> R a c" and refl: "\<And>a. R a a"
    and keep: "\<And>s e. inv s \<Longrightarrow> ok e \<Longrightarrow> R s (step s e)"
  shows "inv s \<Longrightarrow> list_all ok es \<Longrightarrow> R s (foldl step s es)"
proof (induction es arbitrary: s)
  case Nil
  then show ?case by (simp add: refl)
next
  case (Cons e es)
  then have "R s (step s e)" and "R (step s e) (foldl step (step s e) es)"
    using keep step_inv by auto
  then show ?case by (auto intro: trans)
qed

end

text \<open>
  A self-delimiting codec: the decoder reads one value off the front of a
  stream and leaves the rest. Encodings are then injective and a sequence of
  them reads back whole.
\<close>

locale codec =
  fixes enc :: "'a \<Rightarrow> 'b list"
    and dec1 :: "'b list \<Rightarrow> ('a \<times> 'b list) option"
    and dom_ok :: "'a \<Rightarrow> bool"
  assumes dec_enc: "dom_ok x \<Longrightarrow> dec1 (enc x @ rest) = Some (x, rest)"
begin

lemma enc_inj: "dom_ok x \<Longrightarrow> dom_ok y \<Longrightarrow> enc x = enc y \<Longrightarrow> x = y"
  by (metis append_Nil2 dec_enc option.inject prod.inject)

lemma enc_prefix_free:
  assumes "dom_ok x" and "dom_ok y" and "enc x @ r = enc y @ r'"
  shows "x = y \<and> r = r'"
proof -
  have "Some (x, r) = dec1 (enc x @ r)" using assms(1) by (rule dec_enc [symmetric])
  also have "\<dots> = dec1 (enc y @ r')" by (simp only: assms(3))
  also have "\<dots> = Some (y, r')" using assms(2) by (rule dec_enc)
  finally show ?thesis by simp
qed

lemma concat_enc_inj:
  assumes "\<And>x. dom_ok x \<Longrightarrow> enc x \<noteq> []"
  shows "list_all dom_ok xs \<Longrightarrow> list_all dom_ok ys \<Longrightarrow>
    concat (map enc xs) = concat (map enc ys) \<Longrightarrow> xs = ys"
proof (induction xs arbitrary: ys)
  case Nil
  then show ?case using assms by (cases ys) auto
next
  case (Cons x xs)
  from Cons.prems(1) have x: "dom_ok x" and xs: "list_all dom_ok xs" by simp_all
  from Cons.prems(3) have ne: "ys \<noteq> []" using assms [OF x] by (cases ys) simp_all
  then obtain y ys' where ys: "ys = y # ys'" by (cases ys) simp_all
  from Cons.prems(2) ys have y: "dom_ok y" and ys': "list_all dom_ok ys'" by simp_all
  from Cons.prems(3) ys have "enc x @ concat (map enc xs) = enc y @ concat (map enc ys')"
    by simp
  from enc_prefix_free [OF x y this] have "x = y" and "concat (map enc xs) = concat (map enc ys')"
    by simp_all
  with Cons.IH [OF xs ys'] ys show ?case by simp
qed

end

section \<open>Lemmas\<close>

lemma isdigit_of_char: "isdigit c \<longleftrightarrow> 48 \<le> (of_char c :: nat) \<and> (of_char c :: nat) \<le> 57"
  by (simp add: isdigit_def less_eq_char_def)

lemma digit_char_of_char [simp]: "n < 10 \<Longrightarrow> of_char (digit_char n) = (48 + n :: nat)"
  by (simp add: digit_char_def)

lemma digit_char_facts [simp]:
  "n < 10 \<Longrightarrow> isdigit (digit_char n)"
  "n < 10 \<Longrightarrow> digit_val (digit_char n) = n"
  by (simp_all add: isdigit_of_char digit_val_def)

lemma digit_val_less [simp]: "isdigit c \<Longrightarrow> digit_val c < 10"
  by (auto simp: isdigit_of_char digit_val_def)

lemma digit_val_le: "isdigit c \<Longrightarrow> digit_val c \<le> 9"
  by (auto simp: isdigit_of_char digit_val_def)

lemma digit_char_neq:
  "n < 10 \<Longrightarrow> \<not> isdigit c \<Longrightarrow> digit_char n \<noteq> c"
  using digit_char_facts(1) by blast

lemma not_digit_simps [simp]:
  "\<not> isdigit CHR ''-''" "\<not> isdigit CHR ''/''" "\<not> isdigit CHR ''*''" "\<not> isdigit CHR '',''"
  "\<not> isdigit CHR '' ''" "\<not> isdigit CHR '':''" "\<not> isdigit CHR ''.''" "\<not> isdigit CHR 0x0D"
  "\<not> isdigit CHR 0x0A" "\<not> isdigit CHR 0x09"
  by (simp_all add: isdigit_of_char)

lemma dec_nonempty [simp]: "dec n \<noteq> []"
  by (subst dec.simps) simp

lemma dec_digits [simp]: "list_all isdigit (dec n)"
proof (induction n rule: dec.induct)
  case (1 n)
  then show ?case by (subst dec.simps) simp
qed

lemma dec_value_append: "dec_value v (s @ t) = dec_value (dec_value v s) t"
  by (simp add: dec_value_def)

lemma dec_value_simps [simp]:
  "dec_value v [] = v"
  "dec_value v (c # s) = dec_value (v * 10 + digit_val c) s"
  by (simp_all add: dec_value_def)

lemma dec_value_dec [simp]: "dec_value 0 (dec n) = n"
proof (induction n rule: dec.induct)
  case (1 n)
  show ?case
  proof (cases "n < 10")
    case True
    then show ?thesis by (subst dec.simps) simp
  next
    case False
    then have "dec_value 0 (dec n) = dec_value 0 (dec (n div 10)) * 10 + n mod 10"
      by (subst dec.simps) (simp add: dec_value_append)
    with 1 False show ?thesis by (simp add: mult.commute)
  qed
qed

lemma dec_value_mono: "v \<le> dec_value v s"
proof (induction s arbitrary: v)
  case (Cons c s)
  have "v \<le> v * 10 + digit_val c" by simp
  also have "\<dots> \<le> dec_value (v * 10 + digit_val c) s" by (rule Cons)
  finally show ?case by simp
qed simp

lemma dec_value_bound: "list_all isdigit s \<Longrightarrow> dec_value v s < (v + 1) * 10 ^ length s"
proof (induction s arbitrary: v)
  case (Cons c s)
  then have "dec_value (v * 10 + digit_val c) s < (v * 10 + digit_val c + 1) * 10 ^ length s"
    by simp
  also have "\<dots> \<le> ((v + 1) * 10) * 10 ^ length s"
    using Cons.prems digit_val_le [of c] by (intro mult_right_mono) auto
  finally show ?case by (simp add: algebra_simps)
qed simp

lemma set_dec_digit [simp]: "c \<in> set (dec n) \<Longrightarrow> isdigit c"
  using dec_digits [of n] unfolding list_all_iff by blast

lemma takeWhile_digits_dec:
  assumes "r = [] \<or> \<not> isdigit (hd r)"
  shows "takeWhile isdigit (dec n @ r) = dec n"
proof -
  have "takeWhile isdigit (dec n @ r) = dec n @ takeWhile isdigit r"
    by (rule takeWhile_append2) simp
  also have "takeWhile isdigit r = []" using assms by (cases r) simp_all
  finally show ?thesis by simp
qed

lemma dropWhile_digits_dec:
  assumes "r = [] \<or> \<not> isdigit (hd r)"
  shows "dropWhile isdigit (dec n @ r) = r"
proof -
  have "dropWhile isdigit (dec n @ r) = dropWhile isdigit r"
    by (rule dropWhile_append2) simp
  also have "\<dots> = r" using assms by (cases r) simp_all
  finally show ?thesis .
qed

lemma dec_hd_digit [simp]: "isdigit (hd (dec n))"
  by (rule set_dec_digit [of _ n]) simp

lemma usecs_add [simp]: "usecs (timeradd a b) = usecs a + usecs b"
  by (simp add: usecs_def timeradd_def Let_def)

lemma usecs_sub [simp]: "usecs (timersub a b) = usecs a - usecs b"
  by (simp add: usecs_def timersub_def Let_def)

lemma timer_lt_usecs: "tv_ok a \<Longrightarrow> tv_ok b \<Longrightarrow> timer_lt a b \<longleftrightarrow> usecs a < usecs b"
  by (auto simp: timer_lt_def usecs_def tv_ok_def)

lemma tv_ok_add [simp]: "tv_ok a \<Longrightarrow> tv_ok b \<Longrightarrow> tv_ok (timeradd a b)"
  by (auto simp: tv_ok_def timeradd_def Let_def)

lemma tv_ok_clear [simp]: "tv_ok timerclear" "usecs timerclear = 0" "\<not> timerisset timerclear"
  by (simp_all add: tv_ok_def timerclear_def usecs_def timerisset_def)

lemma timerisset_usecs: "tv_ok t \<Longrightarrow> timerisset t \<longleftrightarrow> usecs t \<noteq> 0"
proof -
  assume "tv_ok t"
  then have "0 \<le> tv_sec t" and "0 \<le> tv_usec t" by (simp_all add: tv_ok_def)
  then show ?thesis
    by (cases "tv_sec t = 0") (simp_all add: timerisset_def usecs_def)
qed

lemma ascii_lower_idem [simp]: "ascii_lower (ascii_lower c) = ascii_lower c"
proof (cases "65 \<le> (of_char c :: nat) \<and> (of_char c :: nat) \<le> 90")
  case True
  then have "ascii_lower c = char_of (of_char c + (32::nat))"
    by (simp add: ascii_lower_def less_eq_char_def)
  moreover have "of_char (char_of (of_char c + (32::nat))) = (of_char c + 32 :: nat)"
    using True by simp
  ultimately show ?thesis
    using True by (simp add: ascii_lower_def [of "char_of _"] less_eq_char_def)
next
  case False
  then have "ascii_lower c = c" by (auto simp: ascii_lower_def less_eq_char_def)
  then show ?thesis by simp
qed

lemma strcaseeq_refl [simp]: "strcaseeq s s"
  by (simp add: strcaseeq_def)

lemma strcaseeq_length: "strcaseeq a b \<Longrightarrow> length a = length b"
  unfolding strcaseeq_def by (metis length_map)

lemma strcaseeq_trans: "strcaseeq a b \<Longrightarrow> strcaseeq b c \<Longrightarrow> strcaseeq a c"
  by (simp add: strcaseeq_def)

lemma strcaseeq_sym: "strcaseeq a b \<Longrightarrow> strcaseeq b a"
  by (simp add: strcaseeq_def)

lemma strtok_aux_nonempty: "t \<in> set (strtok_aux d acc s) \<Longrightarrow> t \<noteq> []"
  by (induction d acc s rule: strtok_aux.induct) (auto split: if_splits)

lemma strtok_aux_no_delim:
  "list_all (\<lambda>c. \<not> d c) acc \<Longrightarrow> list_all (list_all (\<lambda>c. \<not> d c)) (strtok_aux d acc s)"
  by (induction s arbitrary: acc) (simp_all add: list_all_rev)

lemma strtok_all_token:
  assumes "t \<in> set (strtok_all d s)"
  shows "t \<noteq> []" and "list_all (\<lambda>c. \<not> d c) t"
proof -
  show "t \<noteq> []" using assms unfolding strtok_all_def by (rule strtok_aux_nonempty)
  have "list_all (list_all (\<lambda>c. \<not> d c)) (strtok_all d s)"
    unfolding strtok_all_def by (rule strtok_aux_no_delim) simp
  with assms show "list_all (\<lambda>c. \<not> d c) t" unfolding list_all_iff [of "list_all _"] by blast
qed

lemma not_isl_Inr: "\<not> isl x \<Longrightarrow> \<exists>y. x = Inr y"
  by (cases x) simp_all

lemma strtok_aux_token:
  "list_all (\<lambda>c. \<not> d c) t \<Longrightarrow> strtok_aux d acc (t @ s) = strtok_aux d (rev t @ acc) s"
  by (induction t arbitrary: acc) simp_all

lemma strtok_all_join:
  assumes "list_all (\<lambda>t. t \<noteq> [] \<and> list_all (\<lambda>x. \<not> d x) t) ts" and "d c"
  shows "strtok_all d (join_with c ts) = ts"
  using assms unfolding strtok_all_def
proof (induction c ts rule: join_with.induct)
  case (2 c t)
  then show ?case using strtok_aux_token [of d t "[]" "[]"] by simp
next
  case (3 c t u ts)
  then show ?case using strtok_aux_token [of d t "[]" "c # join_with c (u # ts)"] by simp
qed simp

lemma takeWhile_neq [simp]:
  "c \<notin> set t \<Longrightarrow> takeWhile (\<lambda>x. x \<noteq> c) t = t"
  "c \<notin> set t \<Longrightarrow> dropWhile (\<lambda>x. x \<noteq> c) t = []"
  "c \<notin> set t \<Longrightarrow> takeWhile (\<lambda>x. x \<noteq> c) (t @ c # r) = t"
  "c \<notin> set t \<Longrightarrow> dropWhile (\<lambda>x. x \<noteq> c) (t @ c # r) = c # r"
  by (induction t) auto

lemma split_on_nonempty [simp]: "split_on d s \<noteq> []"
  by (cases s) (simp_all split: list.split)

lemma split_on_piece: "c \<notin> set t \<Longrightarrow> split_on c t = [t]"
  by (induction t) auto

lemma split_on_append: "c \<notin> set t \<Longrightarrow> split_on c (t @ c # s) = t # split_on c s"
  by (induction t) auto

lemma split_on_join:
  assumes "list_all (\<lambda>t. c \<notin> set t) ts" and "ts \<noteq> []"
  shows "split_on c (join_with c ts) = ts"
  using assms by (induction c ts rule: join_with.induct) (simp_all add: split_on_piece split_on_append)

lemma join_with_snoc: "ts \<noteq> [] \<Longrightarrow> join_with c (ts @ [t]) = join_with c ts @ c # t"
proof (induction c ts rule: join_with.induct)
  case (3 c t' u ts)
  then show ?case by simp
qed simp_all

lemma join_with_eq_Nil: "list_all (\<lambda>t. t \<noteq> []) ts \<Longrightarrow> join_with c ts = [] \<longleftrightarrow> ts = []"
  by (induction c ts rule: join_with.induct) simp_all

lemma set_join_with: "set (join_with c ts) \<subseteq> insert c (\<Union> (set ` set ts))"
  by (induction c ts rule: join_with.induct) auto

end
