(* ===== verification/Calendar.thy ===== *)
theory Calendar
  imports Prelude
begin

text \<open>
  The C library's broken-down time and \<open>gmtime_r\<close> on the proleptic Gregorian
  calendar, with the field ranges its callers index arrays with. The cron search
  and the HTTP dates of static files use it.
\<close>

record tm =
  tm_sec :: int
  tm_min :: int
  tm_hour :: int
  tm_mday :: int
  tm_mon :: int
  tm_year :: int
  tm_wday :: int

text \<open>
  Years start in March, so that the leap day is the last of its year: the day
  within a 400-year era splits into centuries, four-year groups and years, the
  last of each being the long one.
\<close>

definition era_century_day :: "int \<Rightarrow> int" where
  "era_century_day doe = doe - min 3 (doe div 36524) * 36524"

definition march_doy :: "int \<Rightarrow> int" where
  "march_doy doe = (let r4 = era_century_day doe mod 1461 in r4 - min 3 (r4 div 365) * 365)"

definition march_yoe :: "int \<Rightarrow> int" where
  "march_yoe doe =
     min 3 (doe div 36524) * 100 + era_century_day doe div 1461 * 4 +
     min 3 (era_century_day doe mod 1461 div 365)"

definition era_day :: "int \<Rightarrow> int" where
  "era_day t = (t div 86400 + 719468) mod 146097"

definition march_month :: "int \<Rightarrow> int" where
  "march_month doy = (5 * doy + 2) div 153"

definition march_mday :: "int \<Rightarrow> int" where
  "march_mday doy = doy - (153 * march_month doy + 2) div 5 + 1"

definition gmtime_r :: "int \<Rightarrow> tm" where
  "gmtime_r t =
     (let doy = march_doy (era_day t);
          mp = march_month doy;
          y = (t div 86400 + 719468) div 146097 * 400 + march_yoe (era_day t);
          mon = (if mp < 10 then mp + 2 else mp - 10)
      in \<lparr>tm_sec = t mod 60, tm_min = t mod 3600 div 60, tm_hour = t mod 86400 div 3600,
          tm_mday = march_mday doy, tm_mon = mon,
          tm_year = (if mon \<le> 1 then y + 1 else y) - 1900,
          tm_wday = (t div 86400 + 4) mod 7\<rparr>)"

definition tm_in_range :: "tm \<Rightarrow> bool" where
  "tm_in_range tmv \<longleftrightarrow>
     0 \<le> tm_sec tmv \<and> tm_sec tmv \<le> 60 \<and> 0 \<le> tm_min tmv \<and> tm_min tmv \<le> 59 \<and>
     0 \<le> tm_hour tmv \<and> tm_hour tmv \<le> 23 \<and> 1 \<le> tm_mday tmv \<and> tm_mday tmv \<le> 31 \<and>
     0 \<le> tm_mon tmv \<and> tm_mon tmv \<le> 11 \<and> 0 \<le> tm_wday tmv \<and> tm_wday tmv \<le> 6"

lemma gmtime_fields [simp]:
  "tm_sec (gmtime_r t) = t mod 60"
  "tm_min (gmtime_r t) = t mod 3600 div 60"
  "tm_hour (gmtime_r t) = t mod 86400 div 3600"
  "tm_mday (gmtime_r t) = march_mday (march_doy (era_day t))"
  "tm_mon (gmtime_r t) =
     (if march_month (march_doy (era_day t)) < 10 then march_month (march_doy (era_day t)) + 2
      else march_month (march_doy (era_day t)) - 10)"
  "tm_wday (gmtime_r t) = (t div 86400 + 4) mod 7"
  by (simp_all add: gmtime_r_def Let_def)

lemma era_day_cong: "t div 86400 = u div 86400 \<Longrightarrow> era_day t = era_day u"
  by (simp add: era_day_def)

lemma march_doy_range: "0 \<le> march_doy doe \<and> march_doy doe \<le> 365"
proof -
  define r4 where "r4 = era_century_day doe mod 1461"
  have r4: "0 \<le> r4" "r4 < 1461" by (simp_all add: r4_def)
  have doy: "march_doy doe = r4 - min 3 (r4 div 365) * 365" by (simp add: march_doy_def r4_def Let_def)
  show ?thesis
  proof (cases "r4 div 365 \<le> 3")
    case True
    then have "march_doy doe = r4 mod 365" by (simp add: doy min_absorb2 minus_div_mult_eq_mod)
    moreover have "0 \<le> r4 mod 365" "r4 mod 365 < 365" by simp_all
    ultimately show ?thesis by linarith
  next
    case False
    then have "1460 \<le> r4" by linarith
    with r4 False show ?thesis by (simp add: doy)
  qed
qed

lemma march_month_day:
  assumes "0 \<le> doy" "doy \<le> 365"
  shows "0 \<le> march_month doy \<and> march_month doy \<le> 11 \<and> 1 \<le> march_mday doy \<and> march_mday doy \<le> 31"
proof -
  define mp where "mp = march_month doy"
  have mp: "153 * mp \<le> 5 * doy + 2" "5 * doy + 2 < 153 * mp + 153"
    unfolding mp_def march_month_def by linarith+
  with assms have "0 \<le> mp" "mp \<le> 11" by linarith+
  moreover have "(153 * mp + 2) div 5 \<le> doy" using mp by linarith
  moreover have "doy \<le> (153 * mp + 2) div 5 + 30" using mp by linarith
  ultimately show ?thesis by (simp add: march_mday_def mp_def)
qed

lemma int_div_bounds:
  fixes x k n :: int
  assumes "0 < k" "0 \<le> x" "x < k * n"
  shows "0 \<le> x div k" "x div k \<le> n - 1"
proof -
  show "0 \<le> x div k" using assms by (simp add: pos_imp_zdiv_nonneg_iff)
  have "k * (x div k) \<le> x" using assms by (simp add: minus_mod_eq_mult_div [symmetric])
  from le_less_trans [OF this assms(3)] show "x div k \<le> n - 1"
    using mult_less_cancel_left_pos [OF assms(1)] by simp
qed

lemma int_mod_le:
  fixes x k :: int
  assumes "0 < k" "k \<le> n + 1"
  shows "x mod k \<le> n"
  using pos_mod_bound [OF assms(1), of x] assms(2) by simp

lemma gmtime_in_range: "tm_in_range (gmtime_r t)"
  unfolding tm_in_range_def
proof (intro conjI)
  have "t mod 60 \<le> 60" "(t div 86400 + 4) mod 7 \<le> 6" by (rule int_mod_le; simp)+
  then show "tm_sec (gmtime_r t) \<le> 60" "tm_wday (gmtime_r t) \<le> 6" by simp_all
  show "tm_min (gmtime_r t) \<le> 59" using int_div_bounds(2) [of 60 "t mod 3600" 60] by simp
  show "tm_hour (gmtime_r t) \<le> 23" using int_div_bounds(2) [of 3600 "t mod 86400" 24] by simp
  show "0 \<le> tm_min (gmtime_r t)" using int_div_bounds(1) [of 60 "t mod 3600" 60] by simp
  show "0 \<le> tm_hour (gmtime_r t)" using int_div_bounds(1) [of 3600 "t mod 86400" 24] by simp
qed (use march_month_day [of "march_doy (era_day t)"] march_doy_range [of "era_day t"] in auto)

end
