(* ===== verification/Cron_Schedule.thy ===== *)
theory Cron_Schedule
  imports Calendar "HOL-Library.Signed_Division"
begin

text \<open>
  The crontab parser and the next-run search of \<open>fpm_cron_schedule.c\<close>. A bitmap
  field is a list of booleans of the C array's length. The parser accumulates
  numbers in an \<open>int\<close>: a signed overflow, undefined in C, is the error
  \<open>SignedOverflow\<close>, so a statement that the parser returns a schedule also says
  that no overflow happened. The message buffer is represented by which message
  the code would format.

  \<open>gmtime_r\<close> is the one of theory Calendar; \<open>localtime_r\<close> depends on the zone
  files of the host and is a parameter that receives the \<open>TZ\<close> variable in force.
\<close>

section \<open>Parsing\<close>

definition INT_MAX :: nat where
  "INT_MAX = 2147483647"

datatype cron_error =
    NoNumber
  | SignedOverflow
  | ExpectedNumber string bytes
  | ExpectedAfterDash string bytes
  | ExpectedAfterSlash string bytes
  | StepNotPositive string bytes
  | TrailingCharacters string bytes
  | OutOfRange string bytes nat nat
  | StartAfterEnd string bytes
  | FieldTooLong string bytes
  | EmptyField string
  | EmptySchedule
  | UnknownShorthand bytes
  | ExpressionTooLong bytes
  | WrongFieldCount nat bytes

record fpm_cron_schedule_s =
  minute :: "bool list"
  hour :: "bool list"
  mday :: "bool list"
  month :: "bool list"
  wday :: "bool list"
  mday_is_star :: bool
  wday_is_star :: bool

definition fpm_cron_shorthands :: "(string \<times> string) list" where
  "fpm_cron_shorthands =
     [(''@hourly'', ''0 * * * *''),
      (''@daily'', ''0 0 * * *''),
      (''@weekly'', ''0 0 * * 0''),
      (''@monthly'', ''0 0 1 * *''),
      (''@yearly'', ''0 0 1 1 *'')]"

fun cron_digits :: "nat \<Rightarrow> bytes \<Rightarrow> cron_error + nat \<times> bytes" where
  "cron_digits v [] = Inr (v, [])"
| "cron_digits v (c # s) =
     (if isdigit c
      then (if v * 10 + digit_val c > INT_MAX then Inl SignedOverflow
            else cron_digits (v * 10 + digit_val c) s)
      else Inr (v, c # s))"

definition fpm_cron_parse_uint :: "bytes \<Rightarrow> cron_error + nat \<times> bytes" where
  "fpm_cron_parse_uint s =
     (if s = [] \<or> \<not> isdigit (hd s) then Inl NoNumber else cron_digits 0 s)"

text \<open>A failed number read becomes the caller's message; an overflow stays one.\<close>

definition cron_expect :: "cron_error \<Rightarrow> bytes \<Rightarrow> cron_error + nat \<times> bytes" where
  "cron_expect msg s =
     (case fpm_cron_parse_uint s of
        Inl NoNumber \<Rightarrow> Inl msg
      | Inl e \<Rightarrow> Inl e
      | Inr r \<Rightarrow> Inr r)"

text \<open>The part before a step: low, high, whether there was an explicit range, the rest.\<close>

definition cron_item_range ::
  "bytes \<Rightarrow> nat \<Rightarrow> nat \<Rightarrow> string \<Rightarrow> cron_error + (nat \<times> nat \<times> bool \<times> bytes)" where
  "cron_item_range item mn mx field =
     (if item \<noteq> [] \<and> hd item = CHR ''*'' then Inr (mn, mx, False, tl item)
      else rbind (cron_expect (ExpectedNumber field item) item) (\<lambda>(low, p).
        if p \<noteq> [] \<and> hd p = CHR ''-''
        then rbind (cron_expect (ExpectedAfterDash field item) (tl p)) (\<lambda>(high, p).
               Inr (low, high, True, p))
        else Inr (low, low, False, p)))"

text \<open>The step: its value, the high bound it leaves, the rest.\<close>

definition cron_item_step ::
  "bytes \<Rightarrow> nat \<Rightarrow> string \<Rightarrow> nat \<Rightarrow> bool \<Rightarrow> bytes \<Rightarrow> cron_error + (nat \<times> nat \<times> bytes)" where
  "cron_item_step item mx field high has_range p =
     (let is_star = (item \<noteq> [] \<and> hd item = CHR ''*'') in
      if p \<noteq> [] \<and> hd p = CHR ''/''
      then rbind (cron_expect (ExpectedAfterSlash field item) (tl p)) (\<lambda>(step, p).
             if step < 1 then Inl (StepNotPositive field item)
             else Inr (step, (if \<not> has_range \<and> \<not> is_star then mx else high), p))
      else Inr (1, high, p))"

text \<open>
  \<open>for (i = low; i <= high; i += step) bitmap[i] = 1;\<close> with an \<open>int\<close> counter. The
  step is at least 1 where the loop is reached; the guard only makes the
  recursion total.
\<close>

function cron_fill :: "nat \<Rightarrow> nat \<Rightarrow> nat \<Rightarrow> bool list \<Rightarrow> cron_error + bool list" where
  "cron_fill i high step bitmap =
     (if i \<le> high \<and> 0 < step
      then (if i + step > INT_MAX then Inl SignedOverflow
            else cron_fill (i + step) high step (bitmap[i := True]))
      else Inr bitmap)"
  by pat_completeness auto
termination
  by (relation "measure (\<lambda>(i, high, step, b). Suc high - i)") auto

declare cron_fill.simps [simp del]

definition fpm_cron_parse_item ::
  "bytes \<Rightarrow> nat \<Rightarrow> nat \<Rightarrow> bool list \<Rightarrow> string \<Rightarrow> cron_error + bool list" where
  "fpm_cron_parse_item item mn mx bitmap field =
     rbind (cron_item_range item mn mx field) (\<lambda>(low, high, has_range, p).
     rbind (cron_item_step item mx field high has_range p) (\<lambda>(step, high, p).
       if p \<noteq> [] then Inl (TrailingCharacters field item)
       else if low < mn \<or> low > mx \<or> high < mn \<or> high > mx then Inl (OutOfRange field item mn mx)
       else if low > high then Inl (StartAfterEnd field item)
       else cron_fill low high step bitmap))"

fun cron_parse_items ::
  "bytes list \<Rightarrow> nat \<Rightarrow> nat \<Rightarrow> bool list \<Rightarrow> string \<Rightarrow> cron_error + bool list" where
  "cron_parse_items [] mn mx bitmap field = Inr bitmap"
| "cron_parse_items (item # items) mn mx bitmap field =
     rbind (fpm_cron_parse_item item mn mx bitmap field)
       (\<lambda>bitmap. cron_parse_items items mn mx bitmap field)"

definition fpm_cron_parse_field ::
  "bytes \<Rightarrow> nat \<Rightarrow> nat \<Rightarrow> nat \<Rightarrow> string \<Rightarrow> cron_error + bool list \<times> bool" where
  "fpm_cron_parse_field field mn mx bitmap_size field_name =
     (let bitmap = replicate bitmap_size False; is_star = (field = ''*'') in
      if length field \<ge> 128 then Inl (FieldTooLong field_name field)
      else if field = [] then Inl (EmptyField field_name)
      else (case strtok_all (\<lambda>c. c = CHR '','') field of
              [] \<Rightarrow> Inl (EmptyField field_name)
            | items \<Rightarrow> rbind (cron_parse_items items mn mx bitmap field_name)
                          (\<lambda>bitmap. Inr (bitmap, is_star))))"

definition cron_fold_wday :: "bool list \<Rightarrow> bool list" where
  "cron_fold_wday wday_tmp =
     (let w = take 7 wday_tmp in if wday_tmp ! 7 then w[0 := True] else w)"

definition cron_parse_fields :: "bytes \<Rightarrow> cron_error + fpm_cron_schedule_s" where
  "cron_parse_fields expr =
     (if length expr \<ge> 256 then Inl (ExpressionTooLong expr)
      else (case strtok_all (\<lambda>c. c = CHR '' '' \<or> c = CHR 0x09) expr of
        [f0, f1, f2, f3, f4] \<Rightarrow>
          rbind (fpm_cron_parse_field f0 0 59 60 ''minute'') (\<lambda>(mi, _).
          rbind (fpm_cron_parse_field f1 0 23 24 ''hour'') (\<lambda>(ho, _).
          rbind (fpm_cron_parse_field f2 1 31 32 ''day-of-month'') (\<lambda>(md, md_star).
          rbind (fpm_cron_parse_field f3 1 12 13 ''month'') (\<lambda>(mo, _).
          rbind (fpm_cron_parse_field f4 0 7 8 ''day-of-week'') (\<lambda>(wd, wd_star).
            Inr \<lparr>minute = mi, hour = ho, mday = md, month = mo, wday = cron_fold_wday wd,
                  mday_is_star = md_star, wday_is_star = wd_star\<rparr>)))))
      | fs \<Rightarrow> Inl (WrongFieldCount (length fs) expr)))"

function fpm_cron_schedule_parse :: "bytes \<Rightarrow> cron_error + fpm_cron_schedule_s" where
  "fpm_cron_schedule_parse expr =
     (if expr = [] then Inl EmptySchedule
      else if hd expr = CHR ''@'' then
        (case map_of fpm_cron_shorthands expr of
           Some expansion \<Rightarrow> fpm_cron_schedule_parse expansion
         | None \<Rightarrow> Inl (UnknownShorthand expr))
      else cron_parse_fields expr)"
  by pat_completeness auto
termination
  by (relation "measure (\<lambda>expr. if expr \<noteq> [] \<and> hd expr = CHR ''@'' then 1 else 0)")
     (auto simp: fpm_cron_shorthands_def split: if_splits)

declare fpm_cron_schedule_parse.simps [simp del]

section \<open>Matching a calendar time\<close>

definition fpm_cron_schedule_matches :: "fpm_cron_schedule_s \<Rightarrow> tm \<Rightarrow> bool" where
  "fpm_cron_schedule_matches sched tmv =
     (if \<not> minute sched ! nat (tm_min tmv) then False
      else if \<not> hour sched ! nat (tm_hour tmv) then False
      else if \<not> month sched ! nat (tm_mon tmv + 1) then False
      else if mday_is_star sched \<and> wday_is_star sched then True
      else if mday_is_star sched then wday sched ! nat (tm_wday tmv)
      else if wday_is_star sched then mday sched ! nat (tm_mday tmv)
      else mday sched ! nat (tm_mday tmv) \<or> wday sched ! nat (tm_wday tmv))"

section \<open>The next run\<close>

text \<open>The environment is the value of the process's \<open>TZ\<close> variable, if set.\<close>

type_synonym tz_env = "string option"

definition fpm_cron_schedule_tz_push :: "string \<Rightarrow> tz_env \<Rightarrow> string option \<times> tz_env" where
  "fpm_cron_schedule_tz_push tz env = (env, Some tz)"

definition fpm_cron_schedule_tz_pop :: "string option \<Rightarrow> tz_env \<Rightarrow> tz_env" where
  "fpm_cron_schedule_tz_pop saved env = (case saved of Some v \<Rightarrow> Some v | None \<Rightarrow> None)"

function cron_search :: "(int \<Rightarrow> tm) \<Rightarrow> fpm_cron_schedule_s \<Rightarrow> int \<Rightarrow> int \<Rightarrow> int" where
  "cron_search conv sched t limit =
     (if t < limit
      then (if fpm_cron_schedule_matches sched (conv t) then t
            else cron_search conv sched (t + 60) limit)
      else - 1)"
  by pat_completeness auto
termination
  by (relation "measure (\<lambda>(conv, sched, t, limit). nat (limit - t))") auto

declare cron_search.simps [simp del]

definition cron_horizon :: int where
  "cron_horizon = 4 * 366 * 24 * 60 * 60"

definition fpm_cron_schedule_next ::
  "(string option \<Rightarrow> int \<Rightarrow> tm) \<Rightarrow> fpm_cron_schedule_s \<Rightarrow> int \<Rightarrow> string option \<Rightarrow> tz_env \<Rightarrow>
   int \<times> tz_env" where
  "fpm_cron_schedule_next localtime_r sched after tz env =
     (let t = (after sdiv 60 + 1) * 60; limit = t + cron_horizon in
      case tz of
        Some (c # z) \<Rightarrow>
          (let (saved, env1) = fpm_cron_schedule_tz_push (c # z) env;
               result = cron_search (localtime_r env1) sched t limit
           in (result, fpm_cron_schedule_tz_pop saved env1))
      | _ \<Rightarrow> (cron_search gmtime_r sched t limit, env))"

section \<open>The grammar a field accepts\<close>

text \<open>
  Abstract syntax of one comma-separated element, its concrete spellings (a
  number may have leading zeros) and the values it selects in a field whose
  domain is \<open>mn..mx\<close>.
\<close>

datatype cron_item =
    Star
  | StarStep nat
  | Value nat
  | Range nat nat
  | ValueStep nat nat
  | RangeStep nat nat nat

definition cron_number :: "nat \<Rightarrow> bytes \<Rightarrow> bool" where
  "cron_number n s \<longleftrightarrow> s \<noteq> [] \<and> list_all isdigit s \<and> dec_value 0 s = n \<and> n \<le> INT_MAX"

inductive cron_item_text :: "cron_item \<Rightarrow> bytes \<Rightarrow> bool" where
  text_star: "cron_item_text Star ''*''"
| text_star_step: "cron_number k s \<Longrightarrow> cron_item_text (StarStep k) (''*/'' @ s)"
| text_value: "cron_number n s \<Longrightarrow> cron_item_text (Value n) s"
| text_range: "cron_number n s \<Longrightarrow> cron_number m t \<Longrightarrow> cron_item_text (Range n m) (s @ ''-'' @ t)"
| text_value_step:
    "cron_number n s \<Longrightarrow> cron_number k t \<Longrightarrow> cron_item_text (ValueStep n k) (s @ ''/'' @ t)"
| text_range_step:
    "cron_number n s \<Longrightarrow> cron_number m t \<Longrightarrow> cron_number k u \<Longrightarrow>
     cron_item_text (RangeStep n m k) (s @ ''-'' @ t @ ''/'' @ u)"

fun item_low :: "nat \<Rightarrow> cron_item \<Rightarrow> nat" where
  "item_low mn Star = mn"
| "item_low mn (StarStep k) = mn"
| "item_low mn (Value n) = n"
| "item_low mn (Range n m) = n"
| "item_low mn (ValueStep n k) = n"
| "item_low mn (RangeStep n m k) = n"

fun item_high :: "nat \<Rightarrow> cron_item \<Rightarrow> nat" where
  "item_high mx Star = mx"
| "item_high mx (StarStep k) = mx"
| "item_high mx (Value n) = n"
| "item_high mx (Range n m) = m"
| "item_high mx (ValueStep n k) = mx"
| "item_high mx (RangeStep n m k) = m"

fun item_step :: "cron_item \<Rightarrow> nat" where
  "item_step (StarStep k) = k"
| "item_step (ValueStep n k) = k"
| "item_step (RangeStep n m k) = k"
| "item_step _ = 1"

text \<open>The last value the fill loop's counter takes; it must fit an \<open>int\<close>.\<close>

definition fill_end :: "nat \<Rightarrow> nat \<Rightarrow> nat \<Rightarrow> nat" where
  "fill_end low high step = low + ((high - low) div step + 1) * step"

definition item_ok :: "nat \<Rightarrow> nat \<Rightarrow> cron_item \<Rightarrow> bool" where
  "item_ok mn mx it \<longleftrightarrow>
     mn \<le> item_low mn it \<and> item_low mn it \<le> item_high mx it \<and> item_high mx it \<le> mx \<and>
     1 \<le> item_step it \<and> fill_end (item_low mn it) (item_high mx it) (item_step it) \<le> INT_MAX"

definition item_selects :: "nat \<Rightarrow> nat \<Rightarrow> cron_item \<Rightarrow> nat \<Rightarrow> bool" where
  "item_selects mn mx it j \<longleftrightarrow>
     item_low mn it \<le> j \<and> j \<le> item_high mx it \<and> item_step it dvd (j - item_low mn it)"

definition add_bits :: "bool list \<Rightarrow> (nat \<Rightarrow> bool) \<Rightarrow> bool list" where
  "add_bits bm P = map (\<lambda>j. bm ! j \<or> P j) [0..<length bm]"

lemma add_bits_length [simp]: "length (add_bits bm P) = length bm"
  by (simp add: add_bits_def)

lemma add_bits_add_bits: "add_bits (add_bits bm P) Q = add_bits bm (\<lambda>j. P j \<or> Q j)"
  by (simp add: add_bits_def)

lemma add_bits_none [simp]: "add_bits bm (\<lambda>j. False) = bm"
  by (simp add: add_bits_def map_nth)

lemma add_bits_replicate: "add_bits (replicate n False) P = map P [0..<n]"
  by (simp add: add_bits_def)

lemma add_bits_cong: "(\<And>j. P j = Q j) \<Longrightarrow> add_bits bm P = add_bits bm Q"
  by (simp add: add_bits_def)

lemma dvd_step_shift:
  fixes i j step :: nat
  assumes "0 < step"
  shows "i \<le> j \<and> step dvd (j - i) \<longleftrightarrow> j = i \<or> (i + step \<le> j \<and> step dvd (j - (i + step)))"
proof (cases "i + step \<le> j")
  case True
  then have "j - i = (j - (i + step)) + step" by simp
  then show ?thesis using True assms by (metis add_leD1 dvd_add_triv_right_iff le_add_diff_inverse
    diff_self_eq_0 dvd_0_right)
next
  case False
  then have "i \<le> j \<Longrightarrow> step dvd (j - i) \<Longrightarrow> j = i"
    using assms by (metis add.commute add_leD1 diff_is_0_eq' le_add_diff_inverse dvd_imp_le
      le_diff_conv less_or_eq_imp_le nat_le_linear neq0_conv zero_less_diff le_antisym)
  then show ?thesis using False by auto
qed

lemma fill_end_step:
  assumes "0 < step" "i + step \<le> high"
  shows "fill_end (i + step) high step = fill_end i high step"
proof -
  have "high - i = (high - (i + step)) + step" using assms by simp
  then have "(high - i) div step = (high - (i + step)) div step + 1"
    using assms by (metis div_add_self2 neq0_conv)
  then show ?thesis by (simp add: fill_end_def)
qed

lemma cron_fill_iff:
  assumes "0 < step" "high < length bm"
  shows "cron_fill i high step bm = Inr bm' \<longleftrightarrow>
     (i \<le> high \<longrightarrow> fill_end i high step \<le> INT_MAX) \<and>
     bm' = add_bits bm (\<lambda>j. i \<le> j \<and> j \<le> high \<and> step dvd (j - i))"
  using assms
proof (induction i high step bm rule: cron_fill.induct)
  case (1 i high step bm)
  consider "high < i" | "i \<le> high" "i + step > INT_MAX" | "i \<le> high" "i + step \<le> INT_MAX"
    by linarith
  then show ?case
  proof cases
    case 1
    then have "(\<lambda>j. i \<le> j \<and> j \<le> high \<and> step dvd (j - i)) = (\<lambda>j. False)" by auto
    then have "add_bits bm (\<lambda>j. i \<le> j \<and> j \<le> high \<and> step dvd (j - i)) = bm" by simp
    then show ?thesis using 1 by (auto simp: cron_fill.simps)
  next
    case 2
    moreover have "fill_end i high step \<ge> i + step" by (simp add: fill_end_def)
    ultimately show ?thesis using 1 by (auto simp: cron_fill.simps)
  next
    case 3
    have bits: "add_bits (bm[i := True]) (\<lambda>j. i + step \<le> j \<and> j \<le> high \<and> step dvd (j - (i + step)))
        = add_bits bm (\<lambda>j. i \<le> j \<and> j \<le> high \<and> step dvd (j - i))"
    proof (rule nth_equalityI)
      fix j assume "j < length (add_bits (bm[i := True]) (\<lambda>j. i + step \<le> j \<and> j \<le> high \<and> step dvd (j - (i + step))))"
      then show "add_bits (bm[i := True]) (\<lambda>j. i + step \<le> j \<and> j \<le> high \<and> step dvd (j - (i + step))) ! j
        = add_bits bm (\<lambda>j. i \<le> j \<and> j \<le> high \<and> step dvd (j - i)) ! j"
        using dvd_step_shift [OF "1.prems"(1), of i j] 3 "1.prems"
        by (auto simp: add_bits_def nth_list_update)
    qed simp
    have "(i + step \<le> high \<longrightarrow> fill_end (i + step) high step \<le> INT_MAX)
       \<longleftrightarrow> fill_end i high step \<le> INT_MAX"
      using fill_end_step [of step i high] 3 "1.prems" by (auto simp: fill_end_def)
    then show ?thesis
      using "1.IH" 3 "1.prems" bits by (simp add: cron_fill.simps [of i])
  qed
qed

section \<open>The parser accepts exactly the grammar\<close>

lemma cron_digits_eq:
  "cron_digits v s =
     (if takeWhile isdigit s = [] \<or> dec_value v (takeWhile isdigit s) \<le> INT_MAX
      then Inr (dec_value v (takeWhile isdigit s), dropWhile isdigit s)
      else Inl SignedOverflow)"
proof (induction s arbitrary: v)
  case (Cons c s)
  show ?case
  proof (cases "isdigit c")
    case True
    have "v * 10 + digit_val c \<le> dec_value (v * 10 + digit_val c) (takeWhile isdigit s)"
      by (rule dec_value_mono)
    then show ?thesis using True Cons [of "v * 10 + digit_val c"] by auto
  qed simp
qed simp

lemma parse_uint_number:
  assumes "cron_number n ds" "r = [] \<or> \<not> isdigit (hd r)"
  shows "fpm_cron_parse_uint (ds @ r) = Inr (n, r)"
proof -
  from assms have "takeWhile isdigit (ds @ r) = ds" "dropWhile isdigit (ds @ r) = r"
    by (cases r; auto simp: cron_number_def list_all_iff takeWhile_append dropWhile_append)+
  moreover from assms have "ds \<noteq> []" "isdigit (hd ds)"
    by (cases ds; auto simp: cron_number_def)+
  ultimately show ?thesis using assms
    by (simp add: fpm_cron_parse_uint_def cron_digits_eq cron_number_def)
qed

lemma parse_uintE:
  assumes "fpm_cron_parse_uint s = Inr (n, r)"
  obtains ds where "s = ds @ r" "cron_number n ds" "r = [] \<or> \<not> isdigit (hd r)"
proof
  have s: "s \<noteq> []" "isdigit (hd s)" and digits: "cron_digits 0 s = Inr (n, r)"
    using assms by (auto simp: fpm_cron_parse_uint_def split: if_splits)
  from s have ne: "takeWhile isdigit s \<noteq> []" by (cases s) simp_all
  with digits have nr: "n = dec_value 0 (takeWhile isdigit s)" "r = dropWhile isdigit s" "n \<le> INT_MAX"
    by (simp_all add: cron_digits_eq split: if_splits)
  then show "s = takeWhile isdigit s @ r" by simp
  show "cron_number n (takeWhile isdigit s)"
    unfolding cron_number_def list_all_iff using ne nr(1) nr(3) by (blast dest: set_takeWhileD)
  show "r = [] \<or> \<not> isdigit (hd r)"
    using nr hd_dropWhile [of isdigit s] by blast
qed

lemma cron_expect_Inr [simp]: "cron_expect msg s = Inr x \<longleftrightarrow> fpm_cron_parse_uint s = Inr x"
  by (auto simp: cron_expect_def split: sum.splits cron_error.splits)

lemma cron_number_hd: "cron_number n ds \<Longrightarrow> ds \<noteq> [] \<and> isdigit (hd (ds @ r))"
  by (cases ds) (auto simp: cron_number_def)

lemma cron_number_not_star: "cron_number n ds \<Longrightarrow> hd (ds @ r) \<noteq> CHR ''*''"
  using cron_number_hd [of n ds r] by (metis not_digit_simps(3))

text \<open>What the first two stages of the item parser establish.\<close>

lemma cron_item_range_cases:
  assumes "cron_item_range item mn mx field = Inr (low, high, rng, p)"
  obtains
    (star) "item = CHR ''*'' # p" "low = mn" "high = mx" "\<not> rng"
  | (single) ds where "item = ds @ p" "cron_number low ds" "high = low" "\<not> rng"
      "p = [] \<or> hd p \<noteq> CHR ''-''"
  | (range) ds es where "item = ds @ ''-'' @ es @ p" "cron_number low ds" "cron_number high es" "rng"
proof (cases "item \<noteq> [] \<and> hd item = CHR ''*''")
  case True
  then show thesis using assms star by (cases item) (simp_all add: cron_item_range_def)
next
  case False
  with assms obtain n q where q: "fpm_cron_parse_uint item = Inr (n, q)"
    and rest: "(if q \<noteq> [] \<and> hd q = CHR ''-''
        then rbind (cron_expect (ExpectedAfterDash field item) (tl q)) (\<lambda>(high, p). Inr (n, high, True, p))
        else Inr (n, n, False, q)) = Inr (low, high, rng, p)"
    by (auto simp: cron_item_range_def)
  from parse_uintE [OF q] obtain ds where ds: "item = ds @ q" "cron_number n ds" by blast
  show thesis
  proof (cases "q \<noteq> [] \<and> hd q = CHR ''-''")
    case True
    with rest obtain m where m: "fpm_cron_parse_uint (tl q) = Inr (m, p)" "low = n" "high = m" "rng"
      by (auto split: prod.splits)
    from parse_uintE [OF m(1)] obtain es where "tl q = es @ p" "cron_number m es" by blast
    with True ds m range [of ds es] show thesis by (cases q) simp_all
  next
    case False
    with rest ds single [of ds] show thesis by auto
  qed
qed

lemma cron_item_step_cases:
  assumes "cron_item_step item mx field high rng p = Inr (step, high', q)"
  obtains
    (none) "step = 1" "high' = high" "q = p" "p = [] \<or> hd p \<noteq> CHR ''/''"
  | (step) ds where "p = ''/'' @ ds @ q" "cron_number step ds" "1 \<le> step"
      "high' = (if \<not> rng \<and> \<not> (item \<noteq> [] \<and> hd item = CHR ''*'') then mx else high)"
proof (cases "p \<noteq> [] \<and> hd p = CHR ''/''")
  case True
  with assms have u: "fpm_cron_parse_uint (tl p) = Inr (step, q)" and s: "1 \<le> step"
    and h: "high' = (if \<not> rng \<and> \<not> (item \<noteq> [] \<and> hd item = CHR ''*'') then mx else high)"
    by (auto simp: cron_item_step_def Let_def split: if_splits)
  from parse_uintE [OF u] obtain ds where "tl p = ds @ q" "cron_number step ds" by blast
  with True s h step [of ds] show thesis by (cases p) simp_all
next
  case False
  with assms none show thesis by (auto simp: cron_item_step_def Let_def)
qed

definition cron_item_result :: "nat \<Rightarrow> nat \<Rightarrow> bool list \<Rightarrow> cron_item \<Rightarrow> bool list" where
  "cron_item_result mn mx bm it = add_bits bm (item_selects mn mx it)"

lemma parse_item_sound:
  assumes "fpm_cron_parse_item item mn mx bm field = Inr bm'" "mx < length bm"
  shows "\<exists>it. cron_item_text it item \<and> item_ok mn mx it \<and> bm' = cron_item_result mn mx bm it"
proof -
  from assms(1) obtain low high rng p step high' where
    r: "cron_item_range item mn mx field = Inr (low, high, rng, p)" and
    s: "cron_item_step item mx field high rng p = Inr (step, high', [])" and
    b: "mn \<le> low" "low \<le> high'" "high' \<le> mx" and
    f: "cron_fill low high' step bm = Inr bm'"
    by (auto simp: fpm_cron_parse_item_def split: if_splits)
  have pos: "1 \<le> step" using s by (cases rule: cron_item_step_cases) auto
  from f b pos assms(2) have fill: "fill_end low high' step \<le> INT_MAX"
    "bm' = add_bits bm (\<lambda>j. low \<le> j \<and> j \<le> high' \<and> step dvd (j - low))"
    using cron_fill_iff [of step high' bm low bm'] by auto
  have "\<exists>it. cron_item_text it item \<and> item_low mn it = low \<and> item_high mx it = high' \<and> item_step it = step"
    using r
  proof (cases rule: cron_item_range_cases)
    case star
    from s show ?thesis
    proof (cases rule: cron_item_step_cases)
      case none
      with star show ?thesis by (intro exI [of _ Star]) (simp add: text_star)
    next
      case (step ds)
      with star show ?thesis using text_star_step [of step ds] by (intro exI [of _ "StarStep step"]) simp
    qed
  next
    case (single ds)
    from s show ?thesis
    proof (cases rule: cron_item_step_cases)
      case none
      with single show ?thesis using text_value [of low ds] by (intro exI [of _ "Value low"]) simp
    next
      case (step es)
      with single show ?thesis using text_value_step [of low ds step es] cron_number_not_star [of low ds p]
        by (intro exI [of _ "ValueStep low step"]) auto
    qed
  next
    case (range ds es)
    from s show ?thesis
    proof (cases rule: cron_item_step_cases)
      case none
      with range show ?thesis using text_range [of low ds high es] by (intro exI [of _ "Range low high"]) simp
    next
      case (step us)
      with range show ?thesis using text_range_step [of low ds high es step us]
        by (intro exI [of _ "RangeStep low high step"]) simp
    qed
  qed
  then obtain it where it: "cron_item_text it item" "item_low mn it = low" "item_high mx it = high'"
    "item_step it = step" by blast
  then have "item_selects mn mx it = (\<lambda>j. low \<le> j \<and> j \<le> high' \<and> step dvd (j - low))"
    by (simp add: item_selects_def fun_eq_iff)
  with it fill b pos show ?thesis by (auto simp: item_ok_def cron_item_result_def)
qed

lemma cron_item_range_text:
  assumes "cron_item_text it item"
  shows "\<exists>high rng p. cron_item_range item mn mx field = Inr (item_low mn it, high, rng, p) \<and>
    (1 \<le> item_step it \<longrightarrow>
       cron_item_step item mx field high rng p = Inr (item_step it, item_high mx it, []))"
  using assms
proof cases
  case text_star
  then show ?thesis by (auto simp: cron_item_range_def cron_item_step_def intro: exI [of _ False])
next
  case (text_star_step k s)
  then show ?thesis using parse_uint_number [of k s "[]"]
    by (auto simp: cron_item_range_def cron_item_step_def cron_expect_def Let_def)
next
  case (text_value n)
  then show ?thesis using parse_uint_number [of n item "[]"] cron_number_not_star [of n item "[]"]
    by (auto simp: cron_item_range_def cron_item_step_def cron_expect_def Let_def)
next
  case (text_range n s m t)
  then show ?thesis
    using parse_uint_number [of n s "''-'' @ t"] parse_uint_number [of m t "[]"]
      cron_number_not_star [of n s "''-'' @ t"]
    by (auto simp: cron_item_range_def cron_item_step_def cron_expect_def Let_def)
next
  case (text_value_step n s k t)
  then show ?thesis
    using parse_uint_number [of n s "''/'' @ t"] parse_uint_number [of k t "[]"]
      cron_number_not_star [of n s "''/'' @ t"]
    by (auto simp: cron_item_range_def cron_item_step_def cron_expect_def Let_def)
next
  case (text_range_step n s m t k u)
  then show ?thesis
    using parse_uint_number [of n s "''-'' @ t @ ''/'' @ u"] parse_uint_number [of m t "''/'' @ u"]
      parse_uint_number [of k u "[]"] cron_number_not_star [of n s "''-'' @ t @ ''/'' @ u"]
    by (auto simp: cron_item_range_def cron_item_step_def cron_expect_def Let_def)
qed

lemma parse_item_complete:
  assumes "cron_item_text it item" "item_ok mn mx it" "mx < length bm"
  shows "fpm_cron_parse_item item mn mx bm field = Inr (cron_item_result mn mx bm it)"
proof -
  from assms(2) have ok: "mn \<le> item_low mn it" "item_low mn it \<le> item_high mx it"
    "item_high mx it \<le> mx" "1 \<le> item_step it"
    "fill_end (item_low mn it) (item_high mx it) (item_step it) \<le> INT_MAX"
    by (simp_all add: item_ok_def)
  from cron_item_range_text [OF assms(1), of mn mx field] ok(4) obtain high rng p where
    "cron_item_range item mn mx field = Inr (item_low mn it, high, rng, p)"
    "cron_item_step item mx field high rng p = Inr (item_step it, item_high mx it, [])" by blast
  moreover have "cron_fill (item_low mn it) (item_high mx it) (item_step it) bm
      = Inr (cron_item_result mn mx bm it)"
    using cron_fill_iff [of "item_step it" "item_high mx it" bm "item_low mn it"
        "cron_item_result mn mx bm it"] ok assms(3)
    by (simp add: cron_item_result_def item_selects_def [abs_def])
  ultimately show ?thesis using ok by (simp add: fpm_cron_parse_item_def)
qed

lemma parse_item_iff:
  "mx < length bm \<Longrightarrow>
   fpm_cron_parse_item item mn mx bm field = Inr bm' \<longleftrightarrow>
   (\<exists>it. cron_item_text it item \<and> item_ok mn mx it \<and> bm' = cron_item_result mn mx bm it)"
  using parse_item_sound parse_item_complete by metis

text \<open>A list of items selects the union of what its items select.\<close>

definition items_select :: "nat \<Rightarrow> nat \<Rightarrow> cron_item list \<Rightarrow> nat \<Rightarrow> bool" where
  "items_select mn mx its j \<longleftrightarrow> list_ex (\<lambda>it. item_selects mn mx it j) its"

lemma parse_items_iff:
  "mx < length bm \<Longrightarrow>
   cron_parse_items items mn mx bm field = Inr bm' \<longleftrightarrow>
   (\<exists>its. list_all2 cron_item_text its items \<and> list_all (item_ok mn mx) its \<and>
          bm' = add_bits bm (items_select mn mx its))"
proof (induction items arbitrary: bm)
  case Nil
  have "items_select mn mx [] = (\<lambda>j. False)" by (simp add: items_select_def fun_eq_iff)
  then show ?case by auto
next
  case (Cons item items)
  have union: "items_select mn mx (it # its) = (\<lambda>j. item_selects mn mx it j \<or> items_select mn mx its j)"
    for it its by (simp add: items_select_def fun_eq_iff)
  have "cron_parse_items (item # items) mn mx bm field = Inr bm' \<longleftrightarrow>
     (\<exists>it. cron_item_text it item \<and> item_ok mn mx it \<and>
        cron_parse_items items mn mx (cron_item_result mn mx bm it) field = Inr bm')"
    using parse_item_iff [OF Cons.prems] by (auto simp: rbind_Inr_iff)
  also have "\<dots> \<longleftrightarrow> (\<exists>it. cron_item_text it item \<and> item_ok mn mx it \<and>
     (\<exists>its. list_all2 cron_item_text its items \<and> list_all (item_ok mn mx) its \<and>
          bm' = add_bits bm (items_select mn mx (it # its))))"
  proof -
    have "cron_parse_items items mn mx (cron_item_result mn mx bm it) field = Inr bm' \<longleftrightarrow>
      (\<exists>its. list_all2 cron_item_text its items \<and> list_all (item_ok mn mx) its \<and>
          bm' = add_bits bm (items_select mn mx (it # its)))" for it
      using Cons.IH [of "cron_item_result mn mx bm it"] Cons.prems
      by (simp add: cron_item_result_def add_bits_add_bits union)
    then show ?thesis by simp
  qed
  also have "\<dots> \<longleftrightarrow> (\<exists>its. list_all2 cron_item_text its (item # items) \<and>
     list_all (item_ok mn mx) its \<and> bm' = add_bits bm (items_select mn mx its))"
    by (force simp: list_all2_Cons2)
  finally show ?case .
qed

definition cron_tokens :: "bytes \<Rightarrow> bytes list" where
  "cron_tokens field = strtok_all (\<lambda>c. c = CHR '','') field"

lemma parse_field_iff:
  "fpm_cron_parse_field field mn mx (Suc mx) name = Inr (bm, star) \<longleftrightarrow>
     length field < 128 \<and> cron_tokens field \<noteq> [] \<and> star = (field = ''*'') \<and>
     (\<exists>its. list_all2 cron_item_text its (cron_tokens field) \<and> list_all (item_ok mn mx) its \<and>
        bm = map (items_select mn mx its) [0..<Suc mx])"
proof -
  have "cron_tokens [] = []" by (simp add: cron_tokens_def strtok_all_def)
  then show ?thesis
    using parse_items_iff [of mx "replicate (Suc mx) False" "cron_tokens field" mn name bm]
    by (auto simp: fpm_cron_parse_field_def Let_def cron_tokens_def [symmetric] add_bits_replicate
        rbind_Inr_iff simp del: replicate_Suc upt_Suc split: list.splits)
qed

section \<open>Whole expressions\<close>

definition field_denotes :: "bytes \<Rightarrow> nat \<Rightarrow> nat \<Rightarrow> bool list \<Rightarrow> bool" where
  "field_denotes field mn mx bm \<longleftrightarrow>
     length field < 128 \<and> cron_tokens field \<noteq> [] \<and>
     (\<exists>its. list_all2 cron_item_text its (cron_tokens field) \<and> list_all (item_ok mn mx) its \<and>
        bm = map (items_select mn mx its) [0..<Suc mx])"

text \<open>Day-of-week 7 is another name of day 0, Sunday.\<close>

definition cron_denotes :: "bytes \<Rightarrow> fpm_cron_schedule_s \<Rightarrow> bool" where
  "cron_denotes expr s \<longleftrightarrow>
     length expr < 256 \<and>
     (\<exists>f0 f1 f2 f3 f4 wd.
        strtok_all (\<lambda>c. c = CHR '' '' \<or> c = CHR 0x09) expr = [f0, f1, f2, f3, f4] \<and>
        field_denotes f0 0 59 (minute s) \<and> field_denotes f1 0 23 (hour s) \<and>
        field_denotes f2 1 31 (mday s) \<and> field_denotes f3 1 12 (month s) \<and>
        field_denotes f4 0 7 wd \<and> wday s = map (\<lambda>j. wd ! j \<or> (j = 0 \<and> wd ! 7)) [0..<7] \<and>
        mday_is_star s = (f2 = ''*'') \<and> wday_is_star s = (f4 = ''*''))"

lemma parse_field_denotes:
  "n = Suc mx \<Longrightarrow>
   fpm_cron_parse_field field mn mx n name = Inr (bm, star) \<longleftrightarrow>
     star = (field = ''*'') \<and> field_denotes field mn mx bm"
  using parse_field_iff [of field mn mx name bm star] by (auto simp: field_denotes_def)

lemma field_denotes_length: "field_denotes field mn mx bm \<Longrightarrow> length bm = Suc mx"
  by (auto simp: field_denotes_def)

lemma fold_wday_denotes:
  assumes "field_denotes field 0 7 wd"
  shows "cron_fold_wday wd = map (\<lambda>j. wd ! j \<or> (j = 0 \<and> wd ! 7)) [0..<7]"
  using field_denotes_length [OF assms] by (auto intro!: nth_equalityI simp: cron_fold_wday_def Let_def nth_list_update)

lemma parse_fields_iff: "cron_parse_fields expr = Inr s \<longleftrightarrow> cron_denotes expr s"
proof (cases "length expr < 256")
  case True
  show ?thesis
  proof (cases "\<exists>f0 f1 f2 f3 f4.
      strtok_all (\<lambda>c. c = CHR '' '' \<or> c = CHR 0x09) expr = [f0, f1, f2, f3, f4]")
    case five: True
    then obtain f0 f1 f2 f3 f4 where
      f: "strtok_all (\<lambda>c. c = CHR '' '' \<or> c = CHR 0x09) expr = [f0, f1, f2, f3, f4]" by blast
    have "cron_parse_fields expr = Inr s \<longleftrightarrow>
       field_denotes f0 0 59 (minute s) \<and> field_denotes f1 0 23 (hour s) \<and>
       field_denotes f2 1 31 (mday s) \<and> field_denotes f3 1 12 (month s) \<and>
       (\<exists>wd. field_denotes f4 0 7 wd \<and> wday s = cron_fold_wday wd) \<and>
       mday_is_star s = (f2 = ''*'') \<and> wday_is_star s = (f4 = ''*'')"
      using True f
      by (cases s) (auto simp: cron_parse_fields_def rbind_Inr_iff parse_field_denotes; blast)
    also have "\<dots> \<longleftrightarrow> cron_denotes expr s"
      using True f by (auto simp: cron_denotes_def fold_wday_denotes cong: conj_cong)
    finally show ?thesis .
  next
    case False
    then show ?thesis
      using True by (auto simp: cron_parse_fields_def cron_denotes_def split: list.splits)
  qed
next
  case False
  then show ?thesis by (simp add: cron_parse_fields_def cron_denotes_def)
qed

lemma shorthand_not_at: "map_of fpm_cron_shorthands e = Some x \<Longrightarrow> x \<noteq> [] \<and> hd x \<noteq> CHR ''@''"
  by (auto simp: fpm_cron_shorthands_def split: if_splits)

lemma schedule_parse_iff:
  "fpm_cron_schedule_parse expr = Inr s \<longleftrightarrow>
     expr \<noteq> [] \<and>
     (if hd expr = CHR ''@''
      then \<exists>x. map_of fpm_cron_shorthands expr = Some x \<and> cron_denotes x s
      else cron_denotes expr s)"
proof (cases "map_of fpm_cron_shorthands expr")
  case None
  then show ?thesis by (auto simp: fpm_cron_schedule_parse.simps [of expr] parse_fields_iff)
next
  case (Some x)
  then have "fpm_cron_schedule_parse x = cron_parse_fields x"
    using shorthand_not_at [OF Some] by (simp add: fpm_cron_schedule_parse.simps)
  with Some show ?thesis
    by (auto simp: fpm_cron_schedule_parse.simps [of expr] parse_fields_iff)
qed

section \<open>Array bounds\<close>

definition cron_wf :: "fpm_cron_schedule_s \<Rightarrow> bool" where
  "cron_wf s \<longleftrightarrow> length (minute s) = 60 \<and> length (hour s) = 24 \<and> length (mday s) = 32 \<and>
     length (month s) = 13 \<and> length (wday s) = 7"

lemma denotes_wf: "cron_denotes expr s \<Longrightarrow> cron_wf s"
  by (auto simp: cron_denotes_def cron_wf_def dest!: field_denotes_length)

lemma schedule_parse_wf: "fpm_cron_schedule_parse expr = Inr s \<Longrightarrow> cron_wf s"
  by (auto simp: schedule_parse_iff dest: denotes_wf split: if_splits)

section \<open>The search\<close>

lemma cron_search_cases:
  assumes "t < limit"
  shows "(\<exists>k::nat. cron_search conv s t limit = t + 60 * int k \<and> t + 60 * int k < limit \<and>
            fpm_cron_schedule_matches s (conv (t + 60 * int k)) \<and>
            (\<forall>j<k. \<not> fpm_cron_schedule_matches s (conv (t + 60 * int j)))) \<or>
         cron_search conv s t limit = - 1 \<and>
            (\<forall>k::nat. t + 60 * int k < limit \<longrightarrow> \<not> fpm_cron_schedule_matches s (conv (t + 60 * int k)))"
  using assms
proof (induction conv s t limit rule: cron_search.induct)
  case (1 conv s t limit)
  let ?m = "\<lambda>u. fpm_cron_schedule_matches s (conv u)"
  show ?case
  proof (cases "?m t")
    case True
    then show ?thesis using "1.prems" by (intro disjI1 exI [of _ 0]) (simp add: cron_search.simps)
  next
    case False
    have step: "cron_search conv s t limit = cron_search conv s (t + 60) limit"
      using False "1.prems" by (simp add: cron_search.simps [of conv s t limit])
    have shift: "t + 60 * int (Suc k) = (t + 60) + 60 * int k" for k by simp
    show ?thesis
    proof (cases "t + 60 < limit")
      case True
      consider (hit) k where "cron_search conv s (t + 60) limit = t + 60 * int (Suc k)"
          "t + 60 * int (Suc k) < limit" "?m (t + 60 * int (Suc k))"
          "\<forall>j<k. \<not> ?m (t + 60 * int (Suc j))"
        | (miss) "cron_search conv s (t + 60) limit = - 1"
          "\<forall>k::nat. t + 60 * int (Suc k) < limit \<longrightarrow> \<not> ?m (t + 60 * int (Suc k))"
        using "1.IH" [OF "1.prems" False True] unfolding shift by blast
      then show ?thesis
      proof cases
        case hit
        then have "\<not> ?m (t + 60 * int j)" if "j < Suc k" for j
          using that False by (cases j) auto
        with hit step show ?thesis by (metis (no_types))
      next
        case miss
        then have "\<not> ?m (t + 60 * int k)" if "t + 60 * int k < limit" for k
          using that False by (cases k) auto
        with miss step show ?thesis by simp
      qed
    next
      case limit: False
      then have "\<not> ?m (t + 60 * int k)" if "t + 60 * int k < limit" for k :: nat
        using that False by (cases k) auto
      with limit step show ?thesis by (simp add: cron_search.simps [of conv s "t + 60"])
    qed
  qed
qed

text \<open>The clock a schedule is matched against, and the first instant after \<open>after\<close>.\<close>

definition cron_clock :: "(string option \<Rightarrow> int \<Rightarrow> tm) \<Rightarrow> string option \<Rightarrow> int \<Rightarrow> tm" where
  "cron_clock localtime_r tz =
     (case tz of Some (c # z) \<Rightarrow> localtime_r (Some (c # z)) | _ \<Rightarrow> gmtime_r)"

definition cron_start :: "int \<Rightarrow> int" where
  "cron_start after = (after div 60 + 1) * 60"

lemma sdiv_60: "0 \<le> after \<Longrightarrow> after sdiv 60 = after div (60 :: int)"
  by (cases "after = 0") (simp_all add: signed_divide_int_def)

lemma schedule_next_search:
  assumes "0 \<le> after"
  shows "fpm_cron_schedule_next lt s after tz env =
    (cron_search (cron_clock lt tz) s (cron_start after) (cron_start after + cron_horizon), env)"
  using assms
  by (auto simp: fpm_cron_schedule_next_def fpm_cron_schedule_tz_push_def fpm_cron_schedule_tz_pop_def
      cron_clock_def cron_start_def Let_def sdiv_60 split: option.splits list.splits)

lemma cron_start_bounds:
  assumes "0 \<le> after"
  shows "after < cron_start after" "cron_start after \<le> after + 60" "60 dvd cron_start after"
    "0 < cron_start after"
proof -
  have "after = 60 * (after div 60) + after mod 60" "0 \<le> after mod 60" "after mod 60 < 60" by simp_all
  then show "after < cron_start after" "cron_start after \<le> after + 60"
    by (simp_all add: cron_start_def)
  with assms show "0 < cron_start after" by simp
  show "60 dvd cron_start after" by (simp add: cron_start_def)
qed

lemma minute_after_start:
  assumes "60 dvd u" "after < u"
  obtains k :: nat where "u = cron_start after + 60 * int k"
proof -
  from assms(1) obtain v where v: "u = 60 * v" by blast
  have "after = 60 * (after div 60) + after mod 60" "0 \<le> after mod 60" by simp_all
  with assms(2) v have "after div 60 + 1 \<le> v" by linarith
  with v that [of "nat (v - (after div 60 + 1))"] show thesis
    by (simp add: cron_start_def algebra_simps)
qed

lemma schedule_next_cases:
  assumes "0 \<le> after" "fpm_cron_schedule_next lt s after tz env = (r, env')"
  obtains
    (hit) "r \<noteq> - 1" "after < r" "60 dvd r" "r < cron_start after + cron_horizon"
      "fpm_cron_schedule_matches s (cron_clock lt tz r)"
      "\<And>u. 60 dvd u \<Longrightarrow> after < u \<Longrightarrow> u < r \<Longrightarrow> \<not> fpm_cron_schedule_matches s (cron_clock lt tz u)"
  | (miss) "r = - 1"
      "\<And>u. 60 dvd u \<Longrightarrow> after < u \<Longrightarrow> u < cron_start after + cron_horizon \<Longrightarrow>
           \<not> fpm_cron_schedule_matches s (cron_clock lt tz u)"
proof -
  let ?t = "cron_start after" and ?m = "\<lambda>u. fpm_cron_schedule_matches s (cron_clock lt tz u)"
  note start = cron_start_bounds [OF assms(1)]
  have r: "r = cron_search (cron_clock lt tz) s ?t (?t + cron_horizon)"
    using assms schedule_next_search by simp
  have "?t < ?t + cron_horizon" by (simp add: cron_horizon_def)
  from cron_search_cases [OF this, of "cron_clock lt tz" s] show thesis
  proof (elim disjE exE conjE)
    fix k assume k: "cron_search (cron_clock lt tz) s ?t (?t + cron_horizon) = ?t + 60 * int k"
      "?t + 60 * int k < ?t + cron_horizon" "?m (?t + 60 * int k)" "\<forall>j<k. \<not> ?m (?t + 60 * int j)"
    show thesis
    proof (rule hit)
      show "r \<noteq> - 1" "after < r" "60 dvd r" "r < ?t + cron_horizon" "?m r" using k r start by simp_all
      fix u :: int assume u: "60 dvd u" "after < u" "u < r"
      then obtain j :: nat where "u = ?t + 60 * int j" by (metis minute_after_start)
      with u k r show "\<not> ?m u" by simp
    qed
  next
    assume n: "cron_search (cron_clock lt tz) s ?t (?t + cron_horizon) = - 1"
      "\<forall>k::nat. ?t + 60 * int k < ?t + cron_horizon \<longrightarrow> \<not> ?m (?t + 60 * int k)"
    show thesis
    proof (rule miss)
      show "r = - 1" using n r by simp
      fix u :: int assume u: "60 dvd u" "after < u" "u < ?t + cron_horizon"
      then obtain j :: nat where "u = ?t + 60 * int j" by (metis minute_after_start)
      with u n show "\<not> ?m u" by simp
    qed
  qed
qed

section \<open>Daily schedules\<close>

lemma gmtime_at:
  assumes "h < 24" "m < 60"
  shows "tm_min (gmtime_r (86400 * d + int h * 3600 + int m * 60)) = int m"
    "tm_hour (gmtime_r (86400 * d + int h * 3600 + int m * 60)) = int h"
proof -
  have hm: "int h * 3600 + int m * 60 < 86400" "0 \<le> int h * 3600 + int m * 60" "int m * 60 < 3600"
    using assms by simp_all
  have "(86400 * d + int h * 3600 + int m * 60) mod 3600 = int m * 60"
  proof -
    have "86400 * d + int h * 3600 + int m * 60 = int m * 60 + 3600 * (24 * d + int h)" by simp
    then show ?thesis using hm by (simp only: mod_mult_self2) simp
  qed
  then show "tm_min (gmtime_r (86400 * d + int h * 3600 + int m * 60)) = int m" by simp
  have "(86400 * d + int h * 3600 + int m * 60) mod 86400 = int h * 3600 + int m * 60"
  proof -
    have "86400 * d + int h * 3600 + int m * 60 = (int h * 3600 + int m * 60) + 86400 * d" by simp
    then show ?thesis using hm by (simp only: mod_mult_self2) simp
  qed
  then have "tm_hour (gmtime_r (86400 * d + int h * 3600 + int m * 60)) = (int m * 60 + 3600 * int h) div 3600"
    by (simp add: add.commute mult.commute)
  also have "\<dots> = int h" using hm by simp
  finally show "tm_hour (gmtime_r (86400 * d + int h * 3600 + int m * 60)) = int h" .
qed

lemma int_div_obtain:
  fixes x k :: int
  assumes "0 < k"
  obtains q r where "x = k * q + r" "0 \<le> r" "r < k"
  using that [of "x div k" "x mod k"] assms by simp

lemma daily_occurrence:
  assumes "h < 24" "m < 60"
  obtains u where "60 dvd u" "after < u" "u \<le> after + 86400"
    "tm_min (gmtime_r u) = int m" "tm_hour (gmtime_r u) = int h"
proof -
  let ?o = "int h * 3600 + int m * 60"
  obtain q r where q: "after - ?o = 86400 * q + r" "0 \<le> r" "r < 86400"
    using int_div_obtain [of 86400 "after - ?o"] by auto
  then have b: "after < 86400 * (q + 1) + ?o \<and> 86400 * (q + 1) + ?o \<le> after + 86400"
    by simp
  have "86400 * (q + 1) + ?o = 60 * (1440 * (q + 1) + 60 * int h + int m)" by (simp add: algebra_simps)
  then have "60 dvd 86400 * (q + 1) + ?o" by (metis dvd_triv_left)
  with b that [of "86400 * (q + 1) + ?o"] gmtime_at [OF assms(1,2), of "q + 1"] show thesis
    by (simp only: add.assoc)
qed

lemma field_denotes_some:
  assumes "field_denotes field mn mx bm"
  obtains j where "mn \<le> j" "j \<le> mx" "bm ! j"
proof -
  from assms obtain its where its: "cron_tokens field \<noteq> []"
    "list_all2 cron_item_text its (cron_tokens field)" "list_all (item_ok mn mx) its"
    "bm = map (items_select mn mx its) [0..<Suc mx]"
    by (auto simp: field_denotes_def)
  then obtain it rest where it: "its = it # rest" by (cases its) auto
  with its have ok: "item_ok mn mx it" by simp
  then have "item_selects mn mx it (item_low mn it)" by (simp add: item_ok_def item_selects_def)
  with its it have "bm ! item_low mn it"
    using ok by (simp add: items_select_def item_ok_def del: upt_Suc)
  with ok that show thesis by (auto simp: item_ok_def)
qed

lemma schedule_parse_time:
  assumes "fpm_cron_schedule_parse expr = Inr s"
  obtains m h where "m < 60" "h < 24" "minute s ! m" "hour s ! h"
proof -
  from assms obtain x where "cron_denotes x s" by (auto simp: schedule_parse_iff split: if_splits)
  then obtain f0 f1 where f: "field_denotes f0 0 59 (minute s)" "field_denotes f1 0 23 (hour s)"
    by (auto simp: cron_denotes_def)
  from field_denotes_some [OF f(1)] obtain m where m: "m \<le> 59" "minute s ! m" .
  from field_denotes_some [OF f(2)] obtain h where "h \<le> 23" "hour s ! h" .
  with m that [of m h] show thesis by simp
qed

lemma gmtime_month: "\<exists>m. nat (tm_mon (gmtime_r t) + 1) = m \<and> 1 \<le> m \<and> m \<le> 12"
  using gmtime_in_range [of t] by (auto simp: tm_in_range_def simp del: gmtime_fields)

section \<open>A schedule for 29 February\<close>

definition leap_day_schedule :: fpm_cron_schedule_s where
  "leap_day_schedule =
     \<lparr>minute = True # replicate 59 False, hour = True # replicate 23 False,
      mday = (replicate 32 False)[29 := True], month = (replicate 13 False)[2 := True],
      wday = replicate 7 True, mday_is_star = False, wday_is_star = True\<rparr>"

lemma leap_day_schedule_parse: "fpm_cron_schedule_parse ''0 0 29 2 *'' = Inr leap_day_schedule"
  by code_simp

lemma leap_day_matches:
  assumes "tm_in_range tmv" "fpm_cron_schedule_matches leap_day_schedule tmv"
  shows "tm_mon tmv = 1 \<and> tm_mday tmv = 29"
  using assms
  by (auto simp: leap_day_schedule_def fpm_cron_schedule_matches_def tm_in_range_def nth_list_update
      split: if_splits)

lemma leap_day_doy:
  assumes "tm_mon (gmtime_r u) = 1" "tm_mday (gmtime_r u) = 29"
  shows "era_century_day (era_day u) mod 1461 = 1460"
proof -
  define doy where "doy = march_doy (era_day u)"
  define r4 where "r4 = era_century_day (era_day u) mod 1461"
  have "0 \<le> march_month doy" using march_month_day march_doy_range by (simp add: doy_def)
  then have "march_month doy = 11" using assms(1) by (simp add: doy_def split: if_splits)
  with assms(2) have "doy = 365" by (simp add: doy_def march_mday_def)
  then have eq: "r4 - min 3 (r4 div 365) * 365 = 365"
    by (simp add: doy_def march_doy_def r4_def Let_def)
  have r4: "0 \<le> r4" "r4 < 1461" by (simp_all add: r4_def)
  have "r4 div 365 > 3"
  proof (rule ccontr)
    assume "\<not> r4 div 365 > 3"
    with eq have "r4 mod 365 = 365" by (simp add: min_absorb2 minus_div_mult_eq_mod)
    moreover have "r4 mod 365 < 365" by simp
    ultimately show False by linarith
  qed
  with eq have "r4 = 1460" by simp
  then show ?thesis by (simp add: r4_def)
qed

lemma no_leap_day_match:
  assumes "4000000000 < u" "u < 4126489620"
  shows "\<not> fpm_cron_schedule_matches leap_day_schedule (gmtime_r u)"
proof
  assume "fpm_cron_schedule_matches leap_day_schedule (gmtime_r u)"
  then have leap: "era_century_day (era_day u) mod 1461 = 1460"
    using leap_day_matches [OF gmtime_in_range] leap_day_doy by blast
  obtain d r where "u = 86400 * d + r" "0 \<le> r" "r < 86400" using int_div_obtain [of 86400 u] by auto
  then have d: "u div 86400 = d" "46296 \<le> d" "d \<le> 47760" using assms by auto
  then have e: "era_day u = d - 11017"
    using mod_pos_pos_trivial [of "d - 11017" 146097] mod_mult_self2 [of "d - 11017" 146097 5]
    by (simp add: era_day_def add.commute)
  show False
  proof (cases "d < 47541")
    case True
    then have "(d - 11017) div 36524 = 0" using d by (simp add: div_pos_pos_trivial)
    then have "era_century_day (era_day u) = (d - 46081) + 1461 * 24" by (simp add: e era_century_day_def)
    then have "era_century_day (era_day u) mod 1461 = d - 46081"
      using True d by (simp only: mod_mult_self2) (simp add: mod_pos_pos_trivial)
    with leap True show False by simp
  next
    case False
    have "(d - 11017) div 36524 = 1" using d False div_add_self2 [of 36524 "d - 47541"]
      by (simp add: div_pos_pos_trivial)
    then have "era_century_day (era_day u) = d - 47541" by (simp add: e era_century_day_def)
    then have "era_century_day (era_day u) mod 1461 = d - 47541"
      using False d by (simp add: mod_pos_pos_trivial)
    with leap d show False by simp
  qed
qed

section \<open>Properties\<close>

text \<open>
  C15. The parser accepts exactly the crontab grammar and computes what it
  denotes: an expression is one of the five shorthands or five blank-separated
  fields within the buffer limits, each field a comma-separated list of items
  within the field's domain, and the bitmaps hold the union of what the items
  select, with day 7 folded into day 0.
\<close>

theorem cron_parse_exact:
  "fpm_cron_schedule_parse expr = Inr s \<longleftrightarrow>
     expr \<noteq> [] \<and>
     (if hd expr = CHR ''@''
      then \<exists>x. map_of fpm_cron_shorthands expr = Some x \<and> cron_denotes x s
      else cron_denotes expr s)"
  by (rule schedule_parse_iff)

text \<open>
  C1. The next run is the earliest full minute strictly after the given time
  that matches the schedule within the search horizon, -1 exactly when there is
  none, and the process's time zone variable is left as it was.
\<close>

theorem cron_next_first:
  assumes "0 \<le> after"
  shows "fpm_cron_schedule_next lt s after tz env = (r, env') \<longleftrightarrow>
    env' = env \<and>
    (if r = - 1
     then \<forall>u. 60 dvd u \<and> after < u \<and> u < cron_start after + cron_horizon \<longrightarrow>
            \<not> fpm_cron_schedule_matches s (cron_clock lt tz u)
     else 60 dvd r \<and> after < r \<and> r < cron_start after + cron_horizon \<and>
          fpm_cron_schedule_matches s (cron_clock lt tz r) \<and>
          (\<forall>u. 60 dvd u \<and> after < u \<and> u < r \<longrightarrow> \<not> fpm_cron_schedule_matches s (cron_clock lt tz u)))"
  (is "?lhs r env' \<longleftrightarrow> ?rhs r env'")
proof -
  obtain r0 where r0: "fpm_cron_schedule_next lt s after tz env = (r0, env)"
    using schedule_next_search [OF assms] by blast
  from assms r0 show ?thesis
  proof (cases rule: schedule_next_cases)
    case hit
    show ?thesis
    proof
      assume "fpm_cron_schedule_next lt s after tz env = (r, env')"
      with r0 have "r = r0" "env' = env" by simp_all
      with hit show "?rhs r env'" by simp
    next
      assume rhs: "?rhs r env'"
      then have "r = r0"
        using hit(1-5) hit(6) [of r] by (metis linorder_neqE)
      with r0 rhs show "fpm_cron_schedule_next lt s after tz env = (r, env')" by simp
    qed
  next
    case miss
    show ?thesis
    proof
      assume "fpm_cron_schedule_next lt s after tz env = (r, env')"
      with r0 have "r = r0" "env' = env" by simp_all
      with miss show "?rhs r env'" by simp
    next
      assume rhs: "?rhs r env'"
      then have "r = r0" using miss by metis
      with r0 rhs show "fpm_cron_schedule_next lt s after tz env = (r, env')" by simp
    qed
  qed
qed

theorem cron_next_first_witness:
  "\<exists>s. fpm_cron_schedule_parse ''* * * * *'' = Inr s \<and>
       fpm_cron_schedule_next (\<lambda>_. gmtime_r) s 61 None None = (120, None)"
proof -
  let ?s = "\<lparr>minute = replicate 60 True, hour = replicate 24 True, mday = False # replicate 31 True,
       month = False # replicate 12 True, wday = replicate 7 True,
       mday_is_star = True, wday_is_star = True\<rparr>"
  have "fpm_cron_schedule_matches ?s (gmtime_r 120)" by code_simp
  moreover have "120 < cron_start 61 + cron_horizon" by (simp add: cron_start_def cron_horizon_def)
  ultimately have "fpm_cron_schedule_next (\<lambda>_. gmtime_r) ?s 61 None None = (120, None)"
    by (subst cron_next_first) (auto simp: cron_clock_def)
  moreover have "fpm_cron_schedule_parse ''* * * * *'' = Inr ?s" by code_simp
  ultimately show ?thesis by blast
qed






text \<open>
  C21. The search horizon of four years is too short for a schedule that does
  occur: no year between 2097 and 2103 has a 29 February, so asking in October
  2096 for the next run of \<open>0 0 29 2 *\<close> answers -1 although it matches in 2104.
\<close>

theorem cron_next_misses_leap_day:
  "fpm_cron_schedule_parse ''0 0 29 2 *'' = Inr leap_day_schedule \<and>
   fpm_cron_schedule_next lt leap_day_schedule 4000000000 None env = (- 1, env) \<and>
   fpm_cron_schedule_matches leap_day_schedule (gmtime_r 4233686400)"
proof (intro conjI)
  show "fpm_cron_schedule_parse ''0 0 29 2 *'' = Inr leap_day_schedule" by (rule leap_day_schedule_parse)
  show "fpm_cron_schedule_matches leap_day_schedule (gmtime_r 4233686400)" by code_simp
  obtain r where r: "fpm_cron_schedule_next lt leap_day_schedule 4000000000 None env = (r, env)"
    using schedule_next_search [of 4000000000] by simp
  have limit: "cron_start 4000000000 + cron_horizon = 4126489620"
    by (simp add: cron_start_def cron_horizon_def)
  have "r = - 1"
  proof (rule schedule_next_cases [OF _ r])
    assume "4000000000 < r" "r < cron_start 4000000000 + cron_horizon"
      "fpm_cron_schedule_matches leap_day_schedule (cron_clock lt None r)"
    then show ?thesis using no_leap_day_match [of r] by (simp add: limit cron_clock_def del: gmtime_fields)
  qed simp_all
  with r show "fpm_cron_schedule_next lt leap_day_schedule 4000000000 None env = (- 1, env)" by simp
qed

end
