(* ===== verification/Crash_Backoff.thy ===== *)
theory Crash_Backoff
  imports Prelude "HOL-Library.Word"
begin

text \<open>
  Crash backoff of one pool (\<open>fpm_crash_backoff.c\<close>): the streak counter and the
  give-up flag the operator pages read, the respawn delay, and the gate that
  \<open>fpm_children_make()\<close> asks before a fork. The functions here take the clock
  readings as arguments; theory Children reads the clock and performs the calls
  to \<open>fpm_children_make()\<close>. A pool's \<open>unsigned\<close> and \<open>unsigned long\<close> counters are
  32- and 64-bit words.
\<close>

unbundle bit_operations_syntax

definition FPM_CRASH_BACKOFF_CAP_MS :: "64 word" where
  "FPM_CRASH_BACKOFF_CAP_MS = 60000"

definition FPM_CRASH_BACKOFF_WINDOW_S :: int where
  "FPM_CRASH_BACKOFF_WINDOW_S = 10"

record fpm_crash_backoff_shared_s =
  consecutive_failures :: "32 word"
  gave_up :: bool
  respawn_delay_ms :: "64 word"

record fpm_crash_backoff_entry_s =
  shared :: fpm_crash_backoff_shared_s
  next_spawn :: timeval
  gate_due :: timeval
  gate_armed :: bool
  survive_armed :: bool
  watch_pid :: int
  watch_started :: timeval

text \<open>\<open>calloc\<close> and \<open>fpm_shm_alloc\<close> give zero-filled memory.\<close>

definition crash_backoff_entry0 :: fpm_crash_backoff_entry_s where
  "crash_backoff_entry0 =
     \<lparr>shared = \<lparr>consecutive_failures = 0, gave_up = False, respawn_delay_ms = 0\<rparr>,
      next_spawn = timerclear, gate_due = timerclear, gate_armed = False,
      survive_armed = False, watch_pid = 0, watch_started = timerclear\<rparr>"

definition splitmix64 :: "64 word \<Rightarrow> 64 word" where
  "splitmix64 x0 =
     (let x = x0 + 0x9e3779b97f4a7c15;
          x = (x XOR drop_bit 30 x) * 0xbf58476d1ce4e5b9;
          x = (x XOR drop_bit 27 x) * 0x94d049bb133111eb
      in x XOR drop_bit 31 x)"

definition fpm_crash_backoff_jitter :: "timeval \<Rightarrow> int \<Rightarrow> 64 word \<Rightarrow> 64 word" where
  "fpm_crash_backoff_jitter now pid mx =
     (if mx = 0 then 0
      else splitmix64 (push_bit 32 (word_of_int (tv_sec now)) XOR word_of_int (tv_usec now)
             XOR push_bit 48 (word_of_int pid)) mod (mx + 1))"

definition fpm_crash_backoff_delay_ms :: "timeval \<Rightarrow> int \<Rightarrow> 32 word \<Rightarrow> bool \<Rightarrow> 64 word" where
  "fpm_crash_backoff_delay_ms now pid failures gave =
     (if \<not> gave \<and> failures < 2 then 0
      else let window =
             (if gave then FPM_CRASH_BACKOFF_CAP_MS
              else let shift = failures - 2;
                       shift = (if shift > 6 then 6 else shift);
                       window = push_bit (unat shift) 1000
                   in if window > FPM_CRASH_BACKOFF_CAP_MS then FPM_CRASH_BACKOFF_CAP_MS else window)
           in window div 2 + fpm_crash_backoff_jitter now pid (window - window div 2))"

definition fpm_crash_backoff_clear :: "fpm_crash_backoff_entry_s \<Rightarrow> fpm_crash_backoff_entry_s" where
  "fpm_crash_backoff_clear e =
     e\<lparr>shared := \<lparr>consecutive_failures = 0, gave_up = False, respawn_delay_ms = 0\<rparr>,
       next_spawn := timerclear\<rparr>"

text \<open>
  A child of the pool exited while the master is in the normal state: \<open>now\<close> is the
  clock at the exit, \<open>jnow\<close> the reading the jitter takes, \<open>requests\<close> the request
  count of its scoreboard slot, \<open>mx\<close> the configured
  \<open>pm.max_consecutive_failures\<close>.
\<close>

definition crash_backoff_exit ::
  "timeval \<Rightarrow> timeval \<Rightarrow> int \<Rightarrow> int \<Rightarrow> nat \<Rightarrow> timeval \<Rightarrow>
   fpm_crash_backoff_entry_s \<Rightarrow> fpm_crash_backoff_entry_s" where
  "crash_backoff_exit now jnow pid mx requests started e =
     (let life = timersub now started in
      if requests > 0 \<or> tv_sec life \<ge> FPM_CRASH_BACKOFF_WINDOW_S then fpm_crash_backoff_clear e
      else
        (let failures = consecutive_failures (shared e) + 1;
             gave = (gave_up (shared e) \<or> (mx > 0 \<and> failures \<ge> word_of_int mx));
             delay_ms = fpm_crash_backoff_delay_ms jnow pid failures gave;
             delta = \<lparr>tv_sec = uint (delay_ms div 1000), tv_usec = uint (delay_ms mod 1000 * 1000)\<rparr>
         in e\<lparr>shared := \<lparr>consecutive_failures = failures, gave_up = gave, respawn_delay_ms = delay_ms\<rparr>,
              next_spawn := timeradd now delta\<rparr>))"

text \<open>
  The gate: whether the fork may happen, the entry after it, and the delay in
  milliseconds the gate timer is (re)armed with, if it is.
\<close>

definition crash_backoff_gate ::
  "timeval \<Rightarrow> fpm_crash_backoff_entry_s \<Rightarrow> bool \<times> fpm_crash_backoff_entry_s \<times> int option" where
  "crash_backoff_gate now e =
     (if \<not> timerisset (next_spawn e) then (True, e, None)
      else if \<not> timer_lt now (next_spawn e) then (True, e\<lparr>next_spawn := timerclear\<rparr>, None)
      else
        (let left = timersub (next_spawn e) now;
             ms = tv_sec left * 1000 + (tv_usec left + 999) div 1000
         in if \<not> gate_armed e \<or> timer_lt (next_spawn e) (gate_due e)
            then (False, e\<lparr>gate_due := next_spawn e, gate_armed := True\<rparr>, Some ms)
            else (False, e, None)))"

text \<open>A fork succeeded; the flag says whether the survive timer is armed.\<close>

definition crash_backoff_spawned ::
  "int \<Rightarrow> timeval \<Rightarrow> fpm_crash_backoff_entry_s \<Rightarrow> fpm_crash_backoff_entry_s \<times> bool" where
  "crash_backoff_spawned pid started e =
     (let e = e\<lparr>shared := (shared e)\<lparr>respawn_delay_ms := 0\<rparr>\<rparr> in
      if consecutive_failures (shared e) = 0 then (e, False)
      else (e\<lparr>watch_pid := pid, watch_started := started, survive_armed := True\<rparr>, True))"

text \<open>
  The timer callbacks up to their call of \<open>fpm_children_make()\<close>: the survive timer
  learns whether the watched child is still the same live child of this pool.
\<close>

definition crash_backoff_gate_fired :: "fpm_crash_backoff_entry_s \<Rightarrow> fpm_crash_backoff_entry_s" where
  "crash_backoff_gate_fired e = e\<lparr>gate_armed := False\<rparr>"

definition crash_backoff_survived ::
  "bool \<Rightarrow> fpm_crash_backoff_entry_s \<Rightarrow> fpm_crash_backoff_entry_s \<times> bool" where
  "crash_backoff_survived same_child e =
     (let e = e\<lparr>survive_armed := False\<rparr> in
      if consecutive_failures (shared e) = 0 then (e, False)
      else if \<not> same_child then (e, False)
      else (fpm_crash_backoff_clear e, True))"

section \<open>The operator pages\<close>

record fpm_crash_backoff_snapshot_s =
  has_state :: bool
  snap_failures :: "32 word"
  snap_gave_up :: bool
  snap_delay :: "64 word"

definition fpm_crash_backoff_read :: "fpm_crash_backoff_entry_s option \<Rightarrow> fpm_crash_backoff_snapshot_s" where
  "fpm_crash_backoff_read eo =
     (case eo of
        None \<Rightarrow> \<lparr>has_state = False, snap_failures = 0, snap_gave_up = False, snap_delay = 0\<rparr>
      | Some e \<Rightarrow> \<lparr>has_state = True, snap_failures = consecutive_failures (shared e),
                   snap_gave_up = gave_up (shared e), snap_delay = respawn_delay_ms (shared e)\<rparr>)"

definition fpm_crash_backoff_render_prometheus :: "string \<Rightarrow> fpm_crash_backoff_snapshot_s \<Rightarrow> string" where
  "fpm_crash_backoff_render_prometheus pool snap =
     (if \<not> has_state snap then []
      else ''fpmng_pool_consecutive_crashes{pool='' @ [CHR 0x22] @ pool @ [CHR 0x22] @ ''} ''
             @ dec (unat (snap_failures snap)) @ [CHR 0x0A]
         @ ''fpmng_pool_crash_gave_up{pool='' @ [CHR 0x22] @ pool @ [CHR 0x22] @ ''} ''
             @ (if snap_gave_up snap then ''1'' else ''0'') @ [CHR 0x0A]
         @ ''fpmng_pool_respawn_delay_ms{pool='' @ [CHR 0x22] @ pool @ [CHR 0x22] @ ''} ''
             @ dec (unat (snap_delay snap)) @ [CHR 0x0A])"

definition json_key :: "string \<Rightarrow> string" where
  "json_key k = '','' @ [CHR 0x22] @ k @ [CHR 0x22] @ '':''"

definition fpm_crash_backoff_render_json :: "fpm_crash_backoff_snapshot_s \<Rightarrow> string" where
  "fpm_crash_backoff_render_json snap =
     (if \<not> has_state snap then []
      else json_key ''consecutive_crashes'' @ dec (unat (snap_failures snap))
         @ json_key ''crash_gave_up'' @ (if snap_gave_up snap then ''true'' else ''false'')
         @ json_key ''respawn_delay_ms'' @ dec (unat (snap_delay snap)))"

section \<open>The delay\<close>

text \<open>The window in milliseconds as the documentation states it: doubling from 1 s to the cap.\<close>

definition backoff_window :: "nat \<Rightarrow> bool \<Rightarrow> nat" where
  "backoff_window failures gave =
     (if gave then 60000 else if failures < 2 then 0 else min 60000 (1000 * 2 ^ (failures - 2)))"

lemma jitter_le:
  assumes "unat mx < 2 ^ 64 - 1"
  shows "unat (fpm_crash_backoff_jitter now pid mx) \<le> unat mx"
proof (cases "mx = 0")
  case False
  have succ: "unat (mx + 1) = unat mx + 1"
    using assms by (simp add: unat_word_ariths)
  have "unat (x mod (mx + 1)) \<le> unat mx" for x :: "64 word"
    unfolding unat_mod succ using mod_less_divisor [of "unat mx + 1" "unat x"] by simp
  then show ?thesis using False by (simp add: fpm_crash_backoff_jitter_def)
qed (simp add: fpm_crash_backoff_jitter_def)

text \<open>The window the code computes with a saturated shift on words.\<close>

definition window_word :: "32 word \<Rightarrow> bool \<Rightarrow> 64 word" where
  "window_word failures gave =
     (if gave then FPM_CRASH_BACKOFF_CAP_MS
      else let shift = failures - 2;
               shift = (if shift > 6 then 6 else shift);
               window = push_bit (unat shift) 1000
           in if window > FPM_CRASH_BACKOFF_CAP_MS then FPM_CRASH_BACKOFF_CAP_MS else window)"

lemma delay_window:
  "\<not> (\<not> gave \<and> failures < 2) \<Longrightarrow>
   fpm_crash_backoff_delay_ms now pid failures gave =
     window_word failures gave div 2 +
     fpm_crash_backoff_jitter now pid (window_word failures gave - window_word failures gave div 2)"
  unfolding fpm_crash_backoff_delay_ms_def window_word_def by (simp only: Let_def if_False simp_thms)

lemma window_word_cases:
  assumes "\<not> gave" "\<not> failures < 2"
  shows "window_word failures gave \<in> {1000, 2000, 4000, 8000, 16000, 32000, 60000}
    \<and> unat (window_word failures gave) = min 60000 (1000 * 2 ^ (unat failures - 2))"
proof -
  have sh: "unat (failures - 2) = unat failures - 2"
    using assms(2) by (simp add: unat_sub not_less)
  show ?thesis
  proof (cases "failures - 2 > 6")
    case True
    then have "6 < unat failures - 2" using sh by (simp add: word_less_nat_alt)
    then have "(2 :: nat) ^ 6 \<le> 2 ^ (unat failures - 2)" by (intro power_increasing) simp_all
    then show ?thesis using True assms
      by (simp add: window_word_def FPM_CRASH_BACKOFF_CAP_MS_def)
  next
    case False
    then have "unat failures - 2 \<le> 6" using sh by (simp add: word_less_nat_alt not_less word_le_nat_alt)
    then have "unat failures - 2 \<in> {0, 1, 2, 3, 4, 5, 6}" by auto
    then show ?thesis using False assms sh
      by (auto simp: window_word_def FPM_CRASH_BACKOFF_CAP_MS_def push_bit_eq_mult)
  qed
qed

lemma window_word_value:
  "\<not> (\<not> gave \<and> failures < 2) \<Longrightarrow>
   unat (window_word failures gave) = backoff_window (unat failures) gave \<and>
   unat (window_word failures gave) \<le> 60000"
  using window_word_cases [of gave failures]
  by (cases gave) (auto simp: backoff_window_def window_word_def FPM_CRASH_BACKOFF_CAP_MS_def
      word_less_nat_alt)

lemma delay_bounds:
  "backoff_window (unat failures) gave div 2 \<le> unat (fpm_crash_backoff_delay_ms now pid failures gave) \<and>
   unat (fpm_crash_backoff_delay_ms now pid failures gave) \<le> backoff_window (unat failures) gave"
proof (cases "\<not> gave \<and> failures < 2")
  case True
  then have "unat failures < 2" by (simp add: word_less_nat_alt)
  with True show ?thesis by (simp add: fpm_crash_backoff_delay_ms_def backoff_window_def)
next
  case False
  let ?w = "window_word failures gave"
  have w: "unat ?w = backoff_window (unat failures) gave" "unat ?w \<le> 60000"
    using window_word_value [OF False] by auto
  have half: "unat (?w div 2) = unat ?w div 2" by (simp add: unat_div)
  have rest: "unat (?w - ?w div 2) = unat ?w - unat ?w div 2"
    by (subst unat_sub) (simp_all add: word_le_nat_alt half)
  have j: "unat (fpm_crash_backoff_jitter now pid (?w - ?w div 2)) \<le> unat ?w - unat ?w div 2"
    using jitter_le [of "?w - ?w div 2" now pid] rest w by simp
  have "unat (?w div 2 + fpm_crash_backoff_jitter now pid (?w - ?w div 2)) =
      unat ?w div 2 + unat (fpm_crash_backoff_jitter now pid (?w - ?w div 2))"
    using j w half by (subst unat_add_lem [THEN iffD1]) simp_all
  with j w delay_window [OF False, of now pid] show ?thesis by simp
qed

section \<open>The streak\<close>

text \<open>What happens to one pool's entry, and the streak as the rules in the header define it.\<close>

datatype backoff_event =
    Exited timeval timeval int nat timeval
  | Asked timeval
  | Spawned int timeval
  | Gate_Fired
  | Survive_Fired bool

primrec backoff_step :: "int \<Rightarrow> backoff_event \<Rightarrow> fpm_crash_backoff_entry_s \<Rightarrow> fpm_crash_backoff_entry_s" where
  "backoff_step mx (Exited now jnow pid requests started) e =
     crash_backoff_exit now jnow pid mx requests started e"
| "backoff_step mx (Asked now) e = fst (snd (crash_backoff_gate now e))"
| "backoff_step mx (Spawned pid started) e = fst (crash_backoff_spawned pid started e)"
| "backoff_step mx Gate_Fired e = crash_backoff_gate_fired e"
| "backoff_step mx (Survive_Fired same) e = fst (crash_backoff_survived same e)"

primrec streak_step :: "backoff_event \<Rightarrow> nat \<Rightarrow> nat" where
  "streak_step (Exited now jnow pid requests started) n =
     (if requests = 0 \<and> usecs now - usecs started < 10 * 1000000 then n + 1 else 0)"
| "streak_step (Asked now) n = n"
| "streak_step (Spawned pid started) n = n"
| "streak_step Gate_Fired n = n"
| "streak_step (Survive_Fired same) n = (if same then 0 else n)"

primrec event_ok :: "backoff_event \<Rightarrow> bool" where
  "event_ok (Exited now jnow pid requests started) = (tv_ok now \<and> tv_ok jnow \<and> tv_ok started)"
| "event_ok (Asked now) = tv_ok now"
| "event_ok (Spawned pid started) = tv_ok started"
| "event_ok Gate_Fired = True"
| "event_ok (Survive_Fired same) = True"

definition streak_rel :: "int \<Rightarrow> nat \<Rightarrow> fpm_crash_backoff_entry_s \<Rightarrow> bool" where
  "streak_rel mx n e \<longleftrightarrow>
     unat (consecutive_failures (shared e)) = n \<and> (gave_up (shared e) \<longleftrightarrow> mx > 0 \<and> mx \<le> int n)"

lemma life_short:
  assumes "tv_ok now" "tv_ok started"
  shows "tv_sec (timersub now started) < 10 \<longleftrightarrow> usecs now - usecs started < 10 * 1000000"
  using assms by (auto simp: timersub_def tv_ok_def usecs_def Let_def)

lemma streak_rel_step:
  assumes "streak_rel mx n e" "event_ok ev" "n + 1 < 2 ^ 32" "mx < 2 ^ 31"
  shows "streak_rel mx (streak_step ev n) (backoff_step mx ev e)"
proof (cases ev)
  case (Exited now jnow pid requests started)
  have succ: "unat (consecutive_failures (shared e) + 1) = n + 1"
    using assms(1,3) by (simp add: streak_rel_def unat_word_ariths)
  have le: "word_of_int mx \<le> consecutive_failures (shared e) + 1 \<longleftrightarrow> mx \<le> int (n + 1)" if "mx > 0"
  proof -
    have "unat (word_of_int mx :: 32 word) = nat mx"
      using that assms(4) by (simp add: unsigned_of_int take_bit_int_eq_self)
    then show ?thesis using that succ by (simp add: word_le_nat_alt nat_le_iff)
  qed
  show ?thesis
  proof (cases "requests = 0 \<and> usecs now - usecs started < 10 * 1000000")
    case True
    then have "\<not> (requests > 0 \<or> tv_sec (timersub now started) \<ge> FPM_CRASH_BACKOFF_WINDOW_S)"
      using life_short [of now started] assms(2) Exited by (simp add: FPM_CRASH_BACKOFF_WINDOW_S_def)
    then show ?thesis using assms(1) succ le True Exited
      by (auto simp: crash_backoff_exit_def Let_def streak_rel_def)
  next
    case False
    then have "requests > 0 \<or> tv_sec (timersub now started) \<ge> FPM_CRASH_BACKOFF_WINDOW_S"
      using life_short [of now started] assms(2) Exited by (auto simp: FPM_CRASH_BACKOFF_WINDOW_S_def)
    then show ?thesis using False Exited
      by (auto simp: crash_backoff_exit_def Let_def streak_rel_def fpm_crash_backoff_clear_def)
  qed
next
  case (Asked now)
  then show ?thesis using assms(1) by (auto simp: crash_backoff_gate_def Let_def streak_rel_def)
next
  case (Spawned pid started)
  then show ?thesis using assms(1) by (auto simp: crash_backoff_spawned_def Let_def streak_rel_def)
next
  case Gate_Fired
  then show ?thesis using assms(1) by (simp add: crash_backoff_gate_fired_def streak_rel_def)
next
  case (Survive_Fired same)
  then show ?thesis using assms(1)
    by (auto simp: crash_backoff_survived_def Let_def streak_rel_def fpm_crash_backoff_clear_def unat_eq_zero)
qed

lemma streak_step_le: "streak_step ev n \<le> n + 1"
  by (cases ev) simp_all

definition backoff_run :: "int \<Rightarrow> backoff_event list \<Rightarrow> fpm_crash_backoff_entry_s" where
  "backoff_run mx evs = foldl (\<lambda>e ev. backoff_step mx ev e) crash_backoff_entry0 evs"

definition streak :: "backoff_event list \<Rightarrow> nat" where
  "streak evs = foldl (\<lambda>n ev. streak_step ev n) 0 evs"

lemma streak_rel_run:
  assumes "streak_rel mx n e" "list_all event_ok evs" "n + length evs < 2 ^ 32" "mx < 2 ^ 31"
  shows "streak_rel mx (foldl (\<lambda>n ev. streak_step ev n) n evs) (foldl (\<lambda>e ev. backoff_step mx ev e) e evs)"
  using assms
proof (induction evs arbitrary: n e)
  case (Cons ev evs)
  have "streak_rel mx (streak_step ev n) (backoff_step mx ev e)"
    using Cons.prems by (intro streak_rel_step) simp_all
  moreover have "streak_step ev n + length evs < 2 ^ 32"
    using Cons.prems(3) streak_step_le [of ev n] by simp
  ultimately show ?case using Cons.IH Cons.prems by simp
qed simp

section \<open>The gate\<close>

lemma gate_timer_round_up:
  assumes "tv_ok now" "tv_ok (next_spawn e)" "crash_backoff_gate now e = (ok, e', Some ms)"
  shows "usecs (next_spawn e) \<le> usecs now + ms * 1000 \<and> usecs now + ms * 1000 < usecs (next_spawn e) + 1000"
proof -
  define left where "left = timersub (next_spawn e) now"
  have ms: "ms = tv_sec left * 1000 + (tv_usec left + 999) div 1000"
    using assms(3) by (auto simp: crash_backoff_gate_def Let_def left_def split: if_splits)
  have "usecs left = usecs (next_spawn e) - usecs now" unfolding left_def using assms by (simp add: usecs_sub)
  then have d: "usecs (next_spawn e) = usecs now + tv_sec left * 1000000 + tv_usec left"
    by (simp add: usecs_def)
  have "1000 * ((tv_usec left + 999) div 1000) \<ge> tv_usec left"
    "1000 * ((tv_usec left + 999) div 1000) < tv_usec left + 1000"
    by linarith+
  then show ?thesis unfolding ms d by simp
qed

lemma delay_le_cap: "unat (fpm_crash_backoff_delay_ms now pid failures gave) \<le> 60000"
  using delay_bounds [of failures gave now pid]
  by (auto simp: backoff_window_def split: if_splits)

lemma uint_unat: "uint w = int (unat w)"
  by transfer simp

text \<open>The conversion of a delay to a \<open>struct timeval\<close>.\<close>

lemma delay_timeval:
  fixes d :: "64 word"
  assumes "unat d \<le> 60000"
  shows "tv_ok \<lparr>tv_sec = uint (d div 1000), tv_usec = uint (d mod 1000 * 1000)\<rparr> \<and>
    usecs \<lparr>tv_sec = uint (d div 1000), tv_usec = uint (d mod 1000 * 1000)\<rparr> \<le> 60000 * 1000"
proof -
  obtain n where n: "unat d = n" "n \<le> 60000" using assms by simp
  have div: "uint (d div 1000) = int (n div 1000)" using n by (simp add: uint_unat unat_div)
  have "unat (d mod 1000 * 1000) = n mod 1000 * 1000"
    using n mod_less_divisor [of 1000 n] by (simp add: unat_word_ariths(2) unat_mod)
  then have m: "uint (d mod 1000 * 1000) = int (n mod 1000 * 1000)" by (simp only: uint_unat)
  have "int (n div 1000) * 1000 + int (n mod 1000) = int n"
    by (metis div_mult_mod_eq of_nat_add of_nat_mult of_nat_numeral)
  moreover have "n mod 1000 < 1000" by simp
  ultimately show ?thesis unfolding tv_ok_def usecs_def using div m n(2) by simp
qed

definition backoff_inv :: "fpm_crash_backoff_entry_s \<Rightarrow> bool" where
  "backoff_inv e \<longleftrightarrow> tv_ok (next_spawn e) \<and> tv_ok (gate_due e) \<and>
     unat (respawn_delay_ms (shared e)) \<le> 60000"

lemma exit_next_spawn:
  assumes "tv_ok now" "backoff_inv e"
  shows "backoff_inv (crash_backoff_exit now jnow pid mx requests started e) \<and>
    usecs (next_spawn (crash_backoff_exit now jnow pid mx requests started e)) \<le> max 0 (usecs now + 60000 * 1000)"
proof (cases "requests > 0 \<or> tv_sec (timersub now started) \<ge> FPM_CRASH_BACKOFF_WINDOW_S")
  case True
  then show ?thesis using assms
    by (simp add: crash_backoff_exit_def fpm_crash_backoff_clear_def backoff_inv_def Let_def
        usecs_def timerclear_def tv_ok_def)
next
  case False
  define d where "d = respawn_delay_ms (shared (crash_backoff_exit now jnow pid mx requests started e))"
  have d: "unat d \<le> 60000"
    "next_spawn (crash_backoff_exit now jnow pid mx requests started e) =
       timeradd now \<lparr>tv_sec = uint (d div 1000), tv_usec = uint (d mod 1000 * 1000)\<rparr>"
    "gate_due (crash_backoff_exit now jnow pid mx requests started e) = gate_due e"
    using False delay_le_cap by (simp_all add: crash_backoff_exit_def Let_def d_def)
  with assms delay_timeval [OF d(1)] show ?thesis
    by (simp add: backoff_inv_def tv_ok_add d_def [symmetric] le_max_iff_disj)
qed

lemma gate_inv:
  assumes "backoff_inv e" shows "backoff_inv (fst (snd (crash_backoff_gate now e)))"
  using assms by (auto simp: crash_backoff_gate_def backoff_inv_def Let_def)

lemma backoff_step_inv: "backoff_inv e \<Longrightarrow> event_ok ev \<Longrightarrow> backoff_inv (backoff_step mx ev e)"
proof (cases ev)
  case (Exited now jnow pid requests started)
  then show "backoff_inv e \<Longrightarrow> event_ok ev \<Longrightarrow> ?thesis" using exit_next_spawn by auto
next
  case (Asked now)
  then show "backoff_inv e \<Longrightarrow> event_ok ev \<Longrightarrow> ?thesis" using gate_inv by simp
qed (auto simp: crash_backoff_spawned_def crash_backoff_gate_fired_def
    crash_backoff_survived_def fpm_crash_backoff_clear_def backoff_inv_def Let_def)

interpretation backoff: machine "\<lambda>e ev. backoff_step mx ev e" event_ok backoff_inv for mx
  by unfold_locales (rule backoff_step_inv)

lemma backoff_inv_init: "backoff_inv crash_backoff_entry0"
  by (simp add: backoff_inv_def crash_backoff_entry0_def)

section \<open>Properties\<close>

text \<open>
  C17. The respawn delay lies in the upper half of a window that is 0 for the
  first failure, doubles from one second with every further one up to the cap of
  60 seconds, and is the cap once the pool gave up.
\<close>

theorem crash_delay_in_window:
  "backoff_window (unat failures) gave div 2 \<le> unat (fpm_crash_backoff_delay_ms now pid failures gave) \<and>
   unat (fpm_crash_backoff_delay_ms now pid failures gave) \<le> backoff_window (unat failures) gave"
  by (rule delay_bounds)

text \<open>
  C2. The streak counter counts the fast failures since the last healthy child:
  over any sequence of exits, gate checks, forks and timer callbacks it equals
  the number of exits in a row within ten seconds and without a request, and the
  pool has given up exactly when that number reached the configured maximum.
\<close>

theorem crash_streak_refines:
  assumes "list_all event_ok evs" "length evs < 2 ^ 32" "mx < 2 ^ 31"
  shows "unat (consecutive_failures (shared (backoff_run mx evs))) = streak evs \<and>
     (gave_up (shared (backoff_run mx evs)) \<longleftrightarrow> mx > 0 \<and> mx \<le> int (streak evs))"
proof -
  have "streak_rel mx 0 crash_backoff_entry0" by (simp add: streak_rel_def crash_backoff_entry0_def)
  from streak_rel_run [OF this assms(1) _ assms(3)] assms(2) show ?thesis
    by (simp add: streak_rel_def streak_def backoff_run_def)
qed

theorem crash_streak_refines_witness:
  "gave_up (shared (backoff_run 2
     [Exited \<lparr>tv_sec = 5, tv_usec = 0\<rparr> \<lparr>tv_sec = 5, tv_usec = 1\<rparr> 1 0 \<lparr>tv_sec = 4, tv_usec = 0\<rparr>,
      Spawned 77 \<lparr>tv_sec = 6, tv_usec = 0\<rparr>,
      Exited \<lparr>tv_sec = 15, tv_usec = 999999\<rparr> \<lparr>tv_sec = 16, tv_usec = 1\<rparr> 1 0 \<lparr>tv_sec = 6, tv_usec = 0\<rparr>]))"
  using crash_streak_refines [of
     "[Exited \<lparr>tv_sec = 5, tv_usec = 0\<rparr> \<lparr>tv_sec = 5, tv_usec = 1\<rparr> 1 0 \<lparr>tv_sec = 4, tv_usec = 0\<rparr>,
      Spawned 77 \<lparr>tv_sec = 6, tv_usec = 0\<rparr>,
      Exited \<lparr>tv_sec = 15, tv_usec = 999999\<rparr> \<lparr>tv_sec = 16, tv_usec = 1\<rparr> 1 0 \<lparr>tv_sec = 6, tv_usec = 0\<rparr>]" 2]
  by (simp add: tv_ok_def usecs_def streak_def)

text \<open>
  C16. In every state a pool can reach, the gate lets a fork through exactly when
  no wait is set or its time has come. When it refuses, the gate timer is armed
  for a time no later than the wait's end, and a timer armed by this call expires
  at or after the end of the wait and less than a millisecond after it.
\<close>

theorem crash_gate_exact:
  assumes "list_all event_ok evs" "tv_ok now"
    and "crash_backoff_gate now (backoff_run mx evs) = (ok, e', t)"
  shows "(ok \<longleftrightarrow> \<not> timerisset (next_spawn (backoff_run mx evs)) \<or>
            usecs (next_spawn (backoff_run mx evs)) \<le> usecs now) \<and>
    (\<not> ok \<longrightarrow> gate_armed e' \<and> usecs (gate_due e') \<le> usecs (next_spawn e')) \<and>
    (\<forall>ms. t = Some ms \<longrightarrow> usecs (next_spawn e') \<le> usecs now + ms * 1000 \<and>
        usecs now + ms * 1000 < usecs (next_spawn e') + 1000)"
proof -
  let ?e = "backoff_run mx evs"
  have "backoff_inv ?e"
    unfolding backoff_run_def by (rule backoff.run_inv [OF backoff_inv_init assms(1)])
  then have ok: "tv_ok (next_spawn ?e)" "tv_ok (gate_due ?e)" by (simp_all add: backoff_inv_def)
  have "ok \<longleftrightarrow> \<not> timerisset (next_spawn ?e) \<or> usecs (next_spawn ?e) \<le> usecs now"
    "\<not> ok \<longrightarrow> gate_armed e' \<and> usecs (gate_due e') \<le> usecs (next_spawn e')"
    "t \<noteq> None \<longrightarrow> next_spawn e' = next_spawn ?e"
    using assms(3) ok assms(2)
    by (auto simp: crash_backoff_gate_def Let_def timer_lt_usecs split: if_splits)
  with gate_timer_round_up [OF assms(2) ok(1)] assms(3) show ?thesis by auto
qed

theorem crash_gate_exact_witness:
  "\<exists>e'. crash_backoff_gate \<lparr>tv_sec = 4, tv_usec = 999500\<rparr>
     (backoff_run 0 [Exited \<lparr>tv_sec = 5, tv_usec = 0\<rparr> \<lparr>tv_sec = 5, tv_usec = 0\<rparr> 1 0 \<lparr>tv_sec = 3, tv_usec = 0\<rparr>]) =
     (False, e', Some 1) \<and> gate_armed e'"
proof -
  let ?evs = "[Exited \<lparr>tv_sec = 5, tv_usec = 0\<rparr> \<lparr>tv_sec = 5, tv_usec = 0\<rparr> 1 0 \<lparr>tv_sec = 3, tv_usec = 0\<rparr>]"
  have "list_all event_ok ?evs" "tv_ok \<lparr>tv_sec = 4, tv_usec = 999500\<rparr>" by (simp_all add: tv_ok_def)
  note gate = crash_gate_exact [OF this]
  have "(\<lambda>(ok, e', t). (ok, t)) (crash_backoff_gate \<lparr>tv_sec = 4, tv_usec = 999500\<rparr> (backoff_run 0 ?evs)) =
      (False, Some 1)" by code_simp
  then obtain e' where "crash_backoff_gate \<lparr>tv_sec = 4, tv_usec = 999500\<rparr> (backoff_run 0 ?evs) =
      (False, e', Some 1)" by (auto split: prod.splits)
  with gate [OF this] show ?thesis by blast
qed

end
