(* ===== verification/Children.thy ===== *)
theory Children
  imports Crash_Backoff "HOL-Library.AList"
begin

text \<open>
  The master's bookkeeping of worker processes (\<open>fpm_children.c\<close>): the pools with
  their child lists and counters, the fork loop \<open>fpm_children_make()\<close>, the crash
  backoff calls around it, adoption and detaching of children. The master's
  state is one record that every later theory of the process manager extends its
  operations on; a pool is its position in \<open>fpm_worker_all_pools\<close>.

  What the master reads from outside (clock, results of \<open>fork()\<close> and of the
  resource allocation before it, the scoreboard) is the record \<open>world\<close>. Readings
  are numbered by the counter \<open>tick\<close>, so two readings of the clock in one handler
  may differ. Effects on other processes and on the event loop are appended to
  \<open>effects\<close>.
\<close>

section \<open>State\<close>

datatype pm_style = PM_STYLE_STATIC | PM_STYLE_DYNAMIC | PM_STYLE_ONDEMAND

datatype pctl_state = Normal | Reloading | Terminating | Finishing

record fpm_child_s =
  c_pid :: int
  c_started :: timeval
  c_idle_kill :: bool

record pool_config =
  p_name :: string
  pm :: pm_style
  pm_max_children :: int
  pm_start_servers :: int
  pm_min_spare_servers :: int
  pm_max_spare_servers :: int
  pm_process_idle_timeout :: int
  pm_max_spawn_rate :: int
  pm_max_consecutive_failures :: int
  http_read_timeout :: int

text \<open>The fields of \<open>struct fpm_pool_type_s\<close> the process manager looks at.\<close>

record pool_type =
  serves_requests :: bool
  has_child_main :: bool
  respawn_backoff :: bool
  proxy_only :: bool
  scale_down_drains :: bool
  stop_signal :: "int option"
  reload_spare_child :: bool

record fpm_worker_pool_s =
  config :: pool_config
  ptype :: pool_type
  running_children :: int
  children :: "fpm_child_s list"
  idle_spawn_rate :: int
  warn_max_children :: bool
  socket_event_set :: bool

record gw_slot =
  gw_pid :: int
  respawn_window_start :: int
  respawn_count :: nat
  respawn_gave_up :: bool

record fpm_http_gateway_s =
  ready_path :: bool
  slots :: "gw_slot list"
  targets :: "nat list"

datatype effect =
    Kill int int
  | Arm_Gate nat int
  | Arm_Survive nat
  | Arm_Pctl int
  | Forked nat int
  | Gateway_Forked nat nat int
  | Notify_Reloading
  | Notify_Stopping
  | Notify_Reload_Refused
  | Tracer int
  | Master_Exec
  | Master_Exit int

record master =
  pools :: "fpm_worker_pool_s list"
  g_running :: int
  backoff :: "(nat \<times> fpm_crash_backoff_entry_s) list"
  fpm_state :: pctl_state
  signal_sent :: int
  held_signo :: int
  escalated :: bool
  deferred_release :: bool
  drain_list :: "(int \<times> timeval) list"
  gateways :: "fpm_http_gateway_s list"
  extra :: "(int \<times> nat \<times> nat) list"
  carry_env :: "string option"
  registry :: "(nat \<times> bool) list"
  fresh_spare :: "(nat \<times> int) list"
  last_faults :: "int list option"
  fault :: nat
  is_child :: bool
  ended :: bool
  tick :: nat
  effects :: "effect list"

record world =
  process_max :: int
  process_control_timeout :: int
  emergency_restart_threshold :: nat
  emergency_restart_interval :: int
  reload_selective :: bool
  w_getpid :: int
  w_time :: "nat \<Rightarrow> int"
  w_clock :: "nat \<Rightarrow> timeval"
  w_fork :: "nat \<Rightarrow> int"
  w_prepare :: "nat \<Rightarrow> nat \<Rightarrow> bool"
  w_requests :: "nat \<Rightarrow> int \<Rightarrow> nat"
  w_idle :: "nat \<Rightarrow> int \<Rightarrow> bool"
  w_last_activity :: "nat \<Rightarrow> int \<Rightarrow> timeval"
  w_config_loads :: "nat \<Rightarrow> bool"
  w_diff_trusted :: "nat \<Rightarrow> bool"
  w_unchanged :: "string \<Rightarrow> bool"
  w_alloc :: "nat \<Rightarrow> bool"
  w_start_time :: "int \<Rightarrow> nat"
  w_pid_same :: "int \<Rightarrow> nat \<Rightarrow> bool"
  w_exec_fails :: bool
  w_tracer :: "nat \<Rightarrow> int \<Rightarrow> bool"

definition fpm_clock_get :: "world \<Rightarrow> master \<Rightarrow> timeval \<times> master" where
  "fpm_clock_get w m = (w_clock w (tick m), m\<lparr>tick := tick m + 1\<rparr>)"

definition emit :: "effect \<Rightarrow> master \<Rightarrow> master" where
  "emit x m = m\<lparr>effects := effects m @ [x]\<rparr>"

definition upd_pool :: "nat \<Rightarrow> (fpm_worker_pool_s \<Rightarrow> fpm_worker_pool_s) \<Rightarrow> master \<Rightarrow> master" where
  "upd_pool wp f m = m\<lparr>pools := (pools m)[wp := f (pools m ! wp)]\<rparr>"

abbreviation pool_of :: "master \<Rightarrow> nat \<Rightarrow> fpm_worker_pool_s" where
  "pool_of m wp \<equiv> pools m ! wp"

text \<open>
  The state of a master that has read its configuration and forked nothing yet,
  and a simple world and pool to evaluate the model on.
\<close>

definition start_master :: "fpm_worker_pool_s list \<Rightarrow> master" where
  "start_master ps =
     \<lparr>pools = ps, g_running = sum_list (map running_children ps), backoff = [], fpm_state = Normal,
      signal_sent = 0, held_signo = 0, escalated = False, deferred_release = False, drain_list = [],
      gateways = [], extra = [], carry_env = None, registry = [], fresh_spare = [], last_faults = None, fault = 0,
      is_child = False, ended = False, tick = 0, effects = []\<rparr>"

definition quiet_world :: world where
  "quiet_world =
     \<lparr>process_max = 0, process_control_timeout = 5, emergency_restart_threshold = 0,
      emergency_restart_interval = 0, reload_selective = False, w_getpid = 1, w_time = (\<lambda>t. int t),
      w_clock = (\<lambda>t. \<lparr>tv_sec = int t, tv_usec = 0\<rparr>), w_fork = (\<lambda>t. 1000 + int t),
      w_prepare = (\<lambda>t wp. True), w_requests = (\<lambda>t pid. 0), w_idle = (\<lambda>t pid. True),
      w_last_activity = (\<lambda>t pid. timerclear), w_config_loads = (\<lambda>t. True), w_diff_trusted = (\<lambda>t. False),
      w_unchanged = (\<lambda>name. False), w_alloc = (\<lambda>t. True), w_start_time = (\<lambda>pid. nat pid * 100),
      w_pid_same = (\<lambda>pid start. start = nat pid * 100), w_exec_fails = False,
      w_tracer = (\<lambda>t pid. False)\<rparr>"

definition quiet_pool :: "int list \<Rightarrow> fpm_worker_pool_s" where
  "quiet_pool pids =
     \<lparr>config = \<lparr>p_name = ''www'', pm = PM_STYLE_DYNAMIC, pm_max_children = 4, pm_start_servers = 2,
        pm_min_spare_servers = 1, pm_max_spare_servers = 3, pm_process_idle_timeout = 10,
        pm_max_spawn_rate = 32, pm_max_consecutive_failures = 0, http_read_timeout = 1000\<rparr>,
      ptype = \<lparr>serves_requests = True, has_child_main = True, respawn_backoff = True, proxy_only = False,
        scale_down_drains = False, stop_signal = None, reload_spare_child = False\<rparr>,
      running_children = int (length pids),
      children = map (\<lambda>pid. \<lparr>c_pid = pid, c_started = timerclear, c_idle_kill = False\<rparr>) pids,
      idle_spawn_rate = 1, warn_max_children = False, socket_event_set = False\<rparr>"

lemma start_master_simps [simp]:
  "pools (start_master ps) = ps" "g_running (start_master ps) = sum_list (map running_children ps)"
  "backoff (start_master ps) = []" "fpm_state (start_master ps) = Normal" "signal_sent (start_master ps) = 0"
  "held_signo (start_master ps) = 0" "escalated (start_master ps) = False"
  "deferred_release (start_master ps) = False" "gateways (start_master ps) = []"
  "is_child (start_master ps) = False" "ended (start_master ps) = False" "tick (start_master ps) = 0"
  "effects (start_master ps) = []" "last_faults (start_master ps) = None"
  by (simp_all add: start_master_def)

lemma quiet_pool_simps [simp]:
  "running_children (quiet_pool pids) = int (length pids)"
  "children (quiet_pool pids) = map (\<lambda>pid. \<lparr>c_pid = pid, c_started = timerclear, c_idle_kill = False\<rparr>) pids"
  by (simp_all add: quiet_pool_def)

section \<open>Links\<close>

definition fpm_child_link :: "nat \<Rightarrow> fpm_child_s \<Rightarrow> master \<Rightarrow> master" where
  "fpm_child_link wp c m =
     upd_pool wp (\<lambda>p. p\<lparr>running_children := running_children p + 1, children := c # children p\<rparr>)
       (m\<lparr>g_running := g_running m + 1\<rparr>)"

definition fpm_child_unlink :: "nat \<Rightarrow> fpm_child_s \<Rightarrow> master \<Rightarrow> master" where
  "fpm_child_unlink wp c m =
     upd_pool wp (\<lambda>p. p\<lparr>running_children := running_children p - 1, children := remove1 c (children p)\<rparr>)
       (m\<lparr>g_running := g_running m - 1\<rparr>)"

text \<open>The first child with the smallest start time, as the list walk finds it.\<close>

fun oldest_child :: "fpm_child_s option \<Rightarrow> fpm_child_s list \<Rightarrow> fpm_child_s option" where
  "oldest_child best [] = best"
| "oldest_child None (c # cs) = oldest_child (Some c) cs"
| "oldest_child (Some b) (c # cs) =
     (if timer_lt (c_started c) (c_started b) then oldest_child (Some c) cs
      else oldest_child (Some b) cs)"

definition fpm_children_detach_oldest :: "nat \<Rightarrow> master \<Rightarrow> fpm_child_s option \<times> master" where
  "fpm_children_detach_oldest wp m =
     (case oldest_child None (children (pool_of m wp)) of
        None \<Rightarrow> (None, m)
      | Some c \<Rightarrow> (Some c, fpm_child_unlink wp c m))"

definition fpm_children_adopt :: "world \<Rightarrow> nat \<Rightarrow> int \<Rightarrow> timeval \<Rightarrow> master \<Rightarrow> fpm_child_s option \<times> master" where
  "fpm_children_adopt w wp pid started m =
     (let c = \<lparr>c_pid = pid, c_started = started, c_idle_kill = False\<rparr>;
          ok = w_prepare w (tick m) wp; m = m\<lparr>tick := tick m + 1\<rparr>
      in if \<not> ok then (None, m) else (Some c, fpm_child_link wp c m))"

definition find_in_pool :: "int \<Rightarrow> fpm_worker_pool_s \<Rightarrow> fpm_child_s option" where
  "find_in_pool pid p = find (\<lambda>c. c_pid c = pid) (children p)"

fun find_in_pools :: "int \<Rightarrow> nat \<Rightarrow> fpm_worker_pool_s list \<Rightarrow> (nat \<times> fpm_child_s) option" where
  "find_in_pools pid i [] = None"
| "find_in_pools pid i (p # ps) =
     (case find_in_pool pid p of
        Some c \<Rightarrow> Some (i, c)
      | None \<Rightarrow> find_in_pools pid (Suc i) ps)"

definition fpm_child_find :: "int \<Rightarrow> master \<Rightarrow> (nat \<times> fpm_child_s) option" where
  "fpm_child_find pid m = find_in_pools pid 0 (pools m)"

section \<open>Crash backoff of the master's pools\<close>

definition fpm_crash_backoff_find :: "nat \<Rightarrow> master \<Rightarrow> fpm_crash_backoff_entry_s option" where
  "fpm_crash_backoff_find wp m = map_of (backoff m) wp"

definition set_entry :: "nat \<Rightarrow> fpm_crash_backoff_entry_s \<Rightarrow> master \<Rightarrow> master" where
  "set_entry wp e m = m\<lparr>backoff := AList.update wp e (backoff m)\<rparr>"

definition fpm_crash_backoff_init :: "nat \<Rightarrow> master \<Rightarrow> master" where
  "fpm_crash_backoff_init wp m =
     (if \<not> respawn_backoff (ptype (pool_of m wp)) then m
      else m\<lparr>backoff := (wp, crash_backoff_entry0) # backoff m\<rparr>)"

definition fpm_pctl_can_spawn_children :: "master \<Rightarrow> bool" where
  "fpm_pctl_can_spawn_children m \<longleftrightarrow> fpm_state m = Normal"

definition fpm_crash_backoff_child_exited :: "world \<Rightarrow> nat \<Rightarrow> fpm_child_s \<Rightarrow> master \<Rightarrow> master" where
  "fpm_crash_backoff_child_exited w wp c m =
     (case fpm_crash_backoff_find wp m of
        None \<Rightarrow> m
      | Some e \<Rightarrow>
          if \<not> fpm_pctl_can_spawn_children m then m
          else
            let requests = w_requests w (tick m) (c_pid c);
                (now, m) = fpm_clock_get w m;
                (jnow, m) = fpm_clock_get w m
            in set_entry wp (crash_backoff_exit now jnow (w_getpid w)
                 (pm_max_consecutive_failures (config (pool_of m wp))) requests (c_started c) e) m)"

definition fpm_crash_backoff_may_spawn :: "world \<Rightarrow> nat \<Rightarrow> master \<Rightarrow> bool \<times> master" where
  "fpm_crash_backoff_may_spawn w wp m =
     (case fpm_crash_backoff_find wp m of
        None \<Rightarrow> (True, m)
      | Some e \<Rightarrow>
          if \<not> timerisset (next_spawn e) then (True, m)
          else
            let (now, m) = fpm_clock_get w m;
                (ok, e', timer) = crash_backoff_gate now e;
                m = set_entry wp e' m
            in (ok, case timer of None \<Rightarrow> m | Some ms \<Rightarrow> emit (Arm_Gate wp ms) m))"

definition fpm_crash_backoff_child_spawned :: "nat \<Rightarrow> fpm_child_s \<Rightarrow> master \<Rightarrow> master" where
  "fpm_crash_backoff_child_spawned wp c m =
     (case fpm_crash_backoff_find wp m of
        None \<Rightarrow> m
      | Some e \<Rightarrow>
          let (e', armed) = crash_backoff_spawned (c_pid c) (c_started c) e;
              m = set_entry wp e' m
          in if armed then emit (Arm_Survive wp) m else m)"

section \<open>Gateways with a readiness probe\<close>

definition fpm_http_ready_gateways_alive :: "master \<Rightarrow> bool" where
  "fpm_http_ready_gateways_alive m \<longleftrightarrow>
     list_ex (\<lambda>gw. ready_path gw \<and> list_ex (\<lambda>s. gw_pid s > 0) (slots gw)) (gateways m)"

definition fpm_http_pool_routed_by_ready_gateway :: "nat \<Rightarrow> master \<Rightarrow> bool" where
  "fpm_http_pool_routed_by_ready_gateway wp m \<longleftrightarrow>
     list_ex (\<lambda>gw. ready_path gw \<and> list_ex (\<lambda>t. t = wp) (targets gw)) (gateways m)"

definition fpm_http_pool_held_for_window :: "world \<Rightarrow> nat \<Rightarrow> master \<Rightarrow> bool" where
  "fpm_http_pool_held_for_window w wp m \<longleftrightarrow>
     (if process_control_timeout w \<le> 0 then False
      else fpm_http_ready_gateways_alive m \<and> fpm_http_pool_routed_by_ready_gateway wp m)"

definition fpm_pctl_window_open :: "master \<Rightarrow> bool" where
  "fpm_pctl_window_open m \<longleftrightarrow> held_signo m \<noteq> 0 \<and> fpm_http_ready_gateways_alive m"

definition fpm_pctl_may_fork_in_window :: "nat \<Rightarrow> master \<Rightarrow> bool" where
  "fpm_pctl_may_fork_in_window wp m \<longleftrightarrow>
     fpm_pctl_window_open m \<and> pm (config (pool_of m wp)) = PM_STYLE_ONDEMAND \<and>
     fpm_http_pool_routed_by_ready_gateway wp m"

section \<open>The fork loop\<close>

definition fpm_children_may_fork :: "nat \<Rightarrow> master \<Rightarrow> bool" where
  "fpm_children_may_fork wp m \<longleftrightarrow>
     (if fpm_pctl_can_spawn_children m then True else fpm_pctl_may_fork_in_window wp m)"

definition fork_wanted :: "world \<Rightarrow> nat \<Rightarrow> int \<Rightarrow> master \<Rightarrow> bool" where
  "fork_wanted w wp mx m \<longleftrightarrow>
     wp < length (pools m) \<and> fpm_children_may_fork wp m \<and> running_children (pool_of m wp) < mx \<and>
     (process_max w < 1 \<or> g_running m < process_max w)"

definition child_born :: "world \<Rightarrow> nat \<Rightarrow> int \<Rightarrow> master \<Rightarrow> master" where
  "child_born w wp pid m =
     (let (started, m) = fpm_clock_get w m;
          c = \<lparr>c_pid = pid, c_started = started, c_idle_kill = False\<rparr>
      in fpm_child_link wp c (fpm_crash_backoff_child_spawned wp c (emit (Forked wp pid) m)))"

lemma child_born_running [simp]:
  "pools (child_born w wp pid m) = (pools m)[wp := (pool_of m wp)\<lparr>running_children := running_children (pool_of m wp) + 1,
     children := \<lparr>c_pid = pid, c_started = w_clock w (tick m), c_idle_kill = False\<rparr> # children (pool_of m wp)\<rparr>]"
  by (simp add: child_born_def fpm_clock_get_def fpm_crash_backoff_child_spawned_def fpm_child_link_def
      upd_pool_def set_entry_def emit_def Let_def split: option.splits prod.splits)

lemma may_spawn_pools [simp]: "pools (snd (fpm_crash_backoff_may_spawn w wp m)) = pools m"
  by (auto simp: fpm_crash_backoff_may_spawn_def fpm_clock_get_def set_entry_def emit_def Let_def
      split: option.splits prod.splits)

function make_loop :: "world \<Rightarrow> nat \<Rightarrow> int \<Rightarrow> master \<Rightarrow> int \<times> master" where
  "make_loop w wp mx m =
     (if fork_wanted w wp mx m then
        (let (ok, m) = fpm_crash_backoff_may_spawn w wp m in
         if \<not> ok then (1, m)
         else if \<not> w_prepare w (tick m) wp then (2, m\<lparr>tick := tick m + 1\<rparr>)
         else
           (let pid = w_fork w (tick m); m = m\<lparr>tick := tick m + 1\<rparr> in
            if pid = 0 then (0, m\<lparr>is_child := True\<rparr>)
            else if pid < 0 then (2, m)
            else make_loop w wp mx (child_born w wp pid m)))
      else (1, m))"
  by pat_completeness auto
termination
  apply (relation "measure (\<lambda>(w, wp, mx, m). nat (mx - running_children (pool_of m wp)))")
  subgoal by simp
  subgoal premises prems for w wp mx m x ok m' pid m''
  proof -
    have "pools (snd (ok, m')) = pools m" unfolding prems(3) prems(2) by (rule may_spawn_pools)
    then have "pools m'' = pools m" unfolding prems(7) by simp
    with prems(1) show ?thesis by (simp add: fork_wanted_def)
  qed
  done

declare make_loop.simps [simp del]

definition make_target :: "nat \<Rightarrow> bool \<Rightarrow> int \<Rightarrow> master \<Rightarrow> int" where
  "make_target wp in_event_loop nb_to_spawn m =
     (let p = pool_of m wp in
      case pm (config p) of
        PM_STYLE_DYNAMIC \<Rightarrow>
          if \<not> in_event_loop then pm_start_servers (config p) else running_children p + nb_to_spawn
      | PM_STYLE_ONDEMAND \<Rightarrow> if \<not> in_event_loop then 0 else running_children p + nb_to_spawn
      | PM_STYLE_STATIC \<Rightarrow> pm_max_children (config p))"

definition fpm_children_make :: "world \<Rightarrow> nat \<Rightarrow> bool \<Rightarrow> int \<Rightarrow> master \<Rightarrow> int \<times> master" where
  "fpm_children_make w wp in_event_loop nb_to_spawn m =
     make_loop w wp (make_target wp in_event_loop nb_to_spawn m) m"

section \<open>Timer callbacks of the crash backoff\<close>

definition fpm_crash_backoff_gate_fire :: "world \<Rightarrow> nat \<Rightarrow> master \<Rightarrow> master" where
  "fpm_crash_backoff_gate_fire w wp m =
     (case fpm_crash_backoff_find wp m of
        None \<Rightarrow> m
      | Some e \<Rightarrow> snd (fpm_children_make w wp True 1 (set_entry wp (crash_backoff_gate_fired e) m)))"

definition fpm_crash_backoff_survive_fire :: "world \<Rightarrow> nat \<Rightarrow> master \<Rightarrow> master" where
  "fpm_crash_backoff_survive_fire w wp m =
     (case fpm_crash_backoff_find wp m of
        None \<Rightarrow> m
      | Some e \<Rightarrow>
          let same = (case fpm_child_find (watch_pid e) m of
                        None \<Rightarrow> False
                      | Some (i, c) \<Rightarrow> i = wp \<and> c_started c = watch_started e);
              (e', make) = crash_backoff_survived same e;
              m = set_entry wp e' m
          in if make then snd (fpm_children_make w wp True 1 m) else m)"

section \<open>Frame of the fork loop\<close>

text \<open>
  The part of the state the fork loop of one pool does not touch: the other
  pools, the state machine, the window, the gateways and the handoff. The pool
  itself keeps its configuration.
\<close>

definition fork_frame :: "nat \<Rightarrow> master \<Rightarrow> master \<Rightarrow> bool" where
  "fork_frame wp m m' \<longleftrightarrow>
     length (pools m') = length (pools m) \<and>
     (\<forall>i. i \<noteq> wp \<longrightarrow> pools m' ! i = pools m ! i) \<and>
     config (pool_of m' wp) = config (pool_of m wp) \<and> ptype (pool_of m' wp) = ptype (pool_of m wp) \<and>
     fpm_state m' = fpm_state m \<and> signal_sent m' = signal_sent m \<and> held_signo m' = held_signo m \<and>
     escalated m' = escalated m \<and> gateways m' = gateways m \<and> extra m' = extra m \<and>
     carry_env m' = carry_env m \<and> drain_list m' = drain_list m \<and> ended m' = ended m"

lemma fork_frame_refl [simp]: "fork_frame wp m m"
  by (simp add: fork_frame_def)

lemma fork_frame_trans: "fork_frame wp a b \<Longrightarrow> fork_frame wp b c \<Longrightarrow> fork_frame wp a c"
  by (simp add: fork_frame_def)

lemma may_spawn_frame:
  "fork_frame wp m (snd (fpm_crash_backoff_may_spawn w wp m)) \<and>
   g_running (snd (fpm_crash_backoff_may_spawn w wp m)) = g_running m \<and>
   is_child (snd (fpm_crash_backoff_may_spawn w wp m)) = is_child m"
  by (auto simp: fpm_crash_backoff_may_spawn_def fpm_clock_get_def set_entry_def emit_def Let_def fork_frame_def
      split: option.splits prod.splits)

lemma child_born_frame:
  "fork_frame wp m (child_born w wp pid m) \<and> g_running (child_born w wp pid m) = g_running m + 1 \<and>
   is_child (child_born w wp pid m) = is_child m"
proof -
  have "pools (child_born w wp pid m) = (pools m)[wp := (pool_of m wp)\<lparr>running_children := running_children (pool_of m wp) + 1,
     children := \<lparr>c_pid = pid, c_started = w_clock w (tick m), c_idle_kill = False\<rparr> # children (pool_of m wp)\<rparr>]"
    by simp
  then have "length (pools (child_born w wp pid m)) = length (pools m)"
    "\<forall>i. i \<noteq> wp \<longrightarrow> pools (child_born w wp pid m) ! i = pools m ! i"
    "config (pool_of (child_born w wp pid m) wp) = config (pool_of m wp)"
    "ptype (pool_of (child_born w wp pid m) wp) = ptype (pool_of m wp)"
    by (cases "wp < length (pools m)"; simp add: list_update_beyond)+
  then show ?thesis
    by (auto simp: child_born_def fpm_clock_get_def fpm_crash_backoff_child_spawned_def fpm_child_link_def
        upd_pool_def set_entry_def emit_def Let_def fork_frame_def split: option.splits prod.splits)
qed

lemma fork_wanted_cong:
  assumes "fork_frame wp m m'" "g_running m' = g_running m"
    "running_children (pool_of m' wp) = running_children (pool_of m wp)"
  shows "fork_wanted w wp mx m' = fork_wanted w wp mx m"
  using assms
  by (simp add: fork_wanted_def fork_frame_def fpm_children_may_fork_def fpm_pctl_can_spawn_children_def
      fpm_pctl_may_fork_in_window_def fpm_pctl_window_open_def fpm_http_ready_gateways_alive_def
      fpm_http_pool_routed_by_ready_gateway_def)

text \<open>
  An invariant of the fork loop: kept by the backoff gate, by the counters the
  loop ticks and by the birth of a child where a fork is wanted.
\<close>

locale fork_invariant =
  fixes w :: world and wp :: nat and mx :: int and I :: "master \<Rightarrow> bool"
  assumes gate: "I m \<Longrightarrow> I (snd (fpm_crash_backoff_may_spawn w wp m))"
    and ticks: "I m \<Longrightarrow> I (m\<lparr>tick := n\<rparr>)"
    and in_child: "I m \<Longrightarrow> I (m\<lparr>is_child := True\<rparr>)"
    and born: "I m \<Longrightarrow> fork_wanted w wp mx m \<Longrightarrow> 0 < pid \<Longrightarrow> I (child_born w wp pid m)"
begin

lemma make_loop_inv: "I m \<Longrightarrow> I (snd (make_loop w wp mx m))"
proof (induction "nat (mx - running_children (pool_of m wp))" arbitrary: m rule: less_induct)
  case less
  show ?case
  proof (cases "fork_wanted w wp mx m")
    case False
    then show ?thesis using less.prems by (simp add: make_loop.simps)
  next
    case wanted: True
    obtain ok m1 where ms: "fpm_crash_backoff_may_spawn w wp m = (ok, m1)" by fastforce
    then have I1: "I m1" using gate [OF less.prems] by simp
    have p1: "pools m1 = pools m" using may_spawn_pools [of w wp m] ms by simp
    let ?m2 = "m1\<lparr>tick := tick m1 + 1\<rparr>" and ?pid = "w_fork w (tick m1)"
    show ?thesis
    proof (cases "ok \<and> w_prepare w (tick m1) wp \<and> 0 < ?pid")
      case False
      then show ?thesis
        using wanted ms I1 ticks [OF I1] in_child [OF ticks [OF I1]]
        by (auto simp: make_loop.simps [of w wp mx m] Let_def)
    next
      case True
      have step: "make_loop w wp mx m = make_loop w wp mx (child_born w wp ?pid ?m2)"
        using wanted ms True by (simp add: make_loop.simps [of w wp mx m] Let_def)
      have "fork_wanted w wp mx ?m2 = fork_wanted w wp mx m"
        using may_spawn_frame [of wp m w] ms p1 by (intro fork_wanted_cong) (simp_all add: fork_frame_def)
      with wanted have "I (child_born w wp ?pid ?m2)" using born [OF ticks [OF I1]] True by simp
      moreover have "nat (mx - running_children (pool_of (child_born w wp ?pid ?m2) wp))
          < nat (mx - running_children (pool_of m wp))"
        using wanted p1 by (simp add: fork_wanted_def)
      ultimately show ?thesis unfolding step using less.hyps by blast
    qed
  qed
qed

lemma children_make_inv:
  "mx = make_target wp iel nb m \<Longrightarrow> I m \<Longrightarrow> I (snd (fpm_children_make w wp iel nb m))"
  by (metis fpm_children_make_def make_loop_inv)

end

text \<open>The counters agree with the lists.\<close>

definition counts_ok :: "master \<Rightarrow> bool" where
  "counts_ok m \<longleftrightarrow>
     list_all (\<lambda>p. running_children p = int (length (children p))) (pools m) \<and>
     g_running m = sum_list (map running_children (pools m))"

lemma sum_list_update_int:
  fixes f :: "'a \<Rightarrow> int"
  shows "i < length xs \<Longrightarrow> sum_list (map f (xs[i := x])) = sum_list (map f xs) - f (xs ! i) + f x"
proof (induction xs arbitrary: i)
  case (Cons a xs)
  then show ?case by (cases i) auto
qed simp

lemma counts_ok_update:
  assumes "counts_ok m" "wp < length (pools m)" "running_children p' = int (length (children p'))"
    "pools m' = (pools m)[wp := p']"
    "g_running m' = g_running m + running_children p' - running_children (pool_of m wp)"
  shows "counts_ok m'"
  using assms by (auto simp: counts_ok_def sum_list_update_int list_all_iff dest!: set_update_subset_insert [THEN subsetD])

lemma counts_ok_frame: "counts_ok m \<Longrightarrow> pools m' = pools m \<Longrightarrow> g_running m' = g_running m \<Longrightarrow> counts_ok m'"
  by (simp add: counts_ok_def)

lemma counts_ok_pool: "counts_ok m \<Longrightarrow> wp < length (pools m) \<Longrightarrow>
  running_children (pool_of m wp) = int (length (children (pool_of m wp)))"
  by (simp add: counts_ok_def list_all_length)

lemma counts_ok_born:
  assumes "counts_ok m" "wp < length (pools m)"
  shows "counts_ok (child_born w wp pid m)"
proof (rule counts_ok_update [OF assms])
  show "pools (child_born w wp pid m) = (pools m)[wp := (pool_of m wp)\<lparr>running_children := running_children (pool_of m wp) + 1,
     children := \<lparr>c_pid = pid, c_started = w_clock w (tick m), c_idle_kill = False\<rparr> # children (pool_of m wp)\<rparr>]"
    by simp
qed (use counts_ok_pool [OF assms] child_born_frame [of wp m w pid] in simp_all)

interpretation counts: fork_invariant w wp mx counts_ok for w wp mx
proof unfold_locales
  fix m pid assume "counts_ok m" "fork_wanted w wp mx m"
  then show "counts_ok (child_born w wp pid m)" by (simp add: counts_ok_born fork_wanted_def)
qed (use may_spawn_frame in \<open>auto intro: counts_ok_frame\<close>)

text \<open>The global limit \<open>process.max\<close>.\<close>

definition within_process_max :: "world \<Rightarrow> master \<Rightarrow> bool" where
  "within_process_max w m \<longleftrightarrow> process_max w < 1 \<or> g_running m \<le> process_max w"

interpretation pmax: fork_invariant w wp mx "within_process_max w" for w wp mx
  by unfold_locales
    (use may_spawn_frame child_born_frame in \<open>auto simp: within_process_max_def fork_wanted_def\<close>)

text \<open>The pool's own limit, given the target the loop was started with.\<close>

definition pool_bounded :: "nat \<Rightarrow> int \<Rightarrow> master \<Rightarrow> bool" where
  "pool_bounded wp b m \<longleftrightarrow> running_children (pool_of m wp) \<le> b"

interpretation bounded: fork_invariant w wp mx "pool_bounded wp (max b mx)" for w wp mx b
  by unfold_locales (auto simp: pool_bounded_def fork_wanted_def)

interpretation frame: fork_invariant w wp mx "fork_frame wp m0" for w wp mx m0
proof unfold_locales
  fix m pid assume "fork_frame wp m0 m"
  then show "fork_frame wp m0 (child_born w wp pid m)"
    using child_born_frame fork_frame_trans by blast
next
  fix m assume "fork_frame wp m0 m"
  then show "fork_frame wp m0 (snd (fpm_crash_backoff_may_spawn w wp m))"
    using may_spawn_frame fork_frame_trans by blast
qed (simp_all add: fork_frame_def)

end
