(* ===== verification/Cstring.thy ===== *)
theory Cstring
  imports Prelude
begin

text \<open>
  C strings and the number readers of the C library (\<open>strtol()\<close>, \<open>strtoull()\<close>) that
  several parts of the program use.
\<close>

section \<open>C strings\<close>

definition NUL :: char where "NUL = CHR 0x00"

text \<open>What a function that takes a C string sees of a buffer.\<close>

definition c_str :: "bytes \<Rightarrow> string" where
  "c_str s = takeWhile (\<lambda>c. c \<noteq> NUL) s"

lemma c_str_id [simp]: "NUL \<notin> set s \<Longrightarrow> c_str s = s"
  unfolding c_str_def by (rule takeWhile_eq_all_conv [THEN iffD2]) auto

section \<open>Numbers in C strings\<close>

definition SIZE_MAX :: nat where "SIZE_MAX = 2 ^ 64 - 1"

definition dec_int :: "int \<Rightarrow> string" where
  "dec_int i = (if i < 0 then CHR ''-'' # dec (nat (- i)) else dec (nat i))"

definition is_cspace :: "char \<Rightarrow> bool" where
  "is_cspace c \<longleftrightarrow> c = CHR '' '' \<or> (9 \<le> (of_char c :: nat) \<and> (of_char c :: nat) \<le> 13)"

text \<open>\<open>strtol\<close> and \<open>strtoull\<close> in base 10: the value and the rest; no digits leaves the string.\<close>

definition c_sign :: "bytes \<Rightarrow> bool \<times> bytes" where
  "c_sign s =
     (case dropWhile is_cspace s of
        [] \<Rightarrow> (False, [])
      | c # r \<Rightarrow> if c = CHR ''-'' then (True, r) else if c = CHR ''+'' then (False, r) else (False, c # r))"

definition strtol :: "bytes \<Rightarrow> int \<times> bytes" where
  "strtol s =
     (let (neg, r) = c_sign s; ds = takeWhile isdigit r; v = int (dec_value 0 ds) in
      if ds = [] then (0, s)
      else (max (- (2 ^ 63)) (min (2 ^ 63 - 1) (if neg then - v else v)), dropWhile isdigit r))"

definition strtoull :: "bytes \<Rightarrow> nat \<times> bytes" where
  "strtoull s =
     (let (neg, r) = c_sign s; ds = takeWhile isdigit r; v = dec_value 0 ds in
      if ds = [] then (0, s)
      else (if v > 2 ^ 64 - 1 then 2 ^ 64 - 1 else if neg then (2 ^ 64 - v) mod 2 ^ 64 else v,
            dropWhile isdigit r))"

section \<open>Lemmas\<close>

lemma digit_not_space: "isdigit c \<Longrightarrow> \<not> is_cspace c \<and> c \<noteq> CHR ''-'' \<and> c \<noteq> CHR ''+''"
  by (auto simp: is_cspace_def isdigit_of_char)

lemma c_sign_digits:
  assumes "isdigit (hd s)" "s \<noteq> []"
  shows "c_sign s = (False, s)"
  using assms digit_not_space by (cases s) (auto simp: c_sign_def)

lemma strtol_dec:
  assumes "int n < 2 ^ 63" "r = [] \<or> \<not> isdigit (hd r)"
  shows "strtol (dec n @ r) = (int n, r)"
proof -
  have "c_sign (dec n @ r) = (False, dec n @ r)"
    by (rule c_sign_digits) (simp_all add: dec_hd_digit)
  moreover have "takeWhile isdigit (dec n @ r) = dec n" "dropWhile isdigit (dec n @ r) = r"
    using assms(2) by (cases r; simp add: takeWhile_digits_dec dropWhile_digits_dec)+
  ultimately show ?thesis using assms(1) by (simp add: strtol_def)
qed

lemma strtoull_dec: "n < 2 ^ 64 \<Longrightarrow> fst (strtoull (dec n)) = n"
proof -
  assume "n < 2 ^ 64"
  moreover have "c_sign (dec n) = (False, dec n)" by (rule c_sign_digits) (simp_all add: dec_hd_digit)
  moreover note t = takeWhile_digits_dec [of "[]" n, simplified append_Nil2 simp_thms]
  ultimately show ?thesis by (simp add: strtoull_def Let_def t)
qed

end
