(* ===== verification/Reload_Selective.thy ===== *)
theory Reload_Selective
  imports Children Cstring "HOL-Library.Multiset"
begin

text \<open>
  The handoff of a selective reload (\<open>fpm_reload_selective.c\<close>): the children of an
  unchanged pool are detached, listed as \<open>name:pid/start,pid/start\<close> groups in one
  environment variable, and adopted by the next generation. The variable is
  \<open>carry_env\<close> of the master's state. The checks on \<open>/proc\<close> of \<open>fpm_pid_child.c\<close>
  are the parameters \<open>w_start_time\<close> and \<open>w_pid_same\<close>; the shared-memory records of
  \<open>fpm_reload_shm.c\<close> are not part of the model. Memory allocation succeeds except
  where the code's answer to a failure is the point (\<open>w_alloc\<close>).
\<close>

definition SIGTERM :: int where "SIGTERM = 15"

text \<open>The conversion of a \<open>long\<close> to \<open>pid_t\<close>, a 32-bit signed integer.\<close>

definition to_pid :: "int \<Rightarrow> int" where
  "to_pid v = (v + 2 ^ 31) mod 2 ^ 32 - 2 ^ 31"

section \<open>The list\<close>

definition carry_entry :: "int \<times> nat \<Rightarrow> string" where
  "carry_entry e = dec_int (fst e) @ ''/'' @ dec (snd e)"

definition carry_list :: "(int \<times> nat) list \<Rightarrow> string" where
  "carry_list es = join_with CHR '','' (map carry_entry es)"

definition fpm_reload_selective_name_ok :: "string \<Rightarrow> bool" where
  "fpm_reload_selective_name_ok name \<longleftrightarrow> list_all (\<lambda>c. c \<notin> {CHR '':'', CHR '','', CHR '';''}) name"

text \<open>One entry \<open>pid/start\<close>; without a slash the start is 0.\<close>

definition carried_start :: "bytes \<Rightarrow> nat" where
  "carried_start r = (if r \<noteq> [] \<and> hd r = CHR ''/'' then fst (strtoull (tl r)) else 0)"

definition parse_carried :: "bytes \<Rightarrow> int \<times> nat" where
  "parse_carried s =
     (let (pid, r) = strtol s in (to_pid pid, carried_start r))"

text \<open>The comma-separated pieces; a trailing comma ends the walk.\<close>

definition carried_pieces :: "bytes \<Rightarrow> bytes list" where
  "carried_pieces s =
     (let ps = split_on CHR '','' s in if last ps = [] then butlast ps else ps)"

definition group_of :: "string \<Rightarrow> bytes \<Rightarrow> bytes option" where
  "group_of name g =
     (if take (length name) g = name \<and> length name < length g \<and> g ! length name = CHR '':''
      then Some (drop (Suc (length name)) g) else None)"

fun take_groups :: "string \<Rightarrow> bytes list \<Rightarrow> bytes option \<times> bytes list" where
  "take_groups name [] = (None, [])"
| "take_groups name (g # gs) =
     (case group_of name g of
        Some pids \<Rightarrow> (Some pids, filter (\<lambda>g. g \<noteq> []) gs)
      | None \<Rightarrow> (let (found, kept) = take_groups name gs in (found, if g = [] then kept else g # kept)))"

definition fpm_reload_selective_env_take ::
  "string \<Rightarrow> string option \<Rightarrow> (int \<times> nat) list \<times> string option" where
  "fpm_reload_selective_env_take name env =
     (case env of
        None \<Rightarrow> ([], None)
      | Some [] \<Rightarrow> ([], Some [])
      | Some s \<Rightarrow>
          (case take_groups name (split_on CHR '';'' s) of
             (None, _) \<Rightarrow> ([], Some s)
           | (Some pids, kept) \<Rightarrow>
               (map parse_carried (carried_pieces pids),
                let k = join_with CHR '';'' kept in if k = [] then None else Some k)))"

definition carry_append :: "string \<Rightarrow> (int \<times> nat) list \<Rightarrow> string option \<Rightarrow> string option" where
  "carry_append name es env =
     Some ((case env of Some (c # s) \<Rightarrow> (c # s) @ '';'' | _ \<Rightarrow> []) @ name @ '':'' @ carry_list es)"

section \<open>Sparing a pool\<close>

text \<open>
  The walk over a \<open>pid/start\<close> list that signals every process that is still the
  one that was listed: up to the comma, then on.
\<close>

fun sigterm_entries :: "world \<Rightarrow> bytes list \<Rightarrow> master \<Rightarrow> master" where
  "sigterm_entries w [] m = m"
| "sigterm_entries w (s # ss) m =
     (let (pid, r) = strtol s; start = carried_start r
      in sigterm_entries w ss
           (if pid > 1 \<and> w_pid_same w (to_pid pid) start then emit (Kill (to_pid pid) SIGTERM) m else m))"

definition fpm_reload_selective_sigterm_list :: "world \<Rightarrow> bytes \<Rightarrow> master \<Rightarrow> master" where
  "fpm_reload_selective_sigterm_list w list m = sigterm_entries w (carried_pieces list) m"

fun detach_all :: "world \<Rightarrow> nat \<Rightarrow> nat \<Rightarrow> master \<Rightarrow> (int \<times> nat) list \<times> master" where
  "detach_all w wp 0 m = ([], m)"
| "detach_all w wp (Suc n) m =
     (case fpm_children_detach_oldest wp m of
        (None, m) \<Rightarrow> ([], m)
      | (Some c, m) \<Rightarrow>
          let (es, m) = detach_all w wp n m in ((c_pid c, w_start_time w (c_pid c)) # es, m))"

text \<open>
  \<open>while ((child = fpm_children_detach_oldest(wp)))\<close>: one round per child of the
  pool, so the number of children is enough fuel (lemma \<open>detach_all_empties\<close>).
\<close>

definition fpm_reload_selective_spare_pool :: "world \<Rightarrow> nat \<Rightarrow> master \<Rightarrow> bool \<times> master" where
  "fpm_reload_selective_spare_pool w wp m =
     (let p = pool_of m wp; name = p_name (config p) in
      if \<not> fpm_reload_selective_name_ok name then (False, m)
      else if running_children p = 0 then (True, m)
      else if \<not> w_alloc w (tick m) then (False, m\<lparr>tick := tick m + 1\<rparr>)
      else
        let (es, m) = detach_all w wp (length (children p)) (m\<lparr>tick := tick m + 1\<rparr>) in
        if es = [] then (True, m)
        else if \<not> w_alloc w (tick m)
        then (False, fpm_reload_selective_sigterm_list w (carry_list es) (m\<lparr>tick := tick m + 1\<rparr>))
        else (True, m\<lparr>carry_env := carry_append name es (carry_env m), tick := tick m + 1\<rparr>))"

section \<open>Adopting it\<close>

fun adopt_all :: "world \<Rightarrow> nat \<Rightarrow> (int \<times> nat) list \<Rightarrow> master \<Rightarrow> master" where
  "adopt_all w wp [] m = m"
| "adopt_all w wp ((pid, start) # es) m =
     (if \<not> w_pid_same w pid start then adopt_all w wp es m
      else
        let (started, m) = fpm_clock_get w m;
            (c, m) = fpm_children_adopt w wp pid started m
        in adopt_all w wp es m)"

definition fpm_reload_selective_adopt :: "world \<Rightarrow> nat \<Rightarrow> master \<Rightarrow> master" where
  "fpm_reload_selective_adopt w wp m =
     (let (es, env) = fpm_reload_selective_env_take (p_name (config (pool_of m wp))) (carry_env m)
      in adopt_all w wp es (m\<lparr>carry_env := env\<rparr>))"

definition fpm_reload_selective_has_carried :: "master \<Rightarrow> bool" where
  "fpm_reload_selective_has_carried m \<longleftrightarrow> (case carry_env m of Some (c # s) \<Rightarrow> True | _ \<Rightarrow> False)"

definition group_list :: "bytes \<Rightarrow> bytes option" where
  "group_list g = (case dropWhile (\<lambda>c. c \<noteq> CHR '':'') g of [] \<Rightarrow> None | _ # r \<Rightarrow> Some r)"

fun sigterm_groups :: "world \<Rightarrow> bytes list \<Rightarrow> master \<Rightarrow> master" where
  "sigterm_groups w [] m = m"
| "sigterm_groups w (g # gs) m =
     sigterm_groups w gs
       (case group_list g of None \<Rightarrow> m | Some l \<Rightarrow> fpm_reload_selective_sigterm_list w l m)"

definition fpm_reload_selective_sigterm_carried :: "world \<Rightarrow> master \<Rightarrow> master" where
  "fpm_reload_selective_sigterm_carried w m =
     (case carry_env m of
        Some (c # s) \<Rightarrow> sigterm_groups w (split_on CHR '';'' (c # s)) (m\<lparr>carry_env := None\<rparr>)
      | _ \<Rightarrow> m)"

definition fpm_reload_selective_discard_unadopted :: "world \<Rightarrow> master \<Rightarrow> master" where
  "fpm_reload_selective_discard_unadopted w m = fpm_reload_selective_sigterm_carried w m"

section \<open>The list reads back\<close>

definition carried_ok :: "int \<times> nat \<Rightarrow> bool" where
  "carried_ok e \<longleftrightarrow> 0 \<le> fst e \<and> fst e < 2 ^ 31 \<and> snd e < 2 ^ 64"

lemma parse_carried_entry: "carried_ok e \<Longrightarrow> parse_carried (carry_entry e) = e"
proof -
  assume e: "carried_ok e"
  then have "strtol (carry_entry e) = (fst e, ''/'' @ dec (snd e))"
    using strtol_dec [of "nat (fst e)" "''/'' @ dec (snd e)"]
    by (simp add: carry_entry_def dec_int_def carried_ok_def)
  with e strtoull_dec [of "snd e"] show ?thesis
    by (simp add: parse_carried_def carried_ok_def to_pid_def carried_start_def)
qed

lemma carry_entry_chars:
  assumes "carried_ok e"
  shows "carry_entry e \<noteq> [] \<and> set (carry_entry e) \<inter> {CHR '','', CHR '';'', CHR '':''} = {}"
proof -
  have "set (dec n) \<inter> {CHR '','', CHR '';'', CHR '':''} = {}" for n
    using dec_digits [of n] by (auto simp: list_all_iff isdigit_of_char)
  then show ?thesis using assms by (auto simp: carry_entry_def dec_int_def carried_ok_def)
qed

lemma carried_pieces_list:
  assumes "es \<noteq> []" "list_all carried_ok es"
  shows "carried_pieces (carry_list es) = map carry_entry es"
proof -
  have "list_all (\<lambda>t. CHR '','' \<notin> set t) (map carry_entry es)"
    using assms(2) carry_entry_chars by (auto simp: list_all_iff)
  then have "split_on CHR '','' (carry_list es) = map carry_entry es"
    unfolding carry_list_def using assms(1) by (intro split_on_join) simp_all
  moreover have "last (map carry_entry es) \<noteq> []"
    using assms carry_entry_chars by (simp add: last_map list_all_iff)
  ultimately show ?thesis by (simp add: carried_pieces_def Let_def)
qed

lemma parse_carry_list:
  "es \<noteq> [] \<Longrightarrow> list_all carried_ok es \<Longrightarrow> map parse_carried (carried_pieces (carry_list es)) = es"
  by (simp add: carried_pieces_list map_idI list_all_iff parse_carried_entry)

text \<open>A whole variable: one group per spared pool.\<close>

definition carry_group :: "string \<times> (int \<times> nat) list \<Rightarrow> string" where
  "carry_group g = fst g @ '':'' @ carry_list (snd g)"

definition group_ok :: "string \<times> (int \<times> nat) list \<Rightarrow> bool" where
  "group_ok g \<longleftrightarrow> fpm_reload_selective_name_ok (fst g) \<and> snd g \<noteq> [] \<and> list_all carried_ok (snd g)"

definition carry_all :: "(string \<times> (int \<times> nat) list) list \<Rightarrow> string option \<Rightarrow> string option" where
  "carry_all gs env = fold (\<lambda>g. carry_append (fst g) (snd g)) gs env"

definition env_text :: "(string \<times> (int \<times> nat) list) list \<Rightarrow> string option" where
  "env_text gs = (if gs = [] then None else Some (join_with CHR '';'' (map carry_group gs)))"

lemma carry_group_nonempty [simp]: "carry_group g \<noteq> []"
  by (simp add: carry_group_def)

lemma carry_append_text: "carry_append (fst g) (snd g) (env_text gs) = env_text (gs @ [g])"
proof (cases "gs = []")
  case False
  then have "join_with CHR '';'' (map carry_group gs) \<noteq> []"
    by (subst join_with_eq_Nil) (simp_all add: list_all_iff)
  with False show ?thesis
    by (cases "join_with CHR '';'' (map carry_group gs)")
       (simp_all add: carry_append_def env_text_def join_with_snoc carry_group_def)
qed (simp add: carry_append_def env_text_def carry_group_def)

lemma carry_all_text: "carry_all gs None = env_text gs"
proof (induction gs rule: rev_induct)
  case (snoc g gs)
  then show ?case by (simp add: carry_all_def carry_append_text)
qed (simp add: carry_all_def env_text_def)

lemma carry_group_no_semicolon:
  assumes "group_ok g" shows "CHR '';'' \<notin> set (carry_group g)"
proof -
  have "CHR '';'' \<notin> set (carry_list (snd g))"
    using assms set_join_with [of "CHR '',''" "map carry_entry (snd g)"] carry_entry_chars
    by (fastforce simp: carry_list_def group_ok_def list_all_iff)
  then show ?thesis using assms
    by (auto simp: carry_group_def group_ok_def fpm_reload_selective_name_ok_def list_all_iff)
qed

lemma group_of_group:
  assumes "fpm_reload_selective_name_ok name" "group_ok g"
  shows "group_of name (carry_group g) = (if fst g = name then Some (carry_list (snd g)) else None)"
proof (cases "fst g = name")
  case True
  then show ?thesis by (simp add: group_of_def carry_group_def)
next
  case False
  have "fst g = name"
    if t: "take (length name) (carry_group g) = name" and l: "length name < length (carry_group g)"
      and c: "carry_group g ! length name = CHR '':''"
  proof -
    have "length name = length (fst g)"
    proof (rule linorder_cases)
      assume "length name < length (fst g)"
      with c have "CHR '':'' \<in> set (fst g)" by (simp add: carry_group_def nth_append) (metis nth_mem)
      then show ?thesis using assms by (auto simp: group_ok_def fpm_reload_selective_name_ok_def list_all_iff)
    next
      assume "length (fst g) < length name"
      with t have "name ! length (fst g) = CHR '':''"
        by (metis carry_group_def append_Cons nth_append_length nth_take)
      then have "CHR '':'' \<in> set name" using \<open>length (fst g) < length name\<close> by (metis nth_mem)
      then show ?thesis using assms by (auto simp: fpm_reload_selective_name_ok_def list_all_iff)
    qed
    with t show ?thesis by (simp add: carry_group_def)
  qed
  with False show ?thesis by (auto simp: group_of_def)
qed

lemma take_groups_text:
  assumes "fpm_reload_selective_name_ok name" "list_all group_ok gs" "distinct (map fst gs)" "(name, es) \<in> set gs"
  shows "take_groups name (map carry_group gs) =
    (Some (carry_list es), map carry_group (filter (\<lambda>g. fst g \<noteq> name) gs))"
  using assms(2-4)
proof (induction gs)
  case (Cons g gs)
  show ?case
  proof (cases "fst g = name")
    case True
    then have "g = (name, es)" using Cons.prems(2,3) by (cases g) (auto simp: image_iff)
    moreover from True Cons.prems have "filter (\<lambda>g. fst g \<noteq> name) gs = gs"
      by (simp add: filter_id_conv image_iff) (metis (no_types))
    moreover have "filter (\<lambda>g. g \<noteq> []) (map carry_group gs) = map carry_group gs"
      by (simp add: filter_id_conv)
    ultimately show ?thesis using True Cons.prems group_of_group [OF assms(1), of g] by simp
  next
    case False
    then show ?thesis using Cons group_of_group [OF assms(1), of g] by auto
  qed
qed simp

lemma env_take_text:
  assumes "list_all group_ok gs" "distinct (map fst gs)" "(name, es) \<in> set gs"
  shows "fpm_reload_selective_env_take name (env_text gs) =
    (es, env_text (filter (\<lambda>g. fst g \<noteq> name) gs))"
proof -
  have ok: "group_ok (name, es)" using assms(1,3) by (auto simp: list_all_iff)
  have ne: "gs \<noteq> []" using assms(3) by auto
  let ?s = "join_with CHR '';'' (map carry_group gs)"
  have sne: "?s \<noteq> []" using ne by (subst join_with_eq_Nil) (simp_all add: list_all_iff)
  have "split_on CHR '';'' ?s = map carry_group gs"
    using assms(1) carry_group_no_semicolon ne by (intro split_on_join) (auto simp: list_all_iff)
  moreover have "take_groups name (map carry_group gs) =
    (Some (carry_list es), map carry_group (filter (\<lambda>g. fst g \<noteq> name) gs))"
    using ok by (intro take_groups_text assms) (simp add: group_ok_def)
  moreover have "join_with CHR '';'' (map carry_group xs) = [] \<longleftrightarrow> xs = []" for xs
    by (subst join_with_eq_Nil) (simp_all add: list_all_iff)
  moreover have "map parse_carried (carried_pieces (carry_list es)) = es"
    using ok by (intro parse_carry_list) (simp_all add: group_ok_def)
  ultimately show ?thesis using ne sne
    by (cases ?s) (simp_all add: fpm_reload_selective_env_take_def env_text_def Let_def)
qed

section \<open>Detaching\<close>

lemma oldest_child_in: "oldest_child b cs = Some c \<Longrightarrow> c \<in> set cs \<or> b = Some c"
  by (induction b cs rule: oldest_child.induct) (auto split: if_splits)

lemma oldest_child_None: "oldest_child b cs = None \<longleftrightarrow> b = None \<and> cs = []"
  by (induction b cs rule: oldest_child.induct) auto

lemma unlink_pool:
  assumes "wp < length (pools m)"
  shows "children (pool_of (fpm_child_unlink wp c m) wp) = remove1 c (children (pool_of m wp))"
    "config (pool_of (fpm_child_unlink wp c m) wp) = config (pool_of m wp)"
    "length (pools (fpm_child_unlink wp c m)) = length (pools m)"
  using assms by (simp_all add: fpm_child_unlink_def upd_pool_def)

lemma counts_ok_unlink:
  assumes "counts_ok m" "wp < length (pools m)" "c \<in> set (children (pool_of m wp))"
  shows "counts_ok (fpm_child_unlink wp c m)"
proof (rule counts_ok_update [OF assms(1,2)])
  show "pools (fpm_child_unlink wp c m) = (pools m)[wp := (pool_of m wp)\<lparr>
      running_children := running_children (pool_of m wp) - 1,
      children := remove1 c (children (pool_of m wp))\<rparr>]"
    by (simp add: fpm_child_unlink_def upd_pool_def)
  obtain n where "length (children (pool_of m wp)) = Suc n"
    using assms(3) by (cases "children (pool_of m wp)") auto
  then show "running_children ((pool_of m wp)\<lparr>
      running_children := running_children (pool_of m wp) - 1,
      children := remove1 c (children (pool_of m wp))\<rparr>) = int (length (children ((pool_of m wp)\<lparr>
      running_children := running_children (pool_of m wp) - 1,
      children := remove1 c (children (pool_of m wp))\<rparr>)))"
    using counts_ok_pool [OF assms(1,2)] assms(3) by (simp add: length_remove1)
qed (simp add: fpm_child_unlink_def upd_pool_def)

lemma mset_map_remove1:
  "c \<in> set cs \<Longrightarrow> mset (map f cs) = add_mset (f c) (mset (map f (remove1 c cs)))"
  by (induction cs) (auto simp: add_mset_commute)

lemma detach_all_empties:
  assumes "wp < length (pools m)" "length (children (pool_of m wp)) \<le> n" "counts_ok m"
    "detach_all w wp n m = (es, m')"
  shows "children (pool_of m' wp) = [] \<and> counts_ok m' \<and> config (pool_of m' wp) = config (pool_of m wp) \<and>
    mset (map fst es) = mset (map c_pid (children (pool_of m wp))) \<and>
    list_all (\<lambda>e. snd e = w_start_time w (fst e)) es \<and> carry_env m' = carry_env m"
  using assms
proof (induction n arbitrary: m es)
  case 0
  then show ?case by simp
next
  case (Suc n)
  show ?case
  proof (cases "oldest_child None (children (pool_of m wp))")
    case None
    then have "children (pool_of m wp) = []" using oldest_child_None by blast
    with None Suc.prems show ?thesis by (auto simp: fpm_children_detach_oldest_def)
  next
    case (Some c)
    then have c: "c \<in> set (children (pool_of m wp))" using oldest_child_in by force
    let ?m1 = "fpm_child_unlink wp c m"
    obtain es1 where es: "detach_all w wp n ?m1 = (es1, m')" "es = (c_pid c, w_start_time w (c_pid c)) # es1"
      using Suc.prems(4) Some by (auto simp: fpm_children_detach_oldest_def split: prod.splits)
    have len: "length (children (pool_of ?m1 wp)) \<le> n"
      using Suc.prems(1,2) c unlink_pool(1) [of wp m c] by (simp add: length_remove1)
    have "wp < length (pools ?m1)" using Suc.prems(1) unlink_pool(3) by simp
    note IH = Suc.IH [OF this len counts_ok_unlink [OF Suc.prems(3,1) c] es(1)]
    have "mset (map c_pid (children (pool_of m wp))) =
        add_mset (c_pid c) (mset (map c_pid (remove1 c (children (pool_of m wp)))))"
      using c by (rule mset_map_remove1)
    with IH es(2) unlink_pool [OF Suc.prems(1), of c] show ?thesis
      by (simp add: fpm_child_unlink_def upd_pool_def)
  qed
qed

lemma sigterm_entries_kills:
  "list_all carried_ok es \<Longrightarrow>
   pools (sigterm_entries w (map carry_entry es) m) = pools m \<and>
   g_running (sigterm_entries w (map carry_entry es) m) = g_running m \<and>
   set (effects m) \<subseteq> set (effects (sigterm_entries w (map carry_entry es) m)) \<and>
   (\<forall>e \<in> set es. 1 < fst e \<and> w_pid_same w (fst e) (snd e) \<longrightarrow>
      Kill (fst e) SIGTERM \<in> set (effects (sigterm_entries w (map carry_entry es) m)))"
proof (induction es arbitrary: m)
  case (Cons e es)
  let ?m1 = "if fst e > 1 \<and> w_pid_same w (fst e) (snd e) then emit (Kill (fst e) SIGTERM) m else m"
  have e: "carried_ok e" using Cons.prems by simp
  then have "strtol (carry_entry e) = (fst e, ''/'' @ dec (snd e))"
    using strtol_dec [of "nat (fst e)" "''/'' @ dec (snd e)"]
    by (simp add: carry_entry_def dec_int_def carried_ok_def)
  moreover have "to_pid (fst e) = fst e" using e by (simp add: to_pid_def carried_ok_def)
  moreover have "carried_start (''/'' @ dec (snd e)) = snd e"
    using e strtoull_dec [of "snd e"] by (simp add: carried_start_def carried_ok_def)
  ultimately have step: "sigterm_entries w (map carry_entry (e # es)) m = sigterm_entries w (map carry_entry es) ?m1"
    by simp
  have m1: "pools ?m1 = pools m" "g_running ?m1 = g_running m" "set (effects m) \<subseteq> set (effects ?m1)"
    "1 < fst e \<and> w_pid_same w (fst e) (snd e) \<longrightarrow> Kill (fst e) SIGTERM \<in> set (effects ?m1)"
    by (auto simp: emit_def)
  have "list_all carried_ok es" using Cons.prems by simp
  note IH = Cons.IH [OF this, of ?m1]
  show ?case unfolding step using IH m1 by (simp only: list.set insert_iff) blast
qed simp

text \<open>What sparing needs to know of a pool's children: real, live process ids.\<close>

definition sparable :: "world \<Rightarrow> nat \<Rightarrow> master \<Rightarrow> bool" where
  "sparable w wp m \<longleftrightarrow> wp < length (pools m) \<and> counts_ok m \<and>
     list_all (\<lambda>c. 1 < c_pid c \<and> c_pid c < 2 ^ 31 \<and> w_start_time w (c_pid c) < 2 ^ 64 \<and>
       w_pid_same w (c_pid c) (w_start_time w (c_pid c))) (children (pool_of m wp))"

lemma spare_pool_detach:
  assumes "sparable w wp m" "detach_all w wp (length (children (pool_of m wp))) (m\<lparr>tick := n\<rparr>) = (es, m')"
  shows "children (pool_of m' wp) = []" "counts_ok m'" "carry_env m' = carry_env m"
    "c \<in> set (children (pool_of m wp)) \<Longrightarrow> c_pid c \<in> fst ` set es"
    "list_all (\<lambda>e. carried_ok e \<and> 1 < fst e \<and> w_pid_same w (fst e) (snd e)) es"
proof -
  have "counts_ok (m\<lparr>tick := n\<rparr>)" using assms(1) by (simp add: sparable_def counts_ok_def)
  then have d: "children (pool_of m' wp) = []" "counts_ok m'"
    "mset (map fst es) = mset (map c_pid (children (pool_of m wp)))"
    "list_all (\<lambda>e. snd e = w_start_time w (fst e)) es" "carry_env m' = carry_env m"
    using detach_all_empties [OF _ _ _ assms(2)] assms(1) by (simp_all add: sparable_def)
  then show "children (pool_of m' wp) = []" "counts_ok m'" "carry_env m' = carry_env m" by simp_all
  have pids: "fst ` set es = c_pid ` set (children (pool_of m wp))"
    using mset_eq_setD [OF d(3)] by simp
  then show "c \<in> set (children (pool_of m wp)) \<Longrightarrow> c_pid c \<in> fst ` set es" by simp
  show "list_all (\<lambda>e. carried_ok e \<and> 1 < fst e \<and> w_pid_same w (fst e) (snd e)) es"
    unfolding list_all_iff
  proof
    fix e assume e: "e \<in> set es"
    then obtain c where "c \<in> set (children (pool_of m wp))" "fst e = c_pid c"
      using pids by (metis imageE image_eqI)
    with assms(1) d(4) e show "carried_ok e \<and> 1 < fst e \<and> w_pid_same w (fst e) (snd e)"
      by (auto simp: sparable_def list_all_iff carried_ok_def)
  qed
qed

section \<open>Properties\<close>

text \<open>
  C9. The handoff survives the exec: with several pools spared in one reload,
  each under its own name, taking one pool's group out of the variable gives
  exactly the process ids and start times that were listed for it, in order, and
  leaves the variable as if only the other pools had been spared.
\<close>

theorem reload_handoff_roundtrip:
  assumes "list_all group_ok gs" "distinct (map fst gs)" "(name, es) \<in> set gs"
  shows "fpm_reload_selective_env_take name (carry_all gs None) =
    (es, carry_all (filter (\<lambda>g. fst g \<noteq> name) gs) None)"
  unfolding carry_all_text by (rule env_take_text [OF assms])

theorem reload_handoff_roundtrip_witness:
  "fpm_reload_selective_env_take ''api'' (carry_all [(''www'', [(41, 7)]), (''api'', [(42, 8), (43, 0)])] None) =
    ([(42, 8), (43, 0)], Some ''www:41/7'')"
proof -
  have "list_all group_ok [(''www'', [(41, 7)]), (''api'', [(42, 8), (43, 0)])]"
    by (simp add: group_ok_def carried_ok_def fpm_reload_selective_name_ok_def)
  from reload_handoff_roundtrip [OF this, of "''api''" "[(42, 8), (43, 0)]"]
  have "fpm_reload_selective_env_take ''api'' (carry_all [(''www'', [(41, 7)]), (''api'', [(42, 8), (43, 0)])] None) =
    ([(42, 8), (43, 0)], carry_all [(''www'', [(41, 7)])] None)" by simp
  also have "carry_all [(''www'', [(41, 7)])] None = Some ''www:41/7''" by code_simp
  finally show ?thesis .
qed

text \<open>
  C10. Sparing a pool loses no process: afterwards every child the pool had is
  still a child of this master, or is listed for the next generation under the
  pool's name, or was sent \<open>SIGTERM\<close>. When the call reports success the pool has
  no children left to signal, and the counters still agree with the lists.
\<close>

theorem spare_pool_loses_no_child:
  assumes "sparable w wp m" "fpm_reload_selective_spare_pool w wp m = (ok, m')"
    and "c \<in> set (children (pool_of m wp))"
  shows "(c \<in> set (children (pool_of m' wp)) \<or>
      (\<exists>es. carry_env m' = carry_append (p_name (config (pool_of m wp))) es (carry_env m) \<and>
            c_pid c \<in> fst ` set es) \<or>
      Kill (c_pid c) SIGTERM \<in> set (effects m')) \<and>
    (ok \<longrightarrow> children (pool_of m' wp) = []) \<and> counts_ok m'"
proof -
  let ?p = "pool_of m wp" and ?m0 = "m\<lparr>tick := tick m + 1\<rparr>"
  have counts: "counts_ok m" "wp < length (pools m)" using assms(1) by (simp_all add: sparable_def)
  then have run: "running_children ?p \<noteq> 0" using counts_ok_pool assms(3) by fastforce
  obtain es m1 where d: "detach_all w wp (length (children ?p)) ?m0 = (es, m1)" by fastforce
  note det = spare_pool_detach [OF assms(1) d]
  have es: "es \<noteq> []" using det(4) [OF assms(3)] by auto
  have ok: "list_all carried_ok es" using det(5) by (simp add: list_all_iff)
  consider (kept) "ok = False" "m' = m \<or> m' = ?m0"
    | (signalled) "ok = False"
        "m' = sigterm_entries w (map carry_entry es) (m1\<lparr>tick := tick m1 + 1\<rparr>)"
    | (carried) "ok"
        "m' = m1\<lparr>carry_env := carry_append (p_name (config ?p)) es (carry_env m1), tick := tick m1 + 1\<rparr>"
  proof (cases "fpm_reload_selective_name_ok (p_name (config ?p)) \<and> w_alloc w (tick m)")
    case False
    have "fpm_reload_selective_spare_pool w wp m = (False, m)"
      if "\<not> fpm_reload_selective_name_ok (p_name (config ?p))"
      using that by (simp add: fpm_reload_selective_spare_pool_def)
    moreover have "fpm_reload_selective_spare_pool w wp m = (False, ?m0)"
      if "fpm_reload_selective_name_ok (p_name (config ?p))" "\<not> w_alloc w (tick m)"
      using that run by (simp add: fpm_reload_selective_spare_pool_def)
    ultimately have "fpm_reload_selective_spare_pool w wp m = (False, m) \<or>
        fpm_reload_selective_spare_pool w wp m = (False, ?m0)" using False by blast
    then show thesis using that(1) unfolding assms(2) prod.inject by blast
  next
    case True
    then have "(ok, m') = (if \<not> w_alloc w (tick m1)
        then (False, fpm_reload_selective_sigterm_list w (carry_list es) (m1\<lparr>tick := tick m1 + 1\<rparr>))
        else (True, m1\<lparr>carry_env := carry_append (p_name (config ?p)) es (carry_env m1), tick := tick m1 + 1\<rparr>))"
      using assms(2) run d es by (simp add: fpm_reload_selective_spare_pool_def Let_def)
    then show thesis using that(2,3) carried_pieces_list [OF es ok]
      by (simp add: fpm_reload_selective_sigterm_list_def split: if_splits)
  qed
  then show ?thesis
  proof cases
    case kept
    have "counts_ok ?m0" using counts by (simp add: counts_ok_def)
    with kept show ?thesis using assms(3) counts by (elim disjE) simp_all
  next
    case signalled
    obtain e where e: "e \<in> set es" "fst e = c_pid c" using det(4) [OF assms(3)] by auto
    then have "1 < fst e \<and> w_pid_same w (fst e) (snd e)" using det(5) unfolding list_all_iff by blast
    moreover have "counts_ok m'"
      using sigterm_entries_kills [OF ok, of w "m1\<lparr>tick := tick m1 + 1\<rparr>"] det(2) signalled(2)
      by (simp add: counts_ok_def)
    ultimately show ?thesis
      using sigterm_entries_kills [OF ok, of w "m1\<lparr>tick := tick m1 + 1\<rparr>"] signalled e by metis
  next
    case carried
    have "counts_ok m'" "children (pool_of m' wp) = []" "carry_env m' = carry_append (p_name (config ?p)) es (carry_env m)"
      using carried(2) det(1-3) by (simp_all add: counts_ok_def)
    with det(4) [OF assms(3)] show ?thesis by blast
  qed
qed

theorem spare_pool_loses_no_child_witness:
  "\<exists>m'. fpm_reload_selective_spare_pool quiet_world 0 (start_master [quiet_pool [77, 78]]) = (True, m') \<and>
     (\<exists>es. carry_env m' = carry_append ''www'' es None \<and> 78 \<in> fst ` set es)"
proof -
  let ?m = "start_master [quiet_pool [77, 78]]"
  have s: "sparable quiet_world 0 ?m" by code_simp
  obtain ok m' where r: "fpm_reload_selective_spare_pool quiet_world 0 ?m = (ok, m')" by fastforce
  have ok: "fst (fpm_reload_selective_spare_pool quiet_world 0 ?m)"
    "Kill 78 SIGTERM \<notin> set (effects (snd (fpm_reload_selective_spare_pool quiet_world 0 ?m)))"
    by code_simp+
  let ?c = "\<lparr>c_pid = 78, c_started = timerclear, c_idle_kill = False\<rparr>"
  have "?c \<in> set (children (pool_of ?m 0))" "p_name (config (pool_of ?m 0)) = ''www''" "carry_env ?m = None"
    by code_simp+
  with spare_pool_loses_no_child [OF s r, of ?c] ok r show ?thesis by auto
qed

end
