(* ===== verification/Process_Ctl.thy ===== *)
theory Process_Ctl
  imports Reload_Selective
begin

text \<open>
  The master's process control (\<open>fpm_process_ctl.c\<close>, \<open>fpm_pctl_window.c\<close>): the
  state machine of stop and reload, the signal passes over the pools, the hold
  for a gateway's readiness window, and the maintenance of idle children. A call
  that ends the master process sets \<open>ended\<close>; what follows it in the code is not
  executed.
\<close>

definition SIGQUIT :: int where "SIGQUIT = 3"
definition SIGKILL :: int where "SIGKILL = 9"
definition SIGUSR1 :: int where "SIGUSR1 = 10"

section \<open>The window\<close>

definition fpm_pctl_window_take_held :: "master \<Rightarrow> int \<times> master" where
  "fpm_pctl_window_take_held m = (held_signo m, m\<lparr>held_signo := 0\<rparr>)"

definition fpm_pctl_window_reset :: "master \<Rightarrow> master" where
  "fpm_pctl_window_reset m = m\<lparr>held_signo := 0\<rparr>"

definition fpm_pctl_window_escalate :: "master \<Rightarrow> master" where
  "fpm_pctl_window_escalate m = m\<lparr>escalated := True\<rparr>"

definition fpm_pctl_window_hold_pool :: "world \<Rightarrow> nat \<Rightarrow> int \<Rightarrow> bool \<Rightarrow> master \<Rightarrow> bool \<times> master" where
  "fpm_pctl_window_hold_pool w wp signo stopping_first_pass m =
     (if \<not> stopping_first_pass \<or> escalated m \<or> \<not> fpm_http_pool_held_for_window w wp m then (False, m)
      else (True, m\<lparr>held_signo := signo\<rparr>))"

section \<open>The end of the master\<close>

definition fpm_pctl_exit :: "world \<Rightarrow> master \<Rightarrow> master" where
  "fpm_pctl_exit w m =
     (emit (Master_Exit 0) (fpm_reload_selective_discard_unadopted w m))\<lparr>ended := True\<rparr>"

text \<open>A successful exec does not return; a failed one, after the fallback, ends the process with 70.\<close>

definition fpm_pctl_exec :: "world \<Rightarrow> master \<Rightarrow> master" where
  "fpm_pctl_exec w m =
     (if w_exec_fails w
      then (emit (Master_Exit 70) (fpm_reload_selective_discard_unadopted w (emit Master_Exec m)))
      else emit Master_Exec m)\<lparr>ended := True\<rparr>"

definition fpm_pctl_action_last :: "world \<Rightarrow> master \<Rightarrow> master" where
  "fpm_pctl_action_last w m =
     (if fpm_pctl_window_open m then m
      else (case fpm_state m of
              Reloading \<Rightarrow> fpm_pctl_exec w m
            | Finishing \<Rightarrow> fpm_pctl_exit w m
            | Terminating \<Rightarrow> fpm_pctl_exit w m
            | Normal \<Rightarrow> m))"

section \<open>Signal passes\<close>

definition fpm_pool_supervisor_reload_spare_child :: "nat \<Rightarrow> master \<Rightarrow> master" where
  "fpm_pool_supervisor_reload_spare_child wp m =
     (if running_children (pool_of m wp) < 2 then m
      else (case map_of (registry m) wp of
              Some True \<Rightarrow> m
            | None \<Rightarrow> m
            | Some False \<Rightarrow>
                if list_ex (\<lambda>c. c = CHR '':'' \<or> c = CHR '','') (p_name (config (pool_of m wp))) then m
                else (case fpm_children_detach_oldest wp m of
                        (None, m) \<Rightarrow> m
                      | (Some c, m) \<Rightarrow> m\<lparr>fresh_spare := AList.update wp (c_pid c) (fresh_spare m)\<rparr>)))"

definition child_signo :: "int \<Rightarrow> fpm_worker_pool_s \<Rightarrow> pctl_state \<Rightarrow> int" where
  "child_signo signo p state =
     (let t = ptype p;
          s = (if state = Reloading \<and> signo = SIGQUIT \<and> \<not> serves_requests t \<and> has_child_main t
               then SIGTERM else signo)
      in if s = SIGTERM
         then (case stop_signal t of Some v \<Rightarrow> if v > 0 then v else s | None \<Rightarrow> s)
         else s)"

definition signal_children :: "int \<Rightarrow> nat \<Rightarrow> master \<Rightarrow> master" where
  "signal_children signo wp m =
     m\<lparr>effects := effects m @
        map (\<lambda>c. Kill (c_pid c) (child_signo signo (pool_of m wp) (fpm_state m))) (children (pool_of m wp))\<rparr>"

definition kill_pool :: "world \<Rightarrow> int \<Rightarrow> bool \<Rightarrow> nat \<Rightarrow> master \<Rightarrow> master" where
  "kill_pool w signo selective_pass wp m =
     (let (spared, m) =
            (if selective_pass \<and> w_unchanged w (p_name (config (pool_of m wp)))
             then fpm_reload_selective_spare_pool w wp m else (False, m))
      in
      if spared then m
      else
        let m = (if fpm_state m = Reloading \<and> signal_sent m = 0 \<and> reload_spare_child (ptype (pool_of m wp))
                 then fpm_pool_supervisor_reload_spare_child wp m else m)
        in
        if deferred_release m
        then (if \<not> fpm_http_pool_routed_by_ready_gateway wp m then m else signal_children signo wp m)
        else
          let (hold, m) = fpm_pctl_window_hold_pool w wp signo (fpm_state m \<noteq> Normal \<and> signal_sent m = 0) m
          in if hold then m else signal_children signo wp m)"

definition fpm_pctl_kill_all :: "world \<Rightarrow> int \<Rightarrow> master \<Rightarrow> master" where
  "fpm_pctl_kill_all w signo m =
     (let ask = (fpm_state m = Reloading \<and> signal_sent m = 0 \<and> reload_selective w);
          selective_pass = (ask \<and> w_diff_trusted w (tick m));
          m = (if ask then m\<lparr>tick := tick m + 1\<rparr> else m);
          m = (if signal_sent m = 0 then fpm_pctl_window_reset m else m)
      in fold (kill_pool w signo selective_pass) [0..<length (pools m)] m)"

definition fpm_pctl_release_deferred :: "world \<Rightarrow> master \<Rightarrow> master" where
  "fpm_pctl_release_deferred w m =
     (let (signo, m) = fpm_pctl_window_take_held m in
      if signo = 0 then m
      else
        let m = (fpm_pctl_kill_all w signo (m\<lparr>deferred_release := True\<rparr>))\<lparr>deferred_release := False\<rparr> in
        if g_running m = 0 then fpm_pctl_action_last w m
        else emit (Arm_Pctl (process_control_timeout w * 1000)) m)"

definition fpm_pctl_action_next :: "world \<Rightarrow> master \<Rightarrow> master" where
  "fpm_pctl_action_next w m =
     (let m = (if g_running m = 0 then fpm_pctl_action_last w m else m) in
      if ended m then m
      else if signal_sent m \<noteq> 0 \<and> held_signo m \<noteq> 0 then fpm_pctl_release_deferred w m
      else
        let (sig, timeout) =
              (if signal_sent m = 0
               then (if fpm_state m = Terminating then SIGTERM else SIGQUIT, process_control_timeout w)
               else (if signal_sent m = SIGQUIT then SIGTERM else SIGKILL, 1))
        in emit (Arm_Pctl (timeout * 1000)) ((fpm_pctl_kill_all w sig m)\<lparr>signal_sent := sig\<rparr>))"

section \<open>The state machine\<close>

datatype pctl_action = Action_Set pctl_state | Action_Timeout | Action_Last_Child_Exited

definition overridable :: "pctl_state \<Rightarrow> pctl_state \<Rightarrow> bool" where
  "overridable old new =
     (case old of
        Normal \<Rightarrow> True
      | Reloading \<Rightarrow> new = Finishing \<or> new = Terminating
      | Finishing \<Rightarrow> new = Terminating
      | Terminating \<Rightarrow> False)"

definition fpm_http_gateways_soft_drain :: "master \<Rightarrow> master" where
  "fpm_http_gateways_soft_drain m =
     m\<lparr>effects := effects m @
        concat (map (\<lambda>gw. if ready_path gw
                          then map (\<lambda>s. Kill (gw_pid s) SIGUSR1) (filter (\<lambda>s. gw_pid s > 0) (slots gw))
                          else []) (gateways m))\<rparr>"

definition notify_state :: "pctl_state \<Rightarrow> master \<Rightarrow> master" where
  "notify_state s m =
     (case s of
        Reloading \<Rightarrow> emit Notify_Reloading m
      | Finishing \<Rightarrow> emit Notify_Stopping m
      | Terminating \<Rightarrow> emit Notify_Stopping m
      | Normal \<Rightarrow> m)"

definition fpm_pctl :: "world \<Rightarrow> pctl_action \<Rightarrow> master \<Rightarrow> master" where
  "fpm_pctl w action m =
     (case action of
        Action_Set new_state \<Rightarrow>
          if fpm_state m = new_state then m
          else if \<not> overridable (fpm_state m) new_state then m
          else if new_state = Reloading \<and> \<not> w_config_loads w (tick m)
          then emit Notify_Reload_Refused (m\<lparr>tick := tick m + 1\<rparr>)
          else
            let m = (if new_state = Reloading then m\<lparr>tick := tick m + 1\<rparr> else m);
                m = (if fpm_state m \<noteq> Normal then fpm_pctl_window_escalate m else m);
                m = m\<lparr>signal_sent := 0, fpm_state := new_state\<rparr>;
                m = fpm_http_gateways_soft_drain (notify_state new_state m)
            in fpm_pctl_action_next w m
      | Action_Timeout \<Rightarrow> fpm_pctl_action_next w m
      | Action_Last_Child_Exited \<Rightarrow> fpm_pctl_action_last w m)"

definition fpm_pctl_child_exited :: "world \<Rightarrow> master \<Rightarrow> master" where
  "fpm_pctl_child_exited w m =
     (if fpm_state m = Normal then m
      else if g_running m = 0 then fpm_pctl w Action_Last_Child_Exited m
      else m)"

section \<open>Scaling down\<close>

definition fpm_scale_down_drain_remember :: "int \<Rightarrow> timeval \<Rightarrow> master \<Rightarrow> master" where
  "fpm_scale_down_drain_remember pid now m = m\<lparr>drain_list := (pid, now) # drain_list m\<rparr>"

definition fpm_scale_down_drain_elapsed_ms :: "int \<Rightarrow> timeval \<Rightarrow> master \<Rightarrow> int option" where
  "fpm_scale_down_drain_elapsed_ms pid now m =
     (case map_of (drain_list m) pid of
        None \<Rightarrow> None
      | Some since \<Rightarrow> let diff = timersub now since in Some (tv_sec diff * 1000 + tv_usec diff div 1000))"

fun drain_remove :: "int \<Rightarrow> (int \<times> timeval) list \<Rightarrow> (int \<times> timeval) list" where
  "drain_remove pid [] = []"
| "drain_remove pid (e # es) = (if fst e = pid then es else e # drain_remove pid es)"

definition fpm_scale_down_drain_forget :: "int \<Rightarrow> master \<Rightarrow> master" where
  "fpm_scale_down_drain_forget pid m = m\<lparr>drain_list := drain_remove pid (drain_list m)\<rparr>"

definition fpm_pctl_kill_idle_child :: "world \<Rightarrow> nat \<Rightarrow> fpm_child_s \<Rightarrow> master \<Rightarrow> master" where
  "fpm_pctl_kill_idle_child w wp c m =
     (let p = pool_of m wp; drains = scale_down_drains (ptype p) in
      if c_idle_kill c then
        (if drains then
           let (now, m) = fpm_clock_get w m in
           case fpm_scale_down_drain_elapsed_ms (c_pid c) now m of
             Some elapsed \<Rightarrow>
               if elapsed < http_read_timeout (config p) then m
               else emit (Kill (c_pid c) SIGKILL) (fpm_scale_down_drain_forget (c_pid c) m)
           | None \<Rightarrow> emit (Kill (c_pid c) SIGKILL) (fpm_scale_down_drain_forget (c_pid c) m)
         else emit (Kill (c_pid c) SIGKILL) m)
      else
        let m = upd_pool wp (\<lambda>p. p\<lparr>children :=
                  map (\<lambda>x. if x = c then c\<lparr>c_idle_kill := True\<rparr> else x) (children p)\<rparr>) m in
        if drains then
          let (now, m) = fpm_clock_get w m in
          emit (Kill (c_pid c) SIGUSR1) (fpm_scale_down_drain_remember (c_pid c) now m)
        else emit (Kill (c_pid c) SIGQUIT) m)"

definition set_rate :: "nat \<Rightarrow> int \<Rightarrow> master \<Rightarrow> master" where
  "set_rate wp r m = upd_pool wp (\<lambda>p. p\<lparr>idle_spawn_rate := r\<rparr>) m"

definition set_warn :: "nat \<Rightarrow> bool \<Rightarrow> master \<Rightarrow> master" where
  "set_warn wp b m = upd_pool wp (\<lambda>p. p\<lparr>warn_max_children := b\<rparr>) m"

text \<open>The part of the maintenance for a dynamic pool with too few idle children.\<close>

definition spawn_idle :: "world \<Rightarrow> nat \<Rightarrow> int \<Rightarrow> master \<Rightarrow> master" where
  "spawn_idle w wp idle m =
     (let (ok, m) = fpm_crash_backoff_may_spawn w wp m; p = pool_of m wp; cfg = config p in
      if \<not> ok then set_rate wp 1 m
      else if running_children p \<ge> pm_max_children cfg then set_rate wp 1 (set_warn wp True m)
      else
        let children_to_fork = min (idle_spawn_rate p) (pm_min_spare_servers cfg - idle);
            children_to_fork = min children_to_fork (pm_max_children cfg - running_children p)
        in
        if children_to_fork \<le> 0 then set_rate wp 1 (set_warn wp True m)
        else
          let m = snd (fpm_children_make w wp True children_to_fork (set_warn wp False m)) in
          if is_child m then m
          else if idle_spawn_rate (pool_of m wp) < pm_max_spawn_rate cfg
          then set_rate wp (idle_spawn_rate (pool_of m wp) * 2) m
          else m)"

definition maintain_pool :: "world \<Rightarrow> nat \<Rightarrow> master \<Rightarrow> master" where
  "maintain_pool w wp m =
     (if is_child m then m
      else
      let p = pool_of m wp; cfg = config p;
          idles = filter (\<lambda>c. w_idle w (tick m) (c_pid c)) (children p);
          last_idle = oldest_child None idles; idle = int (length idles);
          m = m\<lparr>tick := tick m + 1\<rparr>
      in
      case pm cfg of
        PM_STYLE_ONDEMAND \<Rightarrow>
          (case last_idle of
             None \<Rightarrow> m
           | Some c \<Rightarrow>
               let last = w_last_activity w (tick m) (c_pid c); (now, m) = fpm_clock_get w m in
               if tv_sec last < tv_sec now - pm_process_idle_timeout cfg
               then fpm_pctl_kill_idle_child w wp c m else m)
      | PM_STYLE_STATIC \<Rightarrow> m
      | PM_STYLE_DYNAMIC \<Rightarrow>
          (case last_idle of
             Some c \<Rightarrow>
               if idle > pm_max_spare_servers cfg
               then set_rate wp 1 (fpm_pctl_kill_idle_child w wp c m)
               else if idle < pm_min_spare_servers cfg then spawn_idle w wp idle m
               else set_rate wp 1 m
           | None \<Rightarrow>
               if idle < pm_min_spare_servers cfg then spawn_idle w wp idle m else set_rate wp 1 m))"

definition fpm_pctl_perform_idle_server_maintenance :: "world \<Rightarrow> master \<Rightarrow> master" where
  "fpm_pctl_perform_idle_server_maintenance w m = fold (maintain_pool w) [0..<length (pools m)] m"

definition fpm_pctl_perform_idle_server_maintenance_heartbeat :: "world \<Rightarrow> master \<Rightarrow> master" where
  "fpm_pctl_perform_idle_server_maintenance_heartbeat w m =
     (if fpm_pctl_can_spawn_children m then fpm_pctl_perform_idle_server_maintenance w m else m)"

definition fpm_pctl_on_socket_accept :: "world \<Rightarrow> nat \<Rightarrow> master \<Rightarrow> master" where
  "fpm_pctl_on_socket_accept w wp m =
     (let m = upd_pool wp (\<lambda>p. p\<lparr>socket_event_set := False\<rparr>) m; p = pool_of m wp in
      if running_children p \<ge> pm_max_children (config p) then set_warn wp True m
      else if list_ex (\<lambda>c. w_idle w (tick m) (c_pid c)) (children p) then m\<lparr>tick := tick m + 1\<rparr>
      else snd (fpm_children_make w wp True 1 (set_warn wp False (m\<lparr>tick := tick m + 1\<rparr>))))"

section \<open>What the helper operations keep\<close>

text \<open>
  A transitive frame for operations that neither end the master nor change its
  state: the counters stay right, the pools stay in place with their
  configuration, and the control variables are untouched.
\<close>

definition calm :: "master \<Rightarrow> master \<Rightarrow> bool" where
  "calm m m' \<longleftrightarrow>
     (counts_ok m \<longrightarrow> counts_ok m') \<and>
     map config (pools m') = map config (pools m) \<and> map ptype (pools m') = map ptype (pools m) \<and>
     fpm_state m' = fpm_state m \<and> signal_sent m' = signal_sent m \<and> escalated m' = escalated m \<and>
     deferred_release m' = deferred_release m \<and> gateways m' = gateways m \<and> ended m' = ended m"

lemma calm_refl [simp]: "calm m m"
  by (simp add: calm_def)

lemma calm_trans: "calm a b \<Longrightarrow> calm b c \<Longrightarrow> calm a c"
  unfolding calm_def by (metis (no_types))

lemma calm_length: "calm m m' \<Longrightarrow> length (pools m') = length (pools m)"
  unfolding calm_def by (metis length_map)

lemma calm_same_pools:
  assumes "pools m' = pools m" "g_running m' = g_running m" "fpm_state m' = fpm_state m"
    "signal_sent m' = signal_sent m" "escalated m' = escalated m"
    "deferred_release m' = deferred_release m" "gateways m' = gateways m" "ended m' = ended m"
  shows "calm m m'"
  using assms by (simp add: calm_def counts_ok_def)

lemma calm_emit [simp]: "calm m (emit x m)"
  by (rule calm_same_pools) (simp_all add: emit_def)

lemma calm_effects [simp]: "calm m (m\<lparr>effects := es\<rparr>)"
  by (rule calm_same_pools) simp_all

lemma calm_tick [simp]: "calm m (m\<lparr>tick := n\<rparr>)"
  by (rule calm_same_pools) simp_all

lemma calm_held [simp]: "calm m (m\<lparr>held_signo := n\<rparr>)"
  by (rule calm_same_pools) simp_all

lemma calm_carry [simp]: "calm m (m\<lparr>carry_env := e\<rparr>)"
  by (rule calm_same_pools) simp_all

lemma calm_fold:
  assumes "\<And>x m. x \<in> set xs \<Longrightarrow> length (pools m) = n \<Longrightarrow> calm m (f x m)" "length (pools m) = n"
  shows "calm m (fold f xs m)"
  using assms
proof (induction xs arbitrary: m)
  case (Cons x xs)
  then have "calm m (f x m)" by simp
  moreover from this have "length (pools (f x m)) = n" using calm_length Cons.prems(2) by metis
  ultimately show ?case using Cons calm_trans by (metis (no_types, lifting) fold_simps(2) list.set_intros(2))
qed simp

text \<open>An update of one pool that keeps its children and its configuration.\<close>

lemma calm_upd_pool:
  assumes "\<And>p. config (f p) = config p" "\<And>p. ptype (f p) = ptype p"
    "\<And>p. running_children (f p) = running_children p" "\<And>p. length (children (f p)) = length (children p)"
  shows "calm m (upd_pool wp f m)"
proof (cases "wp < length (pools m)")
  case True
  have "counts_ok m \<Longrightarrow> counts_ok (upd_pool wp f m)"
    using counts_ok_update [of m wp "f (pool_of m wp)" "upd_pool wp f m"] True assms counts_ok_pool
    by (simp add: upd_pool_def)
  moreover have "map config (pools (upd_pool wp f m)) = map config (pools m)"
    "map ptype (pools (upd_pool wp f m)) = map ptype (pools m)"
    using True assms by (auto intro!: nth_equalityI simp: upd_pool_def nth_list_update)
  ultimately show ?thesis by (simp add: calm_def upd_pool_def)
next
  case False
  then have "pools (upd_pool wp f m) = pools m" by (simp add: upd_pool_def list_update_beyond)
  then show ?thesis by (intro calm_same_pools) (simp_all add: upd_pool_def)
qed

lemma calm_unlink:
  assumes "wp < length (pools m)" "c \<in> set (children (pool_of m wp))"
  shows "calm m (fpm_child_unlink wp c m)"
proof -
  have "map config (pools (fpm_child_unlink wp c m)) = map config (pools m)"
    "map ptype (pools (fpm_child_unlink wp c m)) = map ptype (pools m)"
    using assms(1) by (auto intro!: nth_equalityI simp: fpm_child_unlink_def upd_pool_def nth_list_update)
  then show ?thesis using counts_ok_unlink [OF _ assms]
    by (simp add: calm_def fpm_child_unlink_def upd_pool_def)
qed

lemma calm_detach_oldest:
  assumes "wp < length (pools m)"
  shows "calm m (snd (fpm_children_detach_oldest wp m))"
proof (cases "oldest_child None (children (pool_of m wp))")
  case None
  then show ?thesis by (simp add: fpm_children_detach_oldest_def)
next
  case (Some c)
  then have "c \<in> set (children (pool_of m wp))" using oldest_child_in by force
  with Some assms show ?thesis by (simp add: fpm_children_detach_oldest_def calm_unlink)
qed

lemma calm_detach_all:
  "wp < length (pools m) \<Longrightarrow> calm m (snd (detach_all w wp n m))"
proof (induction n arbitrary: m)
  case (Suc n)
  obtain co m1 where d: "fpm_children_detach_oldest wp m = (co, m1)" by fastforce
  then have c1: "calm m m1" using calm_detach_oldest [OF Suc.prems] by simp
  then have "calm m1 (snd (detach_all w wp n m1))" using Suc calm_length by metis
  with c1 d show ?case by (cases co) (auto intro: calm_trans simp: case_prod_beta)
qed simp

lemma calm_sigterm_entries: "calm m (sigterm_entries w ss m)"
proof (induction ss arbitrary: m)
  case (Cons s ss)
  show ?case by (auto simp: case_prod_beta Let_def intro: calm_trans [OF calm_emit] Cons.IH)
qed simp

lemma calm_sigterm_groups: "calm m (sigterm_groups w gs m)"
proof (induction gs arbitrary: m)
  case (Cons g gs)
  have "calm m (case group_list g of None \<Rightarrow> m | Some l \<Rightarrow> fpm_reload_selective_sigterm_list w l m)"
    by (simp add: fpm_reload_selective_sigterm_list_def calm_sigterm_entries split: option.split)
  then show ?case using Cons.IH calm_trans by simp
qed simp

lemma calm_discard: "calm m (fpm_reload_selective_discard_unadopted w m)"
  unfolding fpm_reload_selective_discard_unadopted_def fpm_reload_selective_sigterm_carried_def
  using calm_trans [OF calm_carry calm_sigterm_groups] by (auto split: option.split list.split)

lemma calm_spare_pool:
  assumes "wp < length (pools m)"
  shows "calm m (snd (fpm_reload_selective_spare_pool w wp m))"
proof -
  obtain es m1 where d: "detach_all w wp (length (children (pool_of m wp))) (m\<lparr>tick := tick m + 1\<rparr>) = (es, m1)"
    by fastforce
  have c1: "calm m m1"
    using calm_detach_all [of wp "m\<lparr>tick := tick m + 1\<rparr>"] assms d calm_trans [OF calm_tick] by (metis calm_length calm_tick snd_conv)
  have "calm m1 (m1\<lparr>carry_env := e, tick := n\<rparr>)" for e n
    by (rule calm_same_pools) simp_all
  moreover have "calm m1 (fpm_reload_selective_sigterm_list w l (m1\<lparr>tick := n\<rparr>))" for l n
    unfolding fpm_reload_selective_sigterm_list_def using calm_trans [OF calm_tick calm_sigterm_entries] .
  ultimately show ?thesis using d c1
    by (simp add: fpm_reload_selective_spare_pool_def Let_def) (metis calm_trans)
qed


lemma calm_supervisor_spare:
  assumes "wp < length (pools m)"
  shows "calm m (fpm_pool_supervisor_reload_spare_child wp m)"
proof -
  obtain co m1 where d: "fpm_children_detach_oldest wp m = (co, m1)" by fastforce
  then have c1: "calm m m1" using calm_detach_oldest [OF assms] by simp
  have "calm m1 (m1\<lparr>fresh_spare := f\<rparr>)" for f by (rule calm_same_pools) simp_all
  then have "calm m (m1\<lparr>fresh_spare := f\<rparr>)" for f by (rule calm_trans [OF c1])
  with d c1 show ?thesis
    by (simp add: fpm_pool_supervisor_reload_spare_child_def split: option.split bool.split)
qed

lemma calm_hold_pool: "calm m (snd (fpm_pctl_window_hold_pool w wp signo b m))"
  by (simp add: fpm_pctl_window_hold_pool_def)

lemma calm_kill_pool:
  assumes "wp < length (pools m)"
  shows "calm m (kill_pool w signo sel wp m)"
proof -
  obtain sp m1 where s: "(if sel \<and> w_unchanged w (p_name (config (pool_of m wp)))
      then fpm_reload_selective_spare_pool w wp m else (False, m)) = (sp, m1)" by fastforce
  then have c1: "calm m m1"
    using calm_spare_pool [OF assms, of w] by (auto split: if_splits)
  define m2 where "m2 = (if fpm_state m1 = Reloading \<and> signal_sent m1 = 0 \<and> reload_spare_child (ptype (pool_of m1 wp))
      then fpm_pool_supervisor_reload_spare_child wp m1 else m1)"
  have "wp < length (pools m1)" using c1 calm_length assms by metis
  then have c2: "calm m m2" unfolding m2_def using c1 calm_trans [OF c1 calm_supervisor_spare] by simp
  obtain h m3 where h: "fpm_pctl_window_hold_pool w wp signo (fpm_state m2 \<noteq> Normal \<and> signal_sent m2 = 0) m2 = (h, m3)"
    by fastforce
  then have c3: "calm m m3" using calm_trans [OF c2 calm_hold_pool, of w wp signo] by (metis snd_conv)
  have sig: "calm x (signal_children signo wp x)" for x by (simp add: signal_children_def)
  have "kill_pool w signo sel wp m =
      (if sp then m1
       else if deferred_release m2
       then (if \<not> fpm_http_pool_routed_by_ready_gateway wp m2 then m2 else signal_children signo wp m2)
       else if h then m3 else signal_children signo wp m3)"
    unfolding kill_pool_def s by (simp add: m2_def [symmetric] h)
  then show ?thesis using c1 c2 c3 calm_trans [OF c2 sig] calm_trans [OF c3 sig] by simp
qed

lemma calm_kill_all: "calm m (fpm_pctl_kill_all w signo m)"
proof -
  define m1 where "m1 = (if fpm_state m = Reloading \<and> signal_sent m = 0 \<and> reload_selective w
    then m\<lparr>tick := tick m + 1\<rparr> else m)"
  define m2 where "m2 = (if signal_sent m1 = 0 then fpm_pctl_window_reset m1 else m1)"
  have c: "calm m m1" "calm m1 m2" by (simp_all add: m1_def m2_def fpm_pctl_window_reset_def)
  have "calm m2 (fold (kill_pool w signo sel) [0..<length (pools m2)] m2)" for sel
    by (rule calm_fold [where n = "length (pools m2)"]) (auto intro: calm_kill_pool)
  then have "calm m (fold (kill_pool w signo sel) [0..<length (pools m2)] m2)" for sel
    by (rule calm_trans [OF calm_trans [OF c]])
  then show ?thesis unfolding fpm_pctl_kill_all_def Let_def m1_def m2_def by simp
qed

section \<open>The state machine keeps its order\<close>

fun pctl_rank :: "pctl_state \<Rightarrow> nat" where
  "pctl_rank Normal = 0"
| "pctl_rank Reloading = 1"
| "pctl_rank Finishing = 2"
| "pctl_rank Terminating = 3"

lemma overridable_rank: "overridable old new \<Longrightarrow> old \<noteq> new \<Longrightarrow> pctl_rank old < pctl_rank new"
  by (cases old; cases new) (simp_all add: overridable_def)

text \<open>
  The invariant of the master: counters and lists agree, and the process has
  ended only in a stop or reload, with no child left and no window open.
\<close>

definition master_ok :: "nat \<Rightarrow> master \<Rightarrow> bool" where
  "master_ok n m \<longleftrightarrow> counts_ok m \<and> length (pools m) = n \<and>
     (ended m \<longrightarrow> g_running m = 0 \<and> fpm_state m \<noteq> Normal \<and> \<not> fpm_pctl_window_open m)"

lemma master_ok_calm: "master_ok n m \<Longrightarrow> \<not> ended m \<Longrightarrow> calm m m' \<Longrightarrow> master_ok n m'"
  using calm_length by (auto simp: master_ok_def calm_def)

lemma g_running_calm_same:
  "g_running (fpm_reload_selective_discard_unadopted w m) = g_running m \<and>
   held_signo (fpm_reload_selective_discard_unadopted w m) = held_signo m"
proof -
  have e: "g_running (sigterm_entries w ss m) = g_running m \<and> held_signo (sigterm_entries w ss m) = held_signo m" for ss m
    by (induction ss arbitrary: m) (simp_all add: case_prod_beta Let_def emit_def)
  have "g_running (sigterm_groups w gs m) = g_running m \<and> held_signo (sigterm_groups w gs m) = held_signo m" for gs m
    by (induction gs arbitrary: m)
      (simp_all add: fpm_reload_selective_sigterm_list_def e split: option.split)
  then show ?thesis
    by (simp add: fpm_reload_selective_discard_unadopted_def fpm_reload_selective_sigterm_carried_def
        split: option.split list.split)
qed

lemma window_open_cong:
  "held_signo m' = held_signo m \<Longrightarrow> gateways m' = gateways m \<Longrightarrow> fpm_pctl_window_open m' = fpm_pctl_window_open m"
  by (simp add: fpm_pctl_window_open_def fpm_http_ready_gateways_alive_def)

lemma end_ok:
  assumes "master_ok n m" "g_running m = 0" "\<not> fpm_pctl_window_open m" "fpm_state m \<noteq> Normal"
    and "calm m m'" "g_running m' = g_running m" "held_signo m' = held_signo m"
  shows "master_ok n (m'\<lparr>ended := True\<rparr>)"
proof -
  have "fpm_pctl_window_open (m'\<lparr>ended := True\<rparr>) = fpm_pctl_window_open m"
    using assms by (intro window_open_cong) (simp_all add: calm_def)
  moreover have "length (pools m') = length (pools m)" using assms(5) by (rule calm_length)
  ultimately show ?thesis using assms by (auto simp: master_ok_def calm_def counts_ok_def)
qed

lemma action_last_ok:
  assumes "master_ok n m" "g_running m = 0"
  shows "master_ok n (fpm_pctl_action_last w m) \<and> fpm_state (fpm_pctl_action_last w m) = fpm_state m"
proof (cases "fpm_pctl_window_open m \<or> fpm_state m = Normal")
  case True
  then show ?thesis using assms by (auto simp: fpm_pctl_action_last_def)
next
  case False
  define me where "me = emit (Master_Exit 0) (fpm_reload_selective_discard_unadopted w m)"
  define mx where "mx = (if w_exec_fails w
      then emit (Master_Exit 70) (fpm_reload_selective_discard_unadopted w (emit Master_Exec m))
      else emit Master_Exec m)"
  have "calm m me" unfolding me_def by (rule calm_trans [OF calm_discard calm_emit])
  moreover have "calm m mx" unfolding mx_def
    using calm_trans [OF calm_emit calm_trans [OF calm_discard calm_emit]] by simp
  moreover have "g_running me = g_running m \<and> held_signo me = held_signo m"
    "g_running mx = g_running m \<and> held_signo mx = held_signo m"
    unfolding me_def mx_def by (simp_all add: g_running_calm_same emit_def)
  ultimately have "master_ok n (me\<lparr>ended := True\<rparr>)" "master_ok n (mx\<lparr>ended := True\<rparr>)"
    "fpm_state me = fpm_state m" "fpm_state mx = fpm_state m"
    using end_ok [OF assms] False by (auto simp: calm_def)
  then show ?thesis using False
    by (cases "fpm_state m")
       (simp_all add: fpm_pctl_action_last_def fpm_pctl_exit_def fpm_pctl_exec_def me_def mx_def)
qed


lemma master_ok_simps [simp]:
  "master_ok n (m\<lparr>deferred_release := b\<rparr>) = master_ok n m"
  "master_ok n (m\<lparr>signal_sent := s\<rparr>) = master_ok n m"
  "master_ok n (m\<lparr>tick := t\<rparr>) = master_ok n m"
  "master_ok n (m\<lparr>effects := es\<rparr>) = master_ok n m"
  "master_ok n (emit x m) = master_ok n m"
  by (simp_all add: master_ok_def counts_ok_def emit_def fpm_pctl_window_open_def fpm_http_ready_gateways_alive_def)

lemma master_ok_alive:
  "\<not> ended m \<Longrightarrow> master_ok n m \<longleftrightarrow> counts_ok m \<and> length (pools m) = n"
  by (simp add: master_ok_def)

lemma release_deferred_ok:
  assumes "master_ok n m" "\<not> ended m"
  shows "master_ok n (fpm_pctl_release_deferred w m) \<and> fpm_state (fpm_pctl_release_deferred w m) = fpm_state m"
proof -
  define x where "x = m\<lparr>held_signo := 0, deferred_release := True\<rparr>"
  define y where "y = (fpm_pctl_kill_all w (held_signo m) x)\<lparr>deferred_release := False\<rparr>"
  have x: "master_ok n x" "\<not> ended x" "fpm_state x = fpm_state m"
    using assms by (simp_all add: x_def master_ok_def counts_ok_def)
  have c: "calm x (fpm_pctl_kill_all w (held_signo m) x)" by (rule calm_kill_all)
  with x have y: "master_ok n y" "fpm_state y = fpm_state m"
    using master_ok_calm [OF x(1,2) c] by (simp_all add: y_def calm_def)
  have "fpm_pctl_release_deferred w m =
    (if held_signo m = 0 then m\<lparr>held_signo := 0\<rparr>
     else if g_running y = 0 then fpm_pctl_action_last w y
     else emit (Arm_Pctl (process_control_timeout w * 1000)) y)"
    by (simp add: fpm_pctl_release_deferred_def fpm_pctl_window_take_held_def x_def y_def Let_def)
  moreover have "master_ok n (m\<lparr>held_signo := 0\<rparr>)" using assms by (simp add: master_ok_def counts_ok_def)
  ultimately show ?thesis using y action_last_ok [OF y(1)] by (simp add: emit_def)
qed

lemma action_next_ok:
  assumes "master_ok n m" "\<not> ended m"
  shows "master_ok n (fpm_pctl_action_next w m) \<and> fpm_state (fpm_pctl_action_next w m) = fpm_state m"
proof -
  define x where "x = (if g_running m = 0 then fpm_pctl_action_last w m else m)"
  have x: "master_ok n x" "fpm_state x = fpm_state m" using assms action_last_ok by (simp_all add: x_def)
  show ?thesis
  proof (cases "ended x")
    case True
    then show ?thesis using x by (simp add: fpm_pctl_action_next_def x_def [symmetric])
  next
    case False
    have "master_ok n (fpm_pctl_kill_all w s x)" "fpm_state (fpm_pctl_kill_all w s x) = fpm_state m" for s
      using master_ok_calm [OF x(1) False calm_kill_all] calm_kill_all [of x w s] x(2) by (simp_all add: calm_def)
    then show ?thesis using False x release_deferred_ok [OF x(1) False, of w]
      by (simp add: fpm_pctl_action_next_def x_def [symmetric] Let_def case_prod_beta emit_def)
  qed
qed

lemma pctl_ok:
  assumes "master_ok n m" "\<not> ended m" "action = Action_Last_Child_Exited \<longrightarrow> g_running m = 0"
  shows "master_ok n (fpm_pctl w action m) \<and> pctl_rank (fpm_state m) \<le> pctl_rank (fpm_state (fpm_pctl w action m))"
proof (cases action)
  case (Action_Set s)
  show ?thesis
  proof (cases "fpm_state m = s \<or> \<not> overridable (fpm_state m) s \<or> (s = Reloading \<and> \<not> w_config_loads w (tick m))")
    case True
    then show ?thesis using Action_Set assms(1) by (auto simp: fpm_pctl_def emit_def)
  next
    case False
    define x where "x = (if s = Reloading then m\<lparr>tick := tick m + 1\<rparr> else m)"
    define y where "y = (if fpm_state x \<noteq> Normal then fpm_pctl_window_escalate x else x)\<lparr>signal_sent := 0, fpm_state := s\<rparr>"
    define z where "z = fpm_http_gateways_soft_drain (notify_state s y)"
    have "master_ok n y" "\<not> ended y"
      using assms(1,2) by (simp_all add: master_ok_alive y_def x_def fpm_pctl_window_escalate_def counts_ok_def)
    then have z: "master_ok n z" "\<not> ended z" "fpm_state z = s"
      by (cases s; simp add: z_def y_def fpm_http_gateways_soft_drain_def notify_state_def emit_def)+
    have "fpm_pctl w action m = fpm_pctl_action_next w z"
      using False Action_Set by (simp add: fpm_pctl_def x_def y_def z_def Let_def)
    with action_next_ok [OF z(1,2)] z(3) False overridable_rank [of "fpm_state m" s] show ?thesis by auto
  qed
next
  case Action_Timeout
  then show ?thesis using action_next_ok [OF assms(1,2)] by (simp add: fpm_pctl_def)
next
  case Action_Last_Child_Exited
  then show ?thesis using action_last_ok [OF assms(1)] assms(3) by (simp add: fpm_pctl_def)
qed

lemma pctl_child_exited_ok:
  assumes "master_ok n m" "\<not> ended m"
  shows "master_ok n (fpm_pctl_child_exited w m) \<and>
    pctl_rank (fpm_state m) \<le> pctl_rank (fpm_state (fpm_pctl_child_exited w m))"
  using pctl_ok [OF assms, of Action_Last_Child_Exited w] assms by (simp add: fpm_pctl_child_exited_def)

section \<open>The fork loop and maintenance under the invariant\<close>

lemma master_ok_make:
  assumes "master_ok n m" "\<not> ended m"
  shows "master_ok n (snd (fpm_children_make w wp b k m)) \<and> \<not> ended (snd (fpm_children_make w wp b k m)) \<and>
    fpm_state (snd (fpm_children_make w wp b k m)) = fpm_state m"
proof -
  have "counts_ok (snd (fpm_children_make w wp b k m))"
    using assms(1) by (intro counts.children_make_inv [OF refl]) (simp add: master_ok_def)
  moreover have "fork_frame wp m (snd (fpm_children_make w wp b k m))"
    by (rule frame.children_make_inv [OF refl]) simp
  ultimately show ?thesis using assms by (simp add: master_ok_def fork_frame_def)
qed

lemma calm_may_spawn: "calm m (snd (fpm_crash_backoff_may_spawn w wp m))"
proof (rule calm_same_pools)
  show "deferred_release (snd (fpm_crash_backoff_may_spawn w wp m)) = deferred_release m"
    by (auto simp: fpm_crash_backoff_may_spawn_def fpm_clock_get_def set_entry_def emit_def Let_def
      split: option.splits prod.splits)
qed (use may_spawn_frame [of wp m w] in \<open>simp_all add: fork_frame_def\<close>)

lemma calm_set_rate [simp]: "calm m (set_rate wp r m)"
  unfolding set_rate_def by (rule calm_upd_pool) simp_all

lemma calm_set_warn [simp]: "calm m (set_warn wp r m)"
  unfolding set_warn_def by (rule calm_upd_pool) simp_all


lemma calm_kill_idle: "calm m (fpm_pctl_kill_idle_child w wp c m)"
proof -
  define m1 where "m1 = upd_pool wp (\<lambda>p. p\<lparr>children :=
      map (\<lambda>x. if x = c then c\<lparr>c_idle_kill := True\<rparr> else x) (children p)\<rparr>) m"
  have c1: "calm m m1" unfolding m1_def by (rule calm_upd_pool) simp_all
  have same: "calm x (emit k (x\<lparr>tick := t, drain_list := d\<rparr>))" for x k d t
    by (rule calm_same_pools) (simp_all add: emit_def)
  show ?thesis
  proof (cases "c_idle_kill c")
    case True
    then show ?thesis
      by (auto simp: fpm_pctl_kill_idle_child_def fpm_clock_get_def fpm_scale_down_drain_forget_def
          same Let_def split: option.split)
  next
    case False
    then have "fpm_pctl_kill_idle_child w wp c m =
      (if scale_down_drains (ptype (pool_of m wp))
       then emit (Kill (c_pid c) SIGUSR1) (m1\<lparr>tick := tick m1 + 1, drain_list := (c_pid c, w_clock w (tick m1)) # drain_list m1\<rparr>)
       else emit (Kill (c_pid c) SIGQUIT) m1)"
      by (simp add: fpm_pctl_kill_idle_child_def m1_def [symmetric] fpm_clock_get_def
          fpm_scale_down_drain_remember_def)
    then show ?thesis using calm_trans [OF c1 same] calm_trans [OF c1 calm_emit] by simp
  qed
qed

lemma master_ok_calm_alive:
  "master_ok n m \<Longrightarrow> \<not> ended m \<Longrightarrow> calm m m' \<Longrightarrow> master_ok n m' \<and> \<not> ended m' \<and> fpm_state m' = fpm_state m"
  using master_ok_calm by (auto simp: calm_def)

definition alive_ok :: "nat \<Rightarrow> pctl_state \<Rightarrow> master \<Rightarrow> bool" where
  "alive_ok n s m \<longleftrightarrow> master_ok n m \<and> \<not> ended m \<and> fpm_state m = s"

lemma alive_ok_calm: "alive_ok n s m \<Longrightarrow> calm m m' \<Longrightarrow> alive_ok n s m'"
  unfolding alive_ok_def using master_ok_calm_alive by (metis (no_types))

lemma alive_ok_make: "alive_ok n s m \<Longrightarrow> alive_ok n s (snd (fpm_children_make w wp b k m))"
  unfolding alive_ok_def using master_ok_make by (metis (no_types))

lemma alive_ok_spawn_idle:
  assumes "alive_ok n s m"
  shows "alive_ok n s (spawn_idle w wp idle m)"
proof -
  obtain ok m1 where sp: "fpm_crash_backoff_may_spawn w wp m = (ok, m1)" by fastforce
  then have m1: "alive_ok n s m1" using alive_ok_calm [OF assms calm_may_spawn, of w wp] by simp
  have rate: "alive_ok n s (set_rate wp r x)" if "alive_ok n s x" for r x
    using that calm_set_rate by (rule alive_ok_calm)
  have warn: "alive_ok n s (set_warn wp r x)" if "alive_ok n s x" for r x
    using that calm_set_warn by (rule alive_ok_calm)
  show ?thesis
    unfolding spawn_idle_def sp Let_def prod.case
    by (simp only: if_split m1 rate warn alive_ok_make simp_thms)
qed

lemma alive_ok_maintain: "alive_ok n s m \<Longrightarrow> alive_ok n s (maintain_pool w wp m)"
proof -
  assume m: "alive_ok n s m"
  let ?m = "m\<lparr>tick := tick m + 1\<rparr>"
  have t: "alive_ok n s ?m" by (rule alive_ok_calm [OF m calm_tick])
  have kill: "alive_ok n s (fpm_pctl_kill_idle_child w wp c x)" if "alive_ok n s x" for c x
    using that calm_kill_idle by (rule alive_ok_calm)
  have rate: "alive_ok n s (set_rate wp r x)" if "alive_ok n s x" for r x
    using that calm_set_rate by (rule alive_ok_calm)
  have clock: "alive_ok n s (x\<lparr>tick := k\<rparr>)" if "alive_ok n s x" for k x
    using that calm_tick by (rule alive_ok_calm)
  show ?thesis
    unfolding maintain_pool_def Let_def fpm_clock_get_def prod.case
    by (cases "pm (config (pool_of m wp))";
        cases "oldest_child None (filter (\<lambda>c. w_idle w (tick m) (c_pid c)) (children (pool_of m wp)))")
       (simp_all only: pm_style.case option.case if_split m t kill rate clock alive_ok_spawn_idle simp_thms)
qed

lemma alive_ok_maintenance: "alive_ok n s m \<Longrightarrow> alive_ok n s (fpm_pctl_perform_idle_server_maintenance w m)"
proof -
  have "alive_ok n s m \<Longrightarrow> alive_ok n s (fold (maintain_pool w) xs m)" for xs m
    by (induction xs arbitrary: m) (simp_all add: alive_ok_maintain)
  then show "alive_ok n s m \<Longrightarrow> ?thesis" by (simp add: fpm_pctl_perform_idle_server_maintenance_def)
qed

lemma alive_ok_socket_accept:
  assumes "alive_ok n s m"
  shows "alive_ok n s (fpm_pctl_on_socket_accept w wp m)"
proof -
  define m1 where "m1 = upd_pool wp (\<lambda>p. p\<lparr>socket_event_set := False\<rparr>) m"
  have c1: "alive_ok n s m1" unfolding m1_def by (rule alive_ok_calm [OF assms calm_upd_pool]) simp_all
  have "alive_ok n s (set_warn wp True m1)" "alive_ok n s (m1\<lparr>tick := tick m1 + 1\<rparr>)"
    by (rule alive_ok_calm [OF c1]; simp)+
  moreover from this(2) have "alive_ok n s (set_warn wp False (m1\<lparr>tick := tick m1 + 1\<rparr>))"
    by (rule alive_ok_calm) simp
  ultimately show ?thesis using alive_ok_make
    by (simp add: fpm_pctl_on_socket_accept_def m1_def [symmetric] Let_def)
qed

section \<open>What a signal pass does\<close>

text \<open>
  A pass that neither spares nor carries children changes two things only: the
  held signal, and the signals sent. The three kinds of such passes (the first
  pass of a stop, every later pass, the release of the held pools) are instances
  of one fold.
\<close>

definition kills :: "int \<Rightarrow> pctl_state \<Rightarrow> fpm_worker_pool_s \<Rightarrow> effect list" where
  "kills signo s p = map (\<lambda>c. Kill (c_pid c) (child_signo signo p s)) (children p)"

lemma fold_pass:
  assumes "\<And>wp h es. f wp (m\<lparr>held_signo := h, effects := es\<rparr>) =
      m\<lparr>held_signo := (if q wp then sig else h), effects := es @ e wp\<rparr>"
  shows "fold f xs (m\<lparr>held_signo := h, effects := es\<rparr>) =
      m\<lparr>held_signo := (if list_ex q xs then sig else h), effects := es @ concat (map e xs)\<rparr>"
  by (induction xs arbitrary: h es) (simp_all add: assms)

lemma map_pool_upt: "map (\<lambda>wp. f (pool_of m wp)) [0..<length (pools m)] = map f (pools m)"
  by (rule nth_equalityI) simp_all

lemma signal_children_kills:
  "signal_children signo wp m = m\<lparr>effects := effects m @ kills signo (fpm_state m) (pool_of m wp)\<rparr>"
  by (simp add: signal_children_def kills_def)

lemma window_preds_cong [simp]:
  "fpm_http_pool_held_for_window w wp (m\<lparr>held_signo := h, effects := es\<rparr>) = fpm_http_pool_held_for_window w wp m"
  "fpm_http_pool_routed_by_ready_gateway wp (m\<lparr>held_signo := h, effects := es\<rparr>) =
     fpm_http_pool_routed_by_ready_gateway wp m"
  by (simp_all add: fpm_http_pool_held_for_window_def fpm_http_ready_gateways_alive_def
      fpm_http_pool_routed_by_ready_gateway_def)

lemma later_pass:
  assumes "signal_sent m \<noteq> 0" "\<not> deferred_release m"
  shows "fpm_pctl_kill_all w signo m =
    m\<lparr>effects := effects m @ concat (map (kills signo (fpm_state m)) (pools m))\<rparr>"
proof -
  have "kill_pool w signo False wp (m\<lparr>held_signo := h, effects := es\<rparr>) =
      m\<lparr>held_signo := (if False then signo else h), effects := es @ kills signo (fpm_state m) (pool_of m wp)\<rparr>" for wp h es
    using assms by (simp add: kill_pool_def fpm_pctl_window_hold_pool_def signal_children_kills)
  from fold_pass [OF this, where xs = "[0..<length (pools m)]" and h = "held_signo m" and es = "effects m"]
  show ?thesis using assms by (simp add: fpm_pctl_kill_all_def map_pool_upt list_ex_iff)
qed

lemma release_pass:
  assumes "signal_sent m \<noteq> 0" "deferred_release m"
  shows "fpm_pctl_kill_all w signo m =
    m\<lparr>effects := effects m @ concat (map (\<lambda>wp. if fpm_http_pool_routed_by_ready_gateway wp m
        then kills signo (fpm_state m) (pool_of m wp) else []) [0..<length (pools m)])\<rparr>"
proof -
  have "kill_pool w signo False wp (m\<lparr>held_signo := h, effects := es\<rparr>) =
      m\<lparr>held_signo := (if False then signo else h), effects := es @
        (if fpm_http_pool_routed_by_ready_gateway wp m then kills signo (fpm_state m) (pool_of m wp) else [])\<rparr>" for wp h es
    using assms by (simp add: kill_pool_def signal_children_kills)
  from fold_pass [OF this, where xs = "[0..<length (pools m)]" and h = "held_signo m" and es = "effects m"]
  show ?thesis using assms by (simp add: fpm_pctl_kill_all_def list_ex_iff)
qed

lemma first_pass:
  assumes "signal_sent m = 0" "\<not> deferred_release m" "fpm_state m = Finishing \<or> fpm_state m = Terminating"
  shows "fpm_pctl_kill_all w signo m =
    m\<lparr>held_signo := (if \<not> escalated m \<and> list_ex (\<lambda>wp. fpm_http_pool_held_for_window w wp m) [0..<length (pools m)]
                     then signo else 0),
      effects := effects m @ concat (map (\<lambda>wp. if \<not> escalated m \<and> fpm_http_pool_held_for_window w wp m then []
                     else kills signo (fpm_state m) (pool_of m wp)) [0..<length (pools m)])\<rparr>"
proof -
  have "kill_pool w signo False wp (m\<lparr>held_signo := h, effects := es\<rparr>) =
      m\<lparr>held_signo := (if \<not> escalated m \<and> fpm_http_pool_held_for_window w wp m then signo else h),
        effects := es @ (if \<not> escalated m \<and> fpm_http_pool_held_for_window w wp m then []
          else kills signo (fpm_state m) (pool_of m wp))\<rparr>" for wp h es
    using assms by (auto simp add: kill_pool_def fpm_pctl_window_hold_pool_def signal_children_kills)
  from fold_pass [OF this, where xs = "[0..<length (pools m)]" and h = 0 and es = "effects m"]
  show ?thesis using assms by (auto simp: fpm_pctl_kill_all_def fpm_pctl_window_reset_def list_ex_iff cong: if_cong)
qed

lemma child_signo_kill [simp]: "child_signo SIGKILL p s = SIGKILL"
  by (simp add: child_signo_def SIGKILL_def SIGQUIT_def SIGTERM_def)

section \<open>Escalation\<close>

text \<open>One timeout of a stop with children left sends the next signal and arms the timer again.\<close>

lemma timeout_step:
  assumes "signal_sent m \<noteq> 0" "\<not> deferred_release m" "0 < g_running m" "\<not> ended m" "held_signo m = 0"
  shows "fpm_pctl w Action_Timeout m =
    m\<lparr>effects := effects m @ concat (map (kills (if signal_sent m = SIGQUIT then SIGTERM else SIGKILL) (fpm_state m)) (pools m))
        @ [Arm_Pctl 1000],
      signal_sent := (if signal_sent m = SIGQUIT then SIGTERM else SIGKILL)\<rparr>"
  using assms by (simp add: fpm_pctl_def fpm_pctl_action_next_def later_pass emit_def)

lemma timeout_held:
  assumes "signal_sent m \<noteq> 0" "\<not> deferred_release m" "0 < g_running m" "\<not> ended m" "held_signo m \<noteq> 0"
  shows "\<exists>es. fpm_pctl w Action_Timeout m =
    m\<lparr>held_signo := 0, effects := effects m @ es @ [Arm_Pctl (process_control_timeout w * 1000)]\<rparr>"
proof -
  let ?x = "m\<lparr>held_signo := 0, deferred_release := True\<rparr>"
  obtain es where "fpm_pctl_kill_all w (held_signo m) ?x = ?x\<lparr>effects := effects ?x @ es\<rparr>"
    using release_pass [of ?x w "held_signo m"] assms by auto
  then have "fpm_pctl w Action_Timeout m = m\<lparr>held_signo := 0, deferred_release := False,
      effects := effects m @ es @ [Arm_Pctl (process_control_timeout w * 1000)]\<rparr>" using assms
    by (simp add: fpm_pctl_def fpm_pctl_action_next_def fpm_pctl_release_deferred_def
        fpm_pctl_window_take_held_def emit_def)
  also have "\<dots> = m\<lparr>held_signo := 0, effects := effects m @ es @ [Arm_Pctl (process_control_timeout w * 1000)]\<rparr>"
    using assms(2) by (cases m) simp
  finally show ?thesis by blast
qed

text \<open>The number of timeouts until a stop or reload that began has sent SIGKILL.\<close>

definition escalation_bound :: "master \<Rightarrow> nat" where
  "escalation_bound m = (if held_signo m \<noteq> 0 then 1 else 0) + (if signal_sent m = SIGQUIT then 2 else 1)"

definition killed_all :: "master \<Rightarrow> bool" where
  "killed_all m \<longleftrightarrow> list_all (\<lambda>p. list_all (\<lambda>c. Kill (c_pid c) SIGKILL \<in> set (effects m)) (children p)) (pools m)"

lemma kills_all:
  "set (concat (map (kills SIGKILL s) (pools m))) \<subseteq> set (effects m) \<Longrightarrow> killed_all m"
  by (fastforce simp: killed_all_def kills_def list_all_iff)

lemma escalate_no_hold:
  assumes "signal_sent m \<noteq> 0" "\<not> deferred_release m" "0 < g_running m" "\<not> ended m" "held_signo m = 0"
  shows "killed_all ((fpm_pctl w Action_Timeout ^^ escalation_bound m) m) \<and>
    pools ((fpm_pctl w Action_Timeout ^^ escalation_bound m) m) = pools m"
proof (cases "signal_sent m = SIGQUIT")
  case True
  define m1 where "m1 = fpm_pctl w Action_Timeout m"
  have m1: "m1 = m\<lparr>effects := effects m @ concat (map (kills SIGTERM (fpm_state m)) (pools m)) @ [Arm_Pctl 1000],
      signal_sent := SIGTERM\<rparr>" using timeout_step [OF assms] True by (simp add: m1_def)
  have "killed_all (fpm_pctl w Action_Timeout m1) \<and> pools (fpm_pctl w Action_Timeout m1) = pools m"
    using timeout_step [of m1 w] assms
    by (auto simp: m1 SIGTERM_def SIGQUIT_def intro: kills_all [where s = "fpm_state m"])
  then show ?thesis using True assms(5) by (simp add: escalation_bound_def numeral_2_eq_2 m1_def)
next
  case False
  then show ?thesis using timeout_step [OF assms] assms(5)
    by (auto simp: escalation_bound_def intro: kills_all [where s = "fpm_state m"])
qed

text \<open>The first pass of a stop, as one equation.\<close>

lemma stop_begins:
  assumes "fpm_state m = Normal" "\<not> ended m" "\<not> deferred_release m" "0 < g_running m"
    and "s = Finishing \<or> s = Terminating"
    and "sig = (if s = Terminating then SIGTERM else SIGQUIT)"
  shows "\<exists>es. fpm_pctl w (Action_Set s) m =
    m\<lparr>fpm_state := s, signal_sent := sig,
      held_signo := (if \<not> escalated m \<and> list_ex (\<lambda>wp. fpm_http_pool_held_for_window w wp m) [0..<length (pools m)]
                     then sig else 0),
      effects := effects m @ es @ concat (map (\<lambda>wp. if \<not> escalated m \<and> fpm_http_pool_held_for_window w wp m then []
          else kills sig s (pool_of m wp)) [0..<length (pools m)]) @ [Arm_Pctl (process_control_timeout w * 1000)]\<rparr>"
proof -
  obtain es where x: "fpm_http_gateways_soft_drain (notify_state s (m\<lparr>signal_sent := 0, fpm_state := s\<rparr>)) =
      m\<lparr>signal_sent := 0, fpm_state := s, effects := effects m @ es\<rparr>" (is "_ = ?x")
    using assms(5) by (auto simp: fpm_http_gateways_soft_drain_def notify_state_def emit_def)
  have held: "fpm_http_pool_held_for_window w i ?x = fpm_http_pool_held_for_window w i m" for i
    by (simp add: fpm_http_pool_held_for_window_def fpm_http_ready_gateways_alive_def
        fpm_http_pool_routed_by_ready_gateway_def)
  have "fpm_pctl w (Action_Set s) m = fpm_pctl_action_next w ?x"
    using assms(1,5) x by (auto simp: fpm_pctl_def overridable_def)
  also have "\<dots> = emit (Arm_Pctl (process_control_timeout w * 1000)) ((fpm_pctl_kill_all w sig ?x)\<lparr>signal_sent := sig\<rparr>)"
    using assms by (simp add: fpm_pctl_action_next_def)
  finally show ?thesis using assms(3,5)
    by (intro exI [of _ es]) (simp add: first_pass held emit_def cong: if_cong)
qed

text \<open>
  C7. A stop reaches every child: when the master leaves the normal state for a
  graceful (Finishing) or immediate (Terminating) stop with children running, each child
  of each pool is sent the stop signal of its pool type in that very call, unless its
  pool is held for the readiness window of a gateway that routes to it; the signal is then
  remembered, so that the window's end or the next timeout sends it.
\<close>

theorem stop_signals_every_child:
  assumes "fpm_state m = Normal" "\<not> ended m" "\<not> deferred_release m" "0 < g_running m"
    and "s = Finishing \<or> s = Terminating"
    and "wp < length (pools m)" "c \<in> set (children (pool_of m wp))"
    and "sig = (if s = Terminating then SIGTERM else SIGQUIT)" "m' = fpm_pctl w (Action_Set s) m"
  shows "fpm_state m' = s \<and> signal_sent m' = sig \<and> pools m' = pools m \<and>
    (if \<not> escalated m \<and> fpm_http_pool_held_for_window w wp m then held_signo m' = sig
     else Kill (c_pid c) (child_signo sig (pool_of m wp) s) \<in> set (effects m'))"
proof -
  obtain es where "m' = m\<lparr>fpm_state := s, signal_sent := sig,
      held_signo := (if \<not> escalated m \<and> list_ex (\<lambda>wp. fpm_http_pool_held_for_window w wp m) [0..<length (pools m)]
                     then sig else 0),
      effects := effects m @ es @ concat (map (\<lambda>wp. if \<not> escalated m \<and> fpm_http_pool_held_for_window w wp m then []
          else kills sig s (pool_of m wp)) [0..<length (pools m)]) @ [Arm_Pctl (process_control_timeout w * 1000)]\<rparr>"
    using stop_begins [OF assms(1-5,8), of w] assms(9) by blast
  then show ?thesis using assms(6,7) by (auto simp: kills_def list_ex_iff Bex_def)
qed

theorem stop_signals_every_child_witness:
  "Kill 31 SIGTERM \<in> set (effects (fpm_pctl quiet_world (Action_Set Terminating) (start_master [quiet_pool [30, 31]])))"
proof -
  have s: "child_signo SIGTERM (quiet_pool [30, 31]) Terminating = SIGTERM"
    by (simp add: child_signo_def quiet_pool_def)
  have "\<not> fpm_http_pool_held_for_window quiet_world 0 (start_master [quiet_pool [30, 31]])"
    by (simp add: fpm_http_pool_held_for_window_def fpm_http_ready_gateways_alive_def)
  then show ?thesis
    using stop_signals_every_child [of "start_master [quiet_pool [30, 31]]" Terminating 0
      "\<lparr>c_pid = 31, c_started = timerclear, c_idle_kill = False\<rparr>" SIGTERM _ quiet_world, OF _ _ _ _ _ _ _ _ refl] s
    by simp
qed

text \<open>
  C6. A stop or reload that has begun never waits for a child that ignores its signals: with
  children left, at most three timeouts later every child has been sent SIGKILL (one
  timeout releases held pools, one turns SIGQUIT into SIGTERM, one kills), and no
  child was lost from the master's lists in between.
\<close>

theorem stop_escalates_to_kill:
  assumes "signal_sent m \<noteq> 0" "\<not> deferred_release m" "0 < g_running m" "\<not> ended m"
  shows "escalation_bound m \<le> 3 \<and> killed_all ((fpm_pctl w Action_Timeout ^^ escalation_bound m) m) \<and>
    pools ((fpm_pctl w Action_Timeout ^^ escalation_bound m) m) = pools m"
proof (cases "held_signo m = 0")
  case True
  then show ?thesis using escalate_no_hold [OF assms True] by (simp add: escalation_bound_def)
next
  case False
  define m1 where "m1 = fpm_pctl w Action_Timeout m"
  obtain es where "m1 = m\<lparr>held_signo := 0, effects := effects m @ es @ [Arm_Pctl (process_control_timeout w * 1000)]\<rparr>"
    using timeout_held [OF assms False] unfolding m1_def by blast
  then have "pools m1 = pools m" "escalation_bound m = Suc (escalation_bound m1)"
    "signal_sent m1 \<noteq> 0" "\<not> deferred_release m1" "0 < g_running m1" "\<not> ended m1" "held_signo m1 = 0"
    using False assms by (simp_all add: escalation_bound_def)
  moreover have "escalation_bound m \<le> 3" by (simp add: escalation_bound_def)
  ultimately show ?thesis using escalate_no_hold [of m1 w] by (simp add: funpow_Suc_right m1_def del: funpow.simps)
qed

theorem stop_escalates_to_kill_witness:
  "killed_all ((fpm_pctl quiet_world Action_Timeout ^^ 2)
     ((start_master [quiet_pool [30, 31]])\<lparr>fpm_state := Finishing, signal_sent := SIGQUIT\<rparr>))"
  using stop_escalates_to_kill [of "(start_master [quiet_pool [30, 31]])\<lparr>fpm_state := Finishing, signal_sent := SIGQUIT\<rparr>" quiet_world]
  by (simp add: escalation_bound_def SIGQUIT_def numeral_2_eq_2)

end
