(* ===== verification/Master.thy ===== *)
theory Master
  imports Process_Ctl
begin

text \<open>
  The reaping of processes (\<open>fpm_children_bury()\<close>, \<open>fpm_children_extra.c\<close>, the
  gateway processes of \<open>fpm_http_gw_proc.c\<close>), the initial fork of a pool, and the
  master as a machine over the events its loop delivers: signals, the process
  control timer, reaped processes, the crash backoff timers, the maintenance
  heartbeat and connections on an ondemand socket.
\<close>

section \<open>Gateway processes\<close>

definition FPM_HTTP_RESPAWN_MAX_BURST :: nat where "FPM_HTTP_RESPAWN_MAX_BURST = 5"
definition FPM_HTTP_RESPAWN_WINDOW_SEC :: int where "FPM_HTTP_RESPAWN_WINDOW_SEC = 10"

definition fpm_children_extra_watch :: "int \<Rightarrow> nat \<times> nat \<Rightarrow> master \<Rightarrow> master" where
  "fpm_children_extra_watch pid arg m = m\<lparr>extra := (pid, arg) # extra m\<rparr>"

fun extra_remove :: "int \<Rightarrow> (int \<times> nat \<times> nat) list \<Rightarrow> (int \<times> nat \<times> nat) list" where
  "extra_remove pid [] = []"
| "extra_remove pid (e # es) = (if fst e = pid then es else e # extra_remove pid es)"

definition fpm_children_extra_forget :: "int \<Rightarrow> master \<Rightarrow> master" where
  "fpm_children_extra_forget pid m = m\<lparr>extra := extra_remove pid (extra m)\<rparr>"

definition upd_slot :: "nat \<Rightarrow> nat \<Rightarrow> (gw_slot \<Rightarrow> gw_slot) \<Rightarrow> master \<Rightarrow> master" where
  "upd_slot g i f m =
     m\<lparr>gateways := (gateways m)[g := (gateways m ! g)\<lparr>slots :=
        (slots (gateways m ! g))[i := f (slots (gateways m ! g) ! i)]\<rparr>]\<rparr>"

abbreviation slot_of :: "master \<Rightarrow> nat \<Rightarrow> nat \<Rightarrow> gw_slot" where
  "slot_of m g i \<equiv> slots (gateways m ! g) ! i"

definition fpm_http_gateway_spawn :: "world \<Rightarrow> nat \<Rightarrow> nat \<Rightarrow> master \<Rightarrow> master" where
  "fpm_http_gateway_spawn w g i m =
     (let pid = w_fork w (tick m);
          m = upd_slot g i (\<lambda>s. s\<lparr>gw_pid := pid\<rparr>) (m\<lparr>tick := tick m + 1\<rparr>)
      in if pid < 0 then m
         else if pid = 0 then m\<lparr>is_child := True\<rparr>
         else fpm_children_extra_watch pid (g, i) (emit (Gateway_Forked g i pid) m))"

definition fpm_http_gateway_on_exit :: "world \<Rightarrow> nat \<Rightarrow> nat \<Rightarrow> master \<Rightarrow> master" where
  "fpm_http_gateway_on_exit w g i m =
     (let now = w_time w (tick m);
          m = upd_slot g i (\<lambda>s. s\<lparr>gw_pid := 0\<rparr>) (m\<lparr>tick := tick m + 1\<rparr>)
      in
      if \<not> fpm_pctl_can_spawn_children m
      then (if \<not> fpm_http_ready_gateways_alive m then fpm_pctl_release_deferred w m else m)
      else if respawn_gave_up (slot_of m g i) then m
      else
        let m = (if now - respawn_window_start (slot_of m g i) > FPM_HTTP_RESPAWN_WINDOW_SEC
                 then upd_slot g i (\<lambda>s. s\<lparr>respawn_window_start := now, respawn_count := 0\<rparr>) m else m);
            m = upd_slot g i (\<lambda>s. s\<lparr>respawn_count := respawn_count s + 1\<rparr>) m
        in
        if respawn_count (slot_of m g i) > FPM_HTTP_RESPAWN_MAX_BURST
        then upd_slot g i (\<lambda>s. s\<lparr>respawn_gave_up := True\<rparr>) m
        else fpm_http_gateway_spawn w g i m)"

definition fpm_children_extra_handle_exit :: "world \<Rightarrow> int \<Rightarrow> master \<Rightarrow> bool \<times> master" where
  "fpm_children_extra_handle_exit w pid m =
     (case map_of (extra m) pid of
        None \<Rightarrow> (False, m)
      | Some (g, i) \<Rightarrow> (True, fpm_http_gateway_on_exit w g i (fpm_children_extra_forget pid m)))"

section \<open>Reaping\<close>

datatype wait_status = WExited int | WSignaled int | WStopped

definition SIGSEGV :: int where "SIGSEGV = 11"
definition SIGBUS :: int where "SIGBUS = 7"

definition wtermsig :: "wait_status \<Rightarrow> int" where
  "wtermsig st = (case st of WSignaled s \<Rightarrow> s | _ \<Rightarrow> 0)"

text \<open>
  A segmentation fault or bus error of a child is recorded in a ring of the
  configured length; a ring filled within the interval asks for a reload.
\<close>

definition record_fault :: "world \<Rightarrow> int \<Rightarrow> wait_status \<Rightarrow> master \<Rightarrow> master" where
  "record_fault w now st m =
     (case last_faults m of
        None \<Rightarrow> m
      | Some lf \<Rightarrow>
          if wtermsig st = SIGSEGV \<or> wtermsig st = SIGBUS then
            let lf = lf[fault m := now];
                f = fault m + 1;
                m = m\<lparr>last_faults := Some lf,
                      fault := (if f = emergency_restart_threshold w then 0 else f)\<rparr>
            in if list_all (\<lambda>t. \<not> now - t > emergency_restart_interval w) (take (emergency_restart_threshold w) lf)
               then fpm_pctl w (Action_Set Reloading) m else m
          else m)"

definition bury_child :: "world \<Rightarrow> wait_status \<Rightarrow> nat \<Rightarrow> fpm_child_s \<Rightarrow> master \<Rightarrow> master" where
  "bury_child w st wp c m =
     (let restart_child = (\<not> c_idle_kill c);
          m = fpm_child_unlink wp c m;
          m = (if restart_child then fpm_crash_backoff_child_exited w wp c m else m);
          (tv1, m) = fpm_clock_get w m;
          m = fpm_pctl_child_exited w m
      in
      if ended m then m
      else
        let m = record_fault w (tv_sec tv1) st m in
        if ended m then m
        else if restart_child then snd (fpm_children_make w wp True 1 m) else m)"

definition bury_one :: "world \<Rightarrow> int \<times> wait_status \<Rightarrow> master \<Rightarrow> master" where
  "bury_one w ev m =
     (let (pid, st) = ev;
          child = fpm_child_find pid m;
          m = fpm_scale_down_drain_forget pid m
      in
      if st = WStopped
      then (if child \<noteq> None \<and> w_tracer w (tick m) pid then emit (Tracer pid) m else m)
      else (case child of
              Some (wp, c) \<Rightarrow> bury_child w st wp c m
            | None \<Rightarrow> snd (fpm_children_extra_handle_exit w pid m)))"

text \<open>The loop over \<open>waitpid()\<close>; it stops in a forked child and when the master ends.\<close>

fun fpm_children_bury :: "world \<Rightarrow> (int \<times> wait_status) list \<Rightarrow> master \<Rightarrow> master" where
  "fpm_children_bury w [] m = m"
| "fpm_children_bury w (ev # evs) m =
     (let m = bury_one w ev m in if is_child m \<or> ended m then m else fpm_children_bury w evs m)"

text \<open>An adopted child whose exit the sweep of \<open>fpm_adopted_sweep.c\<close> found.\<close>

definition fpm_children_adopted_exited :: "world \<Rightarrow> nat \<Rightarrow> fpm_child_s \<Rightarrow> master \<Rightarrow> master" where
  "fpm_children_adopted_exited w wp c m =
     (let restart = (\<not> c_idle_kill c);
          m = fpm_scale_down_drain_forget (c_pid c) m;
          m = fpm_child_unlink wp c m;
          m = fpm_pctl_child_exited w m
      in if ended m then m
         else if restart then snd (fpm_children_make w wp True 1 m) else m)"

section \<open>Start\<close>

definition fpm_children_create_initial :: "world \<Rightarrow> nat \<Rightarrow> master \<Rightarrow> int \<times> master" where
  "fpm_children_create_initial w wp m =
     (if proxy_only (ptype (pool_of m wp)) then (1, m)
      else
        let m = fpm_reload_selective_adopt w wp m in
        if pm (config (pool_of m wp)) = PM_STYLE_ONDEMAND
        then (1, upd_pool wp (\<lambda>p. p\<lparr>socket_event_set := True\<rparr>) m)
        else fpm_children_make w wp False 0 m)"

definition fpm_children_init_main :: "world \<Rightarrow> master \<Rightarrow> master" where
  "fpm_children_init_main w m =
     (if emergency_restart_threshold w \<noteq> 0 \<and> emergency_restart_interval w \<noteq> 0
      then m\<lparr>last_faults := Some (replicate (emergency_restart_threshold w) 0)\<rparr> else m)"

section \<open>The machine\<close>

datatype master_event =
    Ev_State pctl_state
  | Ev_Timer
  | Ev_Reaped "(int \<times> wait_status) list"
  | Ev_Adopted_Gone int
  | Ev_Gate nat
  | Ev_Survive nat
  | Ev_Maintenance
  | Ev_Accept nat

definition master_handle :: "world \<Rightarrow> master_event \<Rightarrow> master \<Rightarrow> master" where
  "master_handle w ev m =
     (case ev of
        Ev_State s \<Rightarrow> fpm_pctl w (Action_Set s) m
      | Ev_Timer \<Rightarrow> fpm_pctl w Action_Timeout m
      | Ev_Reaped evs \<Rightarrow> fpm_children_bury w evs m
      | Ev_Adopted_Gone pid \<Rightarrow>
          (case fpm_child_find pid m of
             None \<Rightarrow> m
           | Some (wp, c) \<Rightarrow> fpm_children_adopted_exited w wp c m)
      | Ev_Gate wp \<Rightarrow> fpm_crash_backoff_gate_fire w wp m
      | Ev_Survive wp \<Rightarrow> fpm_crash_backoff_survive_fire w wp m
      | Ev_Maintenance \<Rightarrow> fpm_pctl_perform_idle_server_maintenance_heartbeat w m
      | Ev_Accept wp \<Rightarrow> fpm_pctl_on_socket_accept w wp m)"

text \<open>A process that ended, or became a child, handles no more master events.\<close>

definition master_step :: "world \<Rightarrow> master \<Rightarrow> master_event \<Rightarrow> master" where
  "master_step w m ev = (if ended m \<or> is_child m then m else master_handle w ev m)"

section \<open>Finding a child\<close>

lemma find_in_pools_Some:
  "find_in_pools pid i ps = Some (j, c) \<Longrightarrow>
   i \<le> j \<and> j - i < length ps \<and> c \<in> set (children (ps ! (j - i))) \<and> c_pid c = pid"
proof (induction ps arbitrary: i)
  case (Cons p ps)
  show ?case
  proof (cases "find_in_pool pid p")
    case None
    with Cons show ?thesis by (fastforce simp: nth_Cons' Suc_le_eq)
  next
    case (Some d)
    then have "d \<in> set (children p)" "c_pid d = pid"
      by (auto simp: find_in_pool_def find_Some_iff)
    with Some Cons.prems show ?thesis by auto
  qed
qed simp

lemma child_find_Some:
  "fpm_child_find pid m = Some (wp, c) \<Longrightarrow>
   wp < length (pools m) \<and> c \<in> set (children (pool_of m wp)) \<and> c_pid c = pid"
  using find_in_pools_Some [of pid 0 "pools m" wp c] by (simp add: fpm_child_find_def)

section \<open>Every event keeps the invariant\<close>

text \<open>The relation between a state and a later one: the invariant, and no step back.\<close>

definition progress :: "nat \<Rightarrow> master \<Rightarrow> master \<Rightarrow> bool" where
  "progress n m m' \<longleftrightarrow> master_ok n m' \<and> pctl_rank (fpm_state m) \<le> pctl_rank (fpm_state m')"

lemma progress_alive: "alive_ok n (fpm_state m) m' \<Longrightarrow> progress n m m'"
  by (simp add: progress_def alive_ok_def)

lemma progress_trans: "progress n a b \<Longrightarrow> progress n b c \<Longrightarrow> progress n a c"
  by (simp add: progress_def)

lemma alive_okI: "master_ok n m \<Longrightarrow> \<not> ended m \<Longrightarrow> alive_ok n (fpm_state m) m"
  by (simp add: alive_ok_def)

lemma progress_pctl:
  "master_ok n m \<Longrightarrow> \<not> ended m \<Longrightarrow> action \<noteq> Action_Last_Child_Exited \<Longrightarrow> progress n m (fpm_pctl w action m)"
  using pctl_ok by (simp add: progress_def)

lemma progress_make:
  "master_ok n m \<Longrightarrow> \<not> ended m \<Longrightarrow> progress n m (snd (fpm_children_make w wp b k m))"
  by (intro progress_alive alive_ok_make alive_okI)

lemma calm_set_entry [simp]: "calm m (set_entry wp e m)"
  by (rule calm_same_pools) (simp_all add: set_entry_def)

lemma calm_child_exited: "calm m (fpm_crash_backoff_child_exited w wp c m)"
proof -
  have "calm m (set_entry wp e (m\<lparr>tick := t\<rparr>))" for e t
    by (rule calm_trans [OF calm_tick calm_set_entry])
  then show ?thesis
    by (simp add: fpm_crash_backoff_child_exited_def fpm_clock_get_def split: option.split)
qed

lemma calm_drain_forget [simp]: "calm m (fpm_scale_down_drain_forget pid m)"
  by (rule calm_same_pools) (simp_all add: fpm_scale_down_drain_forget_def)

lemma progress_record_fault:
  assumes "master_ok n m" "\<not> ended m"
  shows "progress n m (record_fault w now st m)"
proof -
  have c: "calm m (m\<lparr>last_faults := l, fault := f\<rparr>)" for l f by (rule calm_same_pools) simp_all
  then have a: "alive_ok n (fpm_state m) (m\<lparr>last_faults := l, fault := f\<rparr>)" for l f
    using alive_ok_calm alive_okI [OF assms] by blast
  have "progress n m (fpm_pctl w (Action_Set Reloading) (m\<lparr>last_faults := l, fault := f\<rparr>))" for l :: "int list option" and f
    using progress_pctl [of n "m\<lparr>last_faults := l, fault := f\<rparr>" "Action_Set Reloading" w]
      a [of f l]
    by (simp add: progress_def alive_ok_def)
  moreover have "progress n m (m\<lparr>last_faults := l, fault := f\<rparr>)" for l f by (rule progress_alive [OF a])
  moreover have "progress n m m" using assms by (simp add: progress_def)
  ultimately show ?thesis by (simp add: record_fault_def Let_def split: option.split)
qed

text \<open>Gateway bookkeeping changes the gateway list only.\<close>

lemma alive_ok_gateways:
  assumes "alive_ok n s m"
  shows "alive_ok n s (upd_slot g i f m)" "alive_ok n s (m\<lparr>tick := t\<rparr>)" "alive_ok n s (m\<lparr>is_child := b\<rparr>)"
    "alive_ok n s (fpm_children_extra_watch pid a m)" "alive_ok n s (fpm_children_extra_forget pid m)"
    "alive_ok n s (emit x m)"
  using assms
  by (simp_all add: alive_ok_def master_ok_def counts_ok_def upd_slot_def fpm_children_extra_watch_def
      fpm_children_extra_forget_def emit_def)

lemma alive_ok_gateway_spawn: "alive_ok n s m \<Longrightarrow> alive_ok n s (fpm_http_gateway_spawn w g i m)"
  by (simp add: fpm_http_gateway_spawn_def Let_def alive_ok_gateways)

lemma progress_gateway_exit:
  assumes "master_ok n m" "\<not> ended m"
  shows "progress n m (fpm_http_gateway_on_exit w g i m)"
proof -
  define x where "x = upd_slot g i (\<lambda>s. s\<lparr>gw_pid := 0\<rparr>) (m\<lparr>tick := tick m + 1\<rparr>)"
  have x: "alive_ok n (fpm_state m) x" unfolding x_def by (intro alive_ok_gateways alive_okI assms)
  then have "master_ok n x" "\<not> ended x" "fpm_state x = fpm_state m" by (simp_all add: alive_ok_def)
  then have r: "progress n m (fpm_pctl_release_deferred w x)"
    using release_deferred_ok [of n x w] by (simp add: progress_def)
  show ?thesis
    unfolding fpm_http_gateway_on_exit_def Let_def x_def [symmetric]
    using r progress_alive [OF x] x
    by (auto intro!: progress_alive alive_ok_gateway_spawn alive_ok_gateways)
qed

lemma progress_extra_exit:
  assumes "master_ok n m" "\<not> ended m"
  shows "progress n m (snd (fpm_children_extra_handle_exit w pid m))"
proof (cases "map_of (extra m) pid")
  case None
  then show ?thesis using assms by (simp add: fpm_children_extra_handle_exit_def progress_def)
next
  case (Some a)
  obtain g i where "a = (g, i)" by fastforce
  let ?x = "fpm_children_extra_forget pid m"
  have "alive_ok n (fpm_state m) ?x" by (intro alive_ok_gateways alive_okI assms)
  then have "progress n ?x (fpm_http_gateway_on_exit w g i ?x)" "progress n m ?x"
    using progress_gateway_exit [of n ?x w g i] by (simp_all add: alive_ok_def progress_def)
  with Some \<open>a = (g, i)\<close> show ?thesis
    using progress_trans by (simp add: fpm_children_extra_handle_exit_def)
qed


lemma progress_bury_child:
  assumes "alive_ok n s m" "wp < length (pools m)" "c \<in> set (children (pool_of m wp))"
  shows "progress n m (bury_child w st wp c m)"
proof -
  define m2 where "m2 = fpm_child_unlink wp c m"
  define m3 where "m3 = (if \<not> c_idle_kill c then fpm_crash_backoff_child_exited w wp c m2 else m2)"
  define m4 where "m4 = m3\<lparr>tick := Suc (tick m3)\<rparr>"
  define m5 where "m5 = fpm_pctl_child_exited w m4"
  define m6 where "m6 = record_fault w (tv_sec (w_clock w (tick m3))) st m5"
  have "calm m m2" unfolding m2_def using assms by (simp add: calm_unlink)
  then have "alive_ok n s m2" by (rule alive_ok_calm [OF assms(1)])
  then have "alive_ok n s m3" unfolding m3_def using alive_ok_calm calm_child_exited by simp
  then have "alive_ok n s m4" unfolding m4_def by (rule alive_ok_calm [OF _ calm_tick])
  then have "progress n m m5"
    using pctl_child_exited_ok [of n m4 w] assms(1) by (simp add: m5_def progress_def alive_ok_def)
  moreover from this have "progress n m5 m6" if "\<not> ended m5"
    unfolding m6_def using that by (intro progress_record_fault) (simp_all add: progress_def)
  moreover have "progress n m6 (snd (fpm_children_make w wp True 1 m6))" if "progress n m m6" "\<not> ended m6"
    using that by (intro progress_make) (simp_all add: progress_def)
  ultimately have "progress n m m5" "\<not> ended m5 \<Longrightarrow> progress n m m6"
    "\<not> ended m5 \<Longrightarrow> \<not> ended m6 \<Longrightarrow> progress n m (snd (fpm_children_make w wp True 1 m6))"
    by (blast intro: progress_trans)+
  then show ?thesis
    by (simp add: bury_child_def Let_def m2_def [symmetric] m3_def [symmetric] fpm_clock_get_def
        m4_def [symmetric] m5_def [symmetric] m6_def [symmetric])
qed

lemma progress_bury_one:
  assumes "master_ok n m" "\<not> ended m"
  shows "progress n m (bury_one w ev m)"
proof -
  obtain pid st where ev: "ev = (pid, st)" by fastforce
  define m1 where "m1 = fpm_scale_down_drain_forget pid m"
  have m1: "alive_ok n (fpm_state m) m1" unfolding m1_def
    by (rule alive_ok_calm [OF alive_okI [OF assms] calm_drain_forget])
  have same: "progress n m1 x \<Longrightarrow> progress n m x" for x using m1 by (simp add: progress_def alive_ok_def)
  have child: "progress n m (bury_child w st wp c m1)" if "fpm_child_find pid m = Some (wp, c)" for wp c
    using child_find_Some [OF that] m1
    by (intro same progress_bury_child) (simp_all add: m1_def fpm_scale_down_drain_forget_def)
  have extra: "progress n m (snd (fpm_children_extra_handle_exit w pid m1))"
    using m1 by (intro same progress_extra_exit) (simp_all add: alive_ok_def)
  have tracer: "progress n m (emit (Tracer pid) m1)"
    by (rule progress_alive [OF alive_ok_calm [OF m1 calm_emit]])
  show ?thesis
    using child extra tracer progress_alive [OF m1]
    by (simp add: ev bury_one_def Let_def m1_def [symmetric] split: option.split)
qed

lemma progress_bury:
  "master_ok n m \<Longrightarrow> \<not> ended m \<Longrightarrow> progress n m (fpm_children_bury w evs m)"
proof (induction evs arbitrary: m)
  case Nil
  then show ?case by (simp add: progress_def)
next
  case (Cons ev evs)
  have "progress n m (bury_one w ev m)" using Cons.prems by (rule progress_bury_one)
  moreover from this have "progress n (bury_one w ev m) (fpm_children_bury w evs (bury_one w ev m))"
    if "\<not> ended (bury_one w ev m)" using that by (intro Cons.IH) (simp_all add: progress_def)
  ultimately have "progress n m (if is_child (bury_one w ev m) \<or> ended (bury_one w ev m) then bury_one w ev m
      else fpm_children_bury w evs (bury_one w ev m))"
    by (auto intro: progress_trans)
  then show ?case by (simp add: Let_def)
qed

lemma progress_adopted:
  assumes "master_ok n m" "\<not> ended m" "fpm_child_find pid m = Some (wp, c)"
  shows "progress n m (fpm_children_adopted_exited w wp c m)"
proof -
  define m1 where "m1 = fpm_scale_down_drain_forget (c_pid c) m"
  define m2 where "m2 = fpm_child_unlink wp c m1"
  define m3 where "m3 = fpm_pctl_child_exited w m2"
  have m1: "alive_ok n (fpm_state m) m1" unfolding m1_def
    by (rule alive_ok_calm [OF alive_okI [OF assms(1,2)] calm_drain_forget])
  have "wp < length (pools m1) \<and> c \<in> set (children (pool_of m1 wp))"
    using child_find_Some [OF assms(3)] by (simp add: m1_def fpm_scale_down_drain_forget_def)
  then have "calm m1 m2" unfolding m2_def by (simp add: calm_unlink)
  then have "alive_ok n (fpm_state m) m2" by (rule alive_ok_calm [OF m1])
  then have "progress n m m3"
    using pctl_child_exited_ok [of n m2 w] by (simp add: m3_def progress_def alive_ok_def)
  moreover from this have "progress n m3 (snd (fpm_children_make w wp True 1 m3))" if "\<not> ended m3"
    using that by (intro progress_make) (simp_all add: progress_def)
  ultimately have "progress n m m3" "\<not> ended m3 \<Longrightarrow> progress n m (snd (fpm_children_make w wp True 1 m3))"
    by (blast intro: progress_trans)+
  then show ?thesis
    by (simp add: fpm_children_adopted_exited_def Let_def m1_def [symmetric] m2_def [symmetric] m3_def [symmetric])
qed

lemma alive_ok_timers:
  assumes "alive_ok n s m"
  shows "alive_ok n s (fpm_crash_backoff_gate_fire w wp m)"
    and "alive_ok n s (fpm_crash_backoff_survive_fire w wp m)"
proof -
  have set: "alive_ok n s (set_entry wp e m)" for e by (rule alive_ok_calm [OF assms calm_set_entry])
  show "alive_ok n s (fpm_crash_backoff_gate_fire w wp m)"
    using assms alive_ok_make [OF set] by (simp add: fpm_crash_backoff_gate_fire_def split: option.split)
  show "alive_ok n s (fpm_crash_backoff_survive_fire w wp m)"
    using assms alive_ok_make [OF set] set
    by (simp add: fpm_crash_backoff_survive_fire_def Let_def split: option.split prod.split)
qed

lemma progress_step: "master_ok n m \<Longrightarrow> progress n m (master_step w m ev)"
proof -
  assume ok: "master_ok n m"
  show "progress n m (master_step w m ev)"
  proof (cases "ended m \<or> is_child m")
    case True
    then show ?thesis using ok by (auto simp: master_step_def progress_def)
  next
    case False
    with ok have a: "alive_ok n (fpm_state m) m" by (simp add: alive_ok_def)
    have p: "progress n m m" using ok by (simp add: progress_def)
    have "progress n m (master_handle w ev m)"
    proof (cases ev)
      case (Ev_Adopted_Gone pid)
      then show ?thesis using False ok p progress_adopted [of n m pid]
        by (simp add: master_handle_def split: option.split)
    next
      case Ev_Maintenance
      then show ?thesis using alive_ok_maintenance [OF a] progress_alive p
        by (simp add: master_handle_def fpm_pctl_perform_idle_server_maintenance_heartbeat_def)
    qed (use False ok a in \<open>simp_all add: master_handle_def progress_pctl progress_bury alive_ok_timers
      alive_ok_socket_accept progress_alive\<close>)
    with False show ?thesis by (simp add: master_step_def)
  qed
qed

lemma sum_running:
  "list_all (\<lambda>p. running_children p = int (length (children p))) ps \<Longrightarrow>
   sum_list (map running_children ps) = int (length (concat (map children ps)))"
  by (induction ps) simp_all

section \<open>The invariant over whole histories\<close>

interpretation life: machine "master_step w" "\<lambda>_. True" "master_ok n" for w n
  by unfold_locales (use progress_step in \<open>simp add: progress_def\<close>)

text \<open>
  C5. Whatever sequence of signals, timers, reaped processes, backoff timers, maintenance
  passes and connections the master's loop delivers: the count of running children
  of each pool is the length of its list, the global count is their sum, and the
  process has ended only in a stop or reload, with no child left behind and no
  readiness window open.
\<close>

theorem master_counts_always_agree:
  assumes "list_all (\<lambda>p. running_children p = int (length (children p))) (pools m)"
    and "g_running m = sum_list (map running_children (pools m))" and "\<not> ended m"
    and "m' = foldl (master_step w) m evs"
  shows "list_all (\<lambda>p. running_children p = int (length (children p))) (pools m') \<and>
    g_running m' = sum_list (map running_children (pools m')) \<and> length (pools m') = length (pools m) \<and>
    (ended m' \<longrightarrow> concat (map children (pools m')) = [] \<and> fpm_state m' \<noteq> Normal \<and> \<not> fpm_pctl_window_open m')"
proof -
  have "master_ok (length (pools m)) m" using assms(1-3) by (simp add: master_ok_def counts_ok_def)
  then have ok: "master_ok (length (pools m)) m'"
    unfolding assms(4) by (rule life.run_inv) (simp add: list_all_iff)
  from ok show ?thesis using sum_running [of "pools m'"]
    by (auto simp: master_ok_def counts_ok_def simp del: length_concat concat_eq_Nil_conv)
qed

text \<open>
  C8. The control state of the master only ever moves forward, from normal operation over
  reload and graceful stop to immediate stop: no event takes a master that is
  stopping back to a reload or to normal operation.
\<close>

theorem master_state_moves_forward:
  assumes "counts_ok m" "\<not> ended m"
  shows "pctl_rank (fpm_state (foldl (master_step w) m evs)) \<le>
     pctl_rank (fpm_state (foldl (master_step w) m (evs @ evs')))"
proof -
  let ?n = "length (pools m)" and ?R = "\<lambda>a b. pctl_rank (fpm_state a) \<le> pctl_rank (fpm_state b)"
  have "master_ok ?n m" using assms by (simp add: master_ok_def)
  then have "master_ok ?n (foldl (master_step w) m evs)"
    by (rule life.run_inv) (simp add: list_all_iff)
  then have "?R (foldl (master_step w) m evs) (foldl (master_step w) (foldl (master_step w) m evs) evs')"
    by (rule life.run_rel [where R = ?R, rotated 3])
       (use progress_step in \<open>auto simp: progress_def list_all_iff\<close>)
  then show ?thesis by simp
qed

theorem master_counts_always_agree_witness:
  "let m' = foldl (master_step quiet_world) (start_master [quiet_pool [30, 31]])
       [Ev_State Finishing, Ev_Reaped [(30, WExited 0)], Ev_Timer]
   in g_running m' = sum_list (map running_children (pools m')) \<and> length (pools m') = 1"
  using master_counts_always_agree [of "start_master [quiet_pool [30, 31]]" _ quiet_world
    "[Ev_State Finishing, Ev_Reaped [(30, WExited 0)], Ev_Timer]", OF _ _ _ refl]
  by (simp add: Let_def del: foldl_Cons)

theorem master_state_moves_forward_witness:
  "pctl_rank (fpm_state (foldl (master_step quiet_world) (start_master [quiet_pool [30]]) [Ev_State Reloading])) \<le>
   pctl_rank (fpm_state (foldl (master_step quiet_world) (start_master [quiet_pool [30]])
     ([Ev_State Reloading] @ [Ev_State Terminating, Ev_State Reloading])))"
  by (rule master_state_moves_forward) (simp_all add: counts_ok_def)
end
