(* ===== verification/Shutdown.thy ===== *)
theory Shutdown
  imports Master "HOL-Library.Multiset"
begin

text \<open>
  What a stop or reload comes to: a master that is stopping forks nothing more
  (\<open>fpm_children_may_fork()\<close>, \<open>fpm_pctl_can_spawn_children()\<close>), and the reaping of its
  last child ends it (\<open>fpm_pctl_child_exited()\<close>, \<open>fpm_pctl_action_last()\<close>).
\<close>

section \<open>A master that stops forks no more\<close>

definition is_fork :: "effect \<Rightarrow> bool" where
  "is_fork x \<longleftrightarrow> (case x of Forked wp pid \<Rightarrow> True | Gateway_Forked g i pid \<Rightarrow> True | _ \<Rightarrow> False)"

definition forks :: "master \<Rightarrow> effect list" where "forks m = filter is_fork (effects m)"

text \<open>The first signal pass is over, or the master has ended, and no pool is held.\<close>

definition stopping :: "master \<Rightarrow> bool" where
  "stopping m \<longleftrightarrow> fpm_state m \<noteq> Normal \<and> held_signo m = 0 \<and> \<not> deferred_release m \<and>
     (signal_sent m \<noteq> 0 \<or> ended m)"

definition stays :: "master \<Rightarrow> master \<Rightarrow> bool" where
  "stays m m' \<longleftrightarrow> stopping m' \<and> forks m' = forks m"

lemma stays_refl: "stopping m \<Longrightarrow> stays m m"
  by (simp add: stays_def)

lemma stays_trans: "stays a b \<Longrightarrow> stays b c \<Longrightarrow> stays a c"
  by (simp add: stays_def)

lemma stopping_make: "stopping m \<Longrightarrow> fpm_children_make w wp b k m = (1, m)"
  by (simp add: stopping_def fpm_children_make_def make_loop.simps fork_wanted_def fpm_children_may_fork_def
      fpm_pctl_can_spawn_children_def fpm_pctl_may_fork_in_window_def fpm_pctl_window_open_def)

lemma is_fork_simps [simp]:
  "\<not> is_fork (Kill a b)" "\<not> is_fork (Arm_Pctl a2)" "\<not> is_fork Notify_Stopping" "\<not> is_fork Master_Exec"
  "\<not> is_fork (Master_Exit r)" "\<not> is_fork (Tracer p)" "\<not> is_fork Notify_Reloading"
  by (simp_all add: is_fork_def)

lemma kills_no_fork [simp]:
  "filter is_fork (kills signo s p) = []" "filter is_fork (concat (map (kills signo s) ps)) = []"
  "filter is_fork (concat (map (\<lambda>wp. kills signo s (f wp)) xs)) = []"
  "filter is_fork (concat (map (\<lambda>wp. if q wp then [] else kills signo s (f wp)) xs)) = []"
  "filter is_fork (concat (map (\<lambda>wp. if q wp then kills signo s (f wp) else []) xs)) = []"
  by (auto simp: filter_empty_conv kills_def split: if_splits)

lemma sigterm_no_fork:
  "forks (fpm_reload_selective_discard_unadopted w m) = forks m \<and>
   signal_sent (fpm_reload_selective_discard_unadopted w m) = signal_sent m \<and>
   deferred_release (fpm_reload_selective_discard_unadopted w m) = deferred_release m"
proof -
  have e: "forks (sigterm_entries w ss m) = forks m" for ss m
    by (induction ss arbitrary: m) (simp_all add: case_prod_beta Let_def emit_def forks_def)
  have "forks (sigterm_groups w gs m) = forks m" for gs m
    by (induction gs arbitrary: m)
      (simp_all add: fpm_reload_selective_sigterm_list_def e split: option.split)
  then have "forks (fpm_reload_selective_discard_unadopted w m) = forks m"
    by (simp add: fpm_reload_selective_discard_unadopted_def fpm_reload_selective_sigterm_carried_def forks_def
        split: option.split list.split)
  with calm_discard [of m w] show ?thesis by (simp add: calm_def)
qed

lemma action_last_frame:
  assumes "fpm_state m \<noteq> Normal" "held_signo m = 0" "m' = fpm_pctl_action_last w m"
  shows "ended m' \<and> fpm_state m' = fpm_state m \<and> held_signo m' = 0 \<and>
    deferred_release m' = deferred_release m \<and> forks m' = forks m"
proof -
  have d: "fpm_state (fpm_reload_selective_discard_unadopted w x) = fpm_state x"
    "deferred_release (fpm_reload_selective_discard_unadopted w x) = deferred_release x"
    "held_signo (fpm_reload_selective_discard_unadopted w x) = held_signo x"
    "forks (fpm_reload_selective_discard_unadopted w x) = forks x" for x
    using calm_discard [of x w] sigterm_no_fork [of w x] g_running_calm_same [of w x] by (simp_all add: calm_def)
  have "forks (x\<lparr>ended := True\<rparr>) = forks x" "forks (emit Master_Exec x) = forks x" "forks (emit (Master_Exit r) x) = forks x" for x r
    by (simp_all add: forks_def emit_def)
  moreover have "fpm_state (emit k x) = fpm_state x" "held_signo (emit k x) = held_signo x"
    "deferred_release (emit k x) = deferred_release x" for k x by (simp_all add: emit_def)
  moreover have "\<not> fpm_pctl_window_open m" using assms(2) by (simp add: fpm_pctl_window_open_def)
  ultimately show ?thesis
    using assms d by (cases "fpm_state m") (simp_all add: fpm_pctl_action_last_def fpm_pctl_exit_def fpm_pctl_exec_def)
qed

lemma stays_action_last: "stopping m \<Longrightarrow> stays m (fpm_pctl_action_last w m)"
  using action_last_frame [of m _ w, OF _ _ refl] by (simp add: stays_def stopping_def)

lemma stays_timeout:
  assumes "stopping m" "\<not> ended m" shows "stays m (fpm_pctl_action_next w m)"
proof (cases "g_running m = 0")
  case True
  then show ?thesis using action_last_frame [of m _ w, OF _ _ refl] assms
    by (simp add: fpm_pctl_action_next_def stays_def stopping_def)
next
  case False
  with assms later_pass [of m w] show ?thesis
    by (simp add: fpm_pctl_action_next_def stays_def stopping_def Let_def emit_def forks_def SIGTERM_def SIGKILL_def)
qed

lemma stays_set:
  assumes "stopping m" "\<not> ended m"
  shows "stays m (fpm_pctl w (Action_Set s) m)"
proof (cases "fpm_state m = s \<or> \<not> overridable (fpm_state m) s")
  case True
  then show ?thesis using stays_refl [OF assms(1)] by (auto simp: fpm_pctl_def)
next
  case False
  then have s: "s = Finishing \<or> s = Terminating"
    using assms(1) by (cases "fpm_state m"; cases s) (simp_all add: stopping_def overridable_def)
  define y where "y = fpm_http_gateways_soft_drain (notify_state s
    ((fpm_pctl_window_escalate m)\<lparr>signal_sent := 0, fpm_state := s\<rparr>))"
  have f: "filter is_fork (concat (map (\<lambda>gw. if ready_path gw
        then map (\<lambda>s. Kill (gw_pid s) SIGUSR1) (filter (\<lambda>s. gw_pid s > 0) (slots gw)) else []) gs)) = []" for gs
    by (auto simp: filter_empty_conv)
  have y: "fpm_state y = s" "signal_sent y = 0" "held_signo y = 0" "\<not> deferred_release y" "escalated y"
    "forks y = forks m" "\<not> ended y"
    using assms s by (auto simp: y_def fpm_http_gateways_soft_drain_def notify_state_def
        fpm_pctl_window_escalate_def emit_def stopping_def forks_def f)
  have e: "fpm_pctl w (Action_Set s) m = fpm_pctl_action_next w y"
    using False s assms(1) by (auto simp: fpm_pctl_def y_def stopping_def)
  show ?thesis
  proof (cases "g_running y = 0")
    case True
    then show ?thesis using action_last_frame [of y _ w, OF _ _ refl] y s
      by (auto simp: e fpm_pctl_action_next_def stays_def stopping_def)
  next
    case False
    with y s first_pass [of y w] show ?thesis
      by (auto simp: e fpm_pctl_action_next_def stays_def stopping_def Let_def emit_def forks_def
          SIGTERM_def SIGQUIT_def)
  qed
qed

lemma stays_same:
  assumes "stopping m" "fpm_state m' = fpm_state m" "held_signo m' = held_signo m"
    "deferred_release m' = deferred_release m" "signal_sent m' = signal_sent m" "ended m' = ended m"
    "effects m' = effects m"
  shows "stays m m'"
  using assms by (simp add: stays_def stopping_def forks_def)

lemma stopping_no_fault_reload:
  "stopping m \<Longrightarrow> fpm_pctl w (Action_Set Reloading) m = m"
  by (cases "fpm_state m") (simp_all add: stopping_def fpm_pctl_def overridable_def)

lemma stays_record_fault: 
  assumes "stopping m" shows "stays m (record_fault w now st m)"
proof -
  have "fpm_pctl w (Action_Set Reloading) (m\<lparr>last_faults := l, fault := f\<rparr>) = m\<lparr>last_faults := l, fault := f\<rparr>" for l f
    using assms by (intro stopping_no_fault_reload) (simp add: stopping_def)
  then show ?thesis using assms
    by (auto simp: record_fault_def Let_def split: option.split intro!: stays_same)
qed

lemma unlink_fields:
  "fpm_state (fpm_child_unlink wp c m) = fpm_state m" "held_signo (fpm_child_unlink wp c m) = held_signo m"
  "deferred_release (fpm_child_unlink wp c m) = deferred_release m"
  "signal_sent (fpm_child_unlink wp c m) = signal_sent m" "ended (fpm_child_unlink wp c m) = ended m"
  "effects (fpm_child_unlink wp c m) = effects m"
  by (simp_all add: fpm_child_unlink_def upd_pool_def)

lemma stopping_child_exited: "stopping m \<Longrightarrow> fpm_crash_backoff_child_exited w wp c m = m"
  by (simp add: stopping_def fpm_crash_backoff_child_exited_def fpm_pctl_can_spawn_children_def split: option.split)

text \<open>What remains of the burial of a child while the master stops.\<close>

lemma stopping_bury_child:
  assumes "stopping m" "\<not> ended m"
    and "m1 = (fpm_child_unlink wp c m)\<lparr>tick := tick m + 1\<rparr>"
  shows "bury_child w st wp c m =
    (if g_running m1 = 0 then fpm_pctl_action_last w m1 else record_fault w (tv_sec (w_clock w (tick m))) st m1)
    \<and> stays m (bury_child w st wp c m)"
proof -
  let ?u = "fpm_child_unlink wp c m"
  have u: "stopping ?u" "tick ?u = tick m" "g_running m1 = g_running ?u" "ended m1 = ended m"
    using assms by (simp_all add: stopping_def fpm_child_unlink_def upd_pool_def)
  have m1: "stays m m1" unfolding assms(3) using assms(1) by (intro stays_same) (simp_all add: unlink_fields)
  then have s1: "stopping m1" by (simp add: stays_def)
  define r where "r = record_fault w (tv_sec (w_clock w (tick m))) st m1"
  have r: "stays m1 r" unfolding r_def using s1 by (rule stays_record_fault)
  then have mk: "snd (fpm_children_make w wp True 1 r) = r" by (simp add: stopping_make stays_def)
  have l: "ended (fpm_pctl_action_last w m1)" "stays m1 (fpm_pctl_action_last w m1)"
    using s1 action_last_frame [of m1 _ w, OF _ _ refl] stays_action_last by (simp_all add: stopping_def)
  have c: "fpm_pctl_child_exited w m1 = (if g_running m1 = 0 then fpm_pctl_action_last w m1 else m1)"
    using s1 by (simp add: fpm_pctl_child_exited_def stopping_def fpm_pctl_def)
  have "bury_child w st wp c m = (let x = fpm_pctl_child_exited w m1 in
     if ended x then x else let m = record_fault w (tv_sec (w_clock w (tick m))) st x in
     if ended m then m else if \<not> c_idle_kill c then snd (fpm_children_make w wp True 1 m) else m)"
    using u by (simp add: bury_child_def stopping_child_exited fpm_clock_get_def assms(3) Let_def)
  then have "bury_child w st wp c m = (if g_running m1 = 0 then fpm_pctl_action_last w m1 else r)"
    using c l(1) mk u(4) assms(2) by (simp add: Let_def r_def)
  moreover from this have "stays m (bury_child w st wp c m)" using l(2) r stays_trans [OF m1] by simp
  ultimately show ?thesis by (simp add: r_def)
qed

lemma stays_extra_exit:
  assumes "stopping m"
  shows "stays m (snd (fpm_children_extra_handle_exit w pid m))"
proof -
  have g: "stays m (fpm_http_gateway_on_exit w g i (fpm_children_extra_forget pid m))" for g i
  proof (rule stays_same [OF assms])
    let ?x = "fpm_http_gateway_on_exit w g i (fpm_children_extra_forget pid m)"
    have "?x = upd_slot g i (\<lambda>s. s\<lparr>gw_pid := 0\<rparr>)
      ((fpm_children_extra_forget pid m)\<lparr>tick := tick (fpm_children_extra_forget pid m) + 1\<rparr>) \<or>
      ?x = (upd_slot g i (\<lambda>s. s\<lparr>gw_pid := 0\<rparr>)
      ((fpm_children_extra_forget pid m)\<lparr>tick := tick (fpm_children_extra_forget pid m) + 1\<rparr>))\<lparr>held_signo := 0\<rparr>"
      using assms by (simp add: fpm_http_gateway_on_exit_def Let_def fpm_pctl_can_spawn_children_def stopping_def
          upd_slot_def fpm_children_extra_forget_def fpm_pctl_release_deferred_def fpm_pctl_window_take_held_def)
    with assms show "fpm_state ?x = fpm_state m" "held_signo ?x = held_signo m"
      "deferred_release ?x = deferred_release m" "signal_sent ?x = signal_sent m" "ended ?x = ended m"
      "effects ?x = effects m"
      by (auto simp: upd_slot_def fpm_children_extra_forget_def stopping_def)
  qed
  then show ?thesis using stays_refl [OF assms]
    by (simp add: fpm_children_extra_handle_exit_def split: option.split)
qed

lemma stays_bury_one:
  assumes "stopping m" "\<not> ended m"
  shows "stays m (bury_one w ev m)"
proof -
  obtain pid st where ev: "ev = (pid, st)" by fastforce
  define m1 where "m1 = fpm_scale_down_drain_forget pid m"
  have m1: "stays m m1" "\<not> ended m1" "stopping m1"
    using assms by (auto simp: m1_def fpm_scale_down_drain_forget_def stopping_def intro!: stays_same)
  have "stays m1 (bury_child w st wp c m1)" for wp c 
    by (rule conjunct2 [OF stopping_bury_child [OF m1(3,2) refl]])
  moreover have "stays m1 (snd (fpm_children_extra_handle_exit w pid m1))" using m1(3) by (rule stays_extra_exit)
  moreover have "stays m1 (emit (Tracer pid) m1)"
    using m1(3) by (simp add: stays_def stopping_def emit_def forks_def)
  ultimately have "stays m1 (bury_one w ev m)" using stays_refl [OF m1(3)]
    by (simp add: ev bury_one_def Let_def m1_def [symmetric] split: option.split)
  with m1(1) show ?thesis by (rule stays_trans)
qed

lemma stays_bury: "stopping m \<Longrightarrow> \<not> ended m \<Longrightarrow> stays m (fpm_children_bury w evs m)"
proof (induction evs arbitrary: m)
  case Nil
  then show ?case by (simp add: stays_refl)
next
  case (Cons ev evs)
  have b: "stays m (bury_one w ev m)" using Cons.prems by (rule stays_bury_one)
  have "stays (bury_one w ev m) (fpm_children_bury w evs (bury_one w ev m))" if "\<not> ended (bury_one w ev m)"
    using that b by (intro Cons.IH) (simp_all add: stays_def)
  then show ?case using b stays_trans [OF b] by (simp add: Let_def)
qed

lemma stays_adopted:
  assumes "stopping m" "\<not> ended m"
  shows "stays m (fpm_children_adopted_exited w wp c m)"
proof -
  define m1 where "m1 = fpm_child_unlink wp c (fpm_scale_down_drain_forget (c_pid c) m)"
  have m1: "stays m m1" "stopping m1" "\<not> ended m1"
    using assms by (auto simp: m1_def fpm_scale_down_drain_forget_def stopping_def unlink_fields intro!: stays_same)
  have "fpm_pctl_child_exited w m1 = (if g_running m1 = 0 then fpm_pctl_action_last w m1 else m1)"
    using m1 by (simp add: fpm_pctl_child_exited_def stopping_def fpm_pctl_def)
  moreover have "ended (fpm_pctl_action_last w m1)" using m1(2) action_last_frame [OF _ _ refl]
    by (simp add: stopping_def)
  ultimately have "fpm_children_adopted_exited w wp c m = (if g_running m1 = 0 then fpm_pctl_action_last w m1 else m1)"
    using m1 by (simp add: fpm_children_adopted_exited_def Let_def m1_def [symmetric] stopping_make)
  then show ?thesis using m1(1) stays_trans [OF m1(1) stays_action_last [OF m1(2)]] by simp
qed

lemma stays_socket_accept:
  assumes "stopping m"
  shows "stays m (fpm_pctl_on_socket_accept w wp m)"
proof -
  define m1 where "m1 = upd_pool wp (\<lambda>p. p\<lparr>socket_event_set := False\<rparr>) m"
  have same: "stays m (m1\<lparr>tick := tick m1 + 1\<rparr>)" "stays m (set_warn wp True m1)"
    "stays m (set_warn wp False (m1\<lparr>tick := tick m1 + 1\<rparr>))"
    by (intro stays_same [OF assms]; simp add: m1_def upd_pool_def set_warn_def)+
  then have "stopping (set_warn wp False (m1\<lparr>tick := tick m1 + 1\<rparr>))" by (simp add: stays_def)
  from stopping_make [OF this, of w wp True 1] show ?thesis
    using same unfolding fpm_pctl_on_socket_accept_def Let_def m1_def [symmetric] by simp
qed

lemma stays_timers:
  assumes "stopping m"
  shows "stays m (fpm_crash_backoff_gate_fire w wp m)" "stays m (fpm_crash_backoff_survive_fire w wp m)"
proof -
  have set: "stays m (set_entry wp e m)" for e
    using assms by (intro stays_same) (simp_all add: set_entry_def)
  then have "snd (fpm_children_make w wp True 1 (set_entry wp e m)) = set_entry wp e m" for e
    by (simp add: stopping_make stays_def)
  then show "stays m (fpm_crash_backoff_gate_fire w wp m)" "stays m (fpm_crash_backoff_survive_fire w wp m)"
    using set stays_refl [OF assms]
    by (simp_all add: fpm_crash_backoff_gate_fire_def fpm_crash_backoff_survive_fire_def Let_def
        split: option.split prod.split)
qed

lemma stays_step: "stopping m \<Longrightarrow> stays m (master_step w m ev)"
proof -
  assume s: "stopping m"
  have idle: "fpm_pctl_perform_idle_server_maintenance_heartbeat w m = m"
    using s by (simp add: fpm_pctl_perform_idle_server_maintenance_heartbeat_def fpm_pctl_can_spawn_children_def stopping_def)
  have timeout: "stays m (fpm_pctl w Action_Timeout m)" if "\<not> ended m"
    using stays_timeout [OF s that] by (simp add: fpm_pctl_def)
  have "stays m (master_handle w ev m)" if "\<not> ended m"
    using s that
    by (cases ev)
      (auto simp: master_handle_def stays_set stays_bury stays_timers stays_socket_accept
        stays_adopted stays_refl timeout idle split: option.split)
  then show "stays m (master_step w m ev)" using stays_refl [OF s] by (simp add: master_step_def)
qed

interpretation stop: machine "master_step w" "\<lambda>_. True" stopping for w
  by unfold_locales (use stays_step in \<open>simp add: stays_def\<close>)



section \<open>Reaping the last child ends the master\<close>

definition all_pids :: "master \<Rightarrow> int list" where
  "all_pids m = concat (map (\<lambda>p. map c_pid (children p)) (pools m))"

lemma g_running_all_pids: "counts_ok m \<Longrightarrow> g_running m = int (length (all_pids m))"
proof -
  have "length (concat (map (\<lambda>p. map c_pid (children p)) ps)) = length (concat (map children ps))" for ps
    by (induction ps) simp_all
  from this [of "pools m"] show "counts_ok m \<Longrightarrow> ?thesis" using sum_running [of "pools m"]
    by (simp add: counts_ok_def all_pids_def del: length_concat)
qed

lemma find_in_pools_complete:
  "pid \<in> set (concat (map (\<lambda>p. map c_pid (children p)) ps)) \<Longrightarrow> find_in_pools pid i ps \<noteq> None"
proof (induction ps arbitrary: i)
  case (Cons p ps)
  show ?case
  proof (cases "find_in_pool pid p")
    case None
    then have "pid \<notin> c_pid ` set (children p)" by (auto simp: find_in_pool_def find_None_iff)
    with Cons None show ?thesis by simp
  qed simp
qed simp

lemma mset_concat_update:
  assumes "i < length xs" "mset (f x) + {#y#} = mset (f (xs ! i))"
  shows "mset (concat (map f (xs[i := x]))) + {#y#} = mset (concat (map f xs))"
proof -
  have "mset (concat (map f xs)) = mset (concat (map f (take i xs @ xs ! i # drop (Suc i) xs)))"
    using assms(1) by (simp add: id_take_nth_drop [symmetric])
  then show ?thesis using assms by (simp add: upd_conv_take_nth_drop assms(2) [symmetric])
qed

lemma all_pids_unlink:
  assumes "wp < length (pools m)" "c \<in> set (children (pool_of m wp))"
  shows "mset (all_pids (fpm_child_unlink wp c m)) + {#c_pid c#} = mset (all_pids m)"
  unfolding all_pids_def fpm_child_unlink_def upd_pool_def
  using assms by (simp, intro mset_concat_update [where f = "\<lambda>p. map c_pid (children p)", simplified])
    (simp_all add: image_mset_Diff)

text \<open>A recorded fault of a stopping master changes the ring only.\<close>

definition same_but_ring :: "master \<Rightarrow> master \<Rightarrow> bool" where
  "same_but_ring m m' \<longleftrightarrow> pools m' = pools m \<and> g_running m' = g_running m \<and> ended m' = ended m \<and> is_child m' = is_child m"

lemma stopping_record_fault:
  assumes "stopping m"
  shows "same_but_ring m (record_fault w now st m)"
proof -
  have "fpm_pctl w (Action_Set Reloading) (m\<lparr>last_faults := l, fault := f\<rparr>) = m\<lparr>last_faults := l, fault := f\<rparr>" for l f
    using assms by (intro stopping_no_fault_reload) (simp add: stopping_def)
  then show ?thesis by (simp add: record_fault_def Let_def same_but_ring_def split: option.split)
qed

lemma bury_all_ends:
  "stopping m \<Longrightarrow> \<not> ended m \<Longrightarrow> \<not> is_child m \<Longrightarrow> counts_ok m \<Longrightarrow> 0 < g_running m \<Longrightarrow>
   mset (map fst evs) = mset (all_pids m) \<Longrightarrow> list_all (\<lambda>ev. snd ev \<noteq> WStopped) evs \<Longrightarrow>
   ended (fpm_children_bury w evs m)"
proof (induction evs arbitrary: m)
  case Nil
  then show ?case by (simp add: g_running_all_pids)
next
  case (Cons ev evs)
  obtain pid st where ev: "ev = (pid, st)" by fastforce
  have "pid \<in># mset (all_pids m)" using Cons.prems(6) ev by (metis fst_conv list.set_intros(1) list.simps(9) set_mset_mset)
  then have "fpm_child_find pid m \<noteq> None"
    by (simp add: fpm_child_find_def all_pids_def find_in_pools_complete del: set_concat)
  then obtain wp c where f: "fpm_child_find pid m = Some (wp, c)" by auto
  define m0 where "m0 = fpm_scale_down_drain_forget pid m"
  define m1 where "m1 = (fpm_child_unlink wp c m0)\<lparr>tick := tick m0 + 1\<rparr>"
  define r where "r = record_fault w (tv_sec (w_clock w (tick m0))) st m1"
  have m0: "stopping m0" "\<not> ended m0" "pools m0 = pools m" "counts_ok m0"
    using Cons.prems by (simp_all add: m0_def fpm_scale_down_drain_forget_def stopping_def counts_ok_def)
  have wp: "wp < length (pools m0)" "c \<in> set (children (pool_of m0 wp))" "c_pid c = pid"
    using child_find_Some [OF f] m0(3) by simp_all
  have b: "bury_one w ev m = (if g_running m1 = 0 then fpm_pctl_action_last w m1 else r)"
    using conjunct1 [OF stopping_bury_child [OF m0(1,2) m1_def]] Cons.prems(7) f
    by (simp add: ev bury_one_def Let_def m0_def [symmetric] r_def)
  have m1: "stopping m1" "counts_ok m1" "\<not> ended m1" "\<not> is_child m1"
    using m0 counts_ok_unlink [OF m0(4) wp(1,2)] Cons.prems(3)
    by (simp_all add: m1_def stopping_def unlink_fields counts_ok_def m0_def fpm_scale_down_drain_forget_def
        fpm_child_unlink_def upd_pool_def)
  show ?case
  proof (cases "g_running m1 = 0")
    case True
    then have "ended (bury_one w ev m)" using b m1(1) action_last_frame [of m1 _ w, OF _ _ refl]
      by (simp add: stopping_def)
    then show ?thesis by (simp add: Let_def)
  next
    case False
    have r: "same_but_ring m1 r" "stays m1 r" unfolding r_def
      using m1(1) by (simp_all add: stopping_record_fault stays_record_fault)
    have "mset (map fst evs) + {#pid#} = mset (all_pids (fpm_child_unlink wp c m0)) + {#pid#}"
      using Cons.prems(6) all_pids_unlink [OF wp(1,2)] wp(3) m0(3) by (simp add: ev all_pids_def)
    then have "mset (map fst evs) = mset (all_pids r)"
      using r(1) by (simp add: same_but_ring_def all_pids_def m1_def)
    moreover have "0 < g_running m1" using False g_running_all_pids [OF m1(2)] by simp
    ultimately have "ended (fpm_children_bury w evs r)"
      using r m1 Cons.prems(7) by (intro Cons.IH) (simp_all add: same_but_ring_def stays_def counts_ok_def)
    then show ?thesis using False r m1(3,4) by (simp add: b Let_def same_but_ring_def)
  qed
qed

lemma timers_keep:
  assumes "stopping m" "\<not> ended m" "0 < g_running m" "m' = foldl (master_step w) m (replicate k Ev_Timer)"
  shows "stopping m' \<and> pools m' = pools m \<and> g_running m' = g_running m \<and> ended m' = ended m \<and> is_child m' = is_child m"
  using assms
proof (induction k arbitrary: m)
  case (Suc k)
  have t: "fpm_pctl w Action_Timeout m =
    m\<lparr>effects := effects m @ concat (map (kills (if signal_sent m = SIGQUIT then SIGTERM else SIGKILL) (fpm_state m)) (pools m))
        @ [Arm_Pctl 1000],
      signal_sent := (if signal_sent m = SIGQUIT then SIGTERM else SIGKILL)\<rparr>"
    using Suc.prems(1-3) by (intro timeout_step) (simp_all add: stopping_def)
  define m1 where "m1 = master_step w m Ev_Timer"
  have "stopping m1 \<and> pools m1 = pools m \<and> g_running m1 = g_running m \<and> ended m1 = ended m \<and> is_child m1 = is_child m"
    using Suc.prems(1) by (simp add: m1_def master_step_def master_handle_def t stopping_def SIGTERM_def SIGKILL_def)
  with Suc.IH [of m1] Suc.prems show ?case by (simp add: m1_def)
qed (simp add: stopping_def)

text \<open>
  C3. A stop completes: a master in normal operation with no gateway window to wait for
  that is told to stop, gracefully or at once, ends as soon as all of its children
  have been reaped, in whatever order they are reported, with whatever exit statuses,
  and however many control timeouts pass before.
\<close>

theorem stop_completes:
  assumes "fpm_state m = Normal" "\<not> ended m" "\<not> is_child m" "\<not> deferred_release m" "counts_ok m"
    and "0 < g_running m" "\<not> fpm_http_ready_gateways_alive m"
    and "s = Finishing \<or> s = Terminating"
    and "mset (map fst evs) = mset (all_pids m)" "list_all (\<lambda>ev. snd ev \<noteq> WStopped) evs"
  shows "ended (foldl (master_step w) m ([Ev_State s] @ replicate k Ev_Timer @ [Ev_Reaped evs]))"
proof -
  define m1 where "m1 = fpm_pctl w (Action_Set s) m"
  have nohold: "\<not> fpm_http_pool_held_for_window w wp m" for wp
    using assms(7) by (simp add: fpm_http_pool_held_for_window_def)
  obtain es where "m1 = m\<lparr>fpm_state := s, signal_sent := (if s = Terminating then SIGTERM else SIGQUIT),
      held_signo := 0, effects := es\<rparr>"
    using stop_begins [OF assms(1,2,4,6,8) refl, of w] nohold unfolding m1_def by (auto simp: list_ex_iff)
  then have m1: "stopping m1" "pools m1 = pools m" "g_running m1 = g_running m" "\<not> ended m1" "\<not> is_child m1"
    using assms by (auto simp: stopping_def SIGTERM_def SIGQUIT_def)
  define m2 where "m2 = foldl (master_step w) m1 (replicate k Ev_Timer)"
  have m2: "stopping m2" "pools m2 = pools m" "g_running m2 = g_running m" "\<not> ended m2" "\<not> is_child m2"
    using timers_keep [OF m1(1,4) _ m2_def] m1 assms(6) by simp_all
  have "ended (fpm_children_bury w evs m2)"
    using m2 assms by (intro bury_all_ends) (simp_all add: counts_ok_def all_pids_def)
  moreover have "foldl (master_step w) m ([Ev_State s] @ replicate k Ev_Timer @ [Ev_Reaped evs]) =
      master_step w m2 (Ev_Reaped evs)"
    using assms(2,3) by (simp add: m2_def m1_def master_step_def master_handle_def)
  ultimately show ?thesis using m2 by (simp add: master_step_def master_handle_def)
qed

theorem stop_completes_witness:
  "ended (foldl (master_step quiet_world) (start_master [quiet_pool [30, 31], quiet_pool [40]])
     ([Ev_State Finishing] @ replicate 1 Ev_Timer @ [Ev_Reaped [(40, WExited 0), (30, WSignaled 15), (31, WSignaled 11)]]))"
  by (rule stop_completes) (simp_all add: counts_ok_def all_pids_def fpm_http_ready_gateways_alive_def)

end
