(* ===== verification/Inet.thy ===== *)
theory Inet
  imports Cstring
begin

text \<open>
  The text form of internet addresses, as the C library functions \<open>inet_pton()\<close> and
  \<open>inet_ntop()\<close> read and print it. The address lists (\<open>fpm_http_acl.c\<close>), the PROXY
  protocol (\<open>fpm_http_proxy_protocol.c\<close>) and the request handling of the gateway
  use them. An address is the list of its bytes, 4 or 16 of them, as numbers.
\<close>

section \<open>IPv4\<close>

definition octet_text :: "string \<Rightarrow> bool" where
  "octet_text t \<longleftrightarrow> t \<noteq> [] \<and> list_all isdigit t \<and> (1 < length t \<longrightarrow> hd t \<noteq> CHR ''0'') \<and> dec_value 0 t \<le> 255"

definition inet_pton4 :: "string \<Rightarrow> nat list option" where
  "inet_pton4 s =
     (let ps = split_on CHR ''.'' s in
      if length ps = 4 \<and> list_all octet_text ps then Some (map (dec_value 0) ps) else None)"

definition inet_ntop4 :: "nat list \<Rightarrow> string" where
  "inet_ntop4 b = join_with CHR ''.'' (map dec b)"

section \<open>IPv6\<close>

definition hex_value :: "char \<Rightarrow> nat option" where
  "hex_value c =
     (if isdigit c then Some (digit_val c)
      else if CHR ''a'' \<le> c \<and> c \<le> CHR ''f'' then Some (of_char c - 87)
      else if CHR ''A'' \<le> c \<and> c \<le> CHR ''F'' then Some (of_char c - 55)
      else None)"

definition put16 :: "nat \<Rightarrow> nat list" where "put16 v = [v div 256, v mod 256]"

text \<open>
  The loop of the reader: the bytes so far, where a double colon stood, the start
  of the current group (a dotted quad may follow there), the digits seen in the
  group and its value.
\<close>

fun pton6_loop :: "string \<Rightarrow> nat list \<Rightarrow> nat option \<Rightarrow> string \<Rightarrow> nat \<Rightarrow> nat \<Rightarrow> (nat list \<times> nat option) option" where
  "pton6_loop [] out colonp tok n val =
     (if n = 0 then Some (out, colonp)
      else if length out + 2 > 16 then None else Some (out @ put16 val, colonp))"
| "pton6_loop (c # src) out colonp tok n val =
     (case hex_value c of
        Some d \<Rightarrow> if n = 4 then None else pton6_loop src out colonp tok (n + 1) (val * 16 + d)
      | None \<Rightarrow>
          if c = CHR '':'' then
            (if n = 0 then
               (if colonp \<noteq> None then None else pton6_loop src out (Some (length out)) src 0 val)
             else if src = [] then None
             else if length out + 2 > 16 then None
             else pton6_loop src (out @ put16 val) colonp src 0 0)
          else if c = CHR ''.'' \<and> length out + 4 \<le> 16 then
            (case inet_pton4 tok of None \<Rightarrow> None | Some b \<Rightarrow> Some (out @ b, colonp))
          else None)"

definition pton6_expand :: "nat list \<times> nat option \<Rightarrow> nat list option" where
  "pton6_expand r =
     (let (out, colonp) = r in
      case colonp of
        None \<Rightarrow> if length out = 16 then Some out else None
      | Some k \<Rightarrow> if length out = 16 then None
                  else Some (take k out @ replicate (16 - length out) 0 @ drop k out))"

definition inet_pton6 :: "string \<Rightarrow> nat list option" where
  "inet_pton6 s =
     (let start = (if s \<noteq> [] \<and> hd s = CHR '':''
                   then (if tl s \<noteq> [] \<and> hd (tl s) = CHR '':'' then Some (tl s) else None)
                   else if s = [] then None else Some s)
      in case start of
           None \<Rightarrow> None
         | Some t \<Rightarrow> (case pton6_loop t [] None t 0 0 of None \<Rightarrow> None | Some r \<Rightarrow> pton6_expand r))"

text \<open>The printer: the longest run of zero groups, the first of them, if longer than one.\<close>

fun words16 :: "nat list \<Rightarrow> nat list" where
  "words16 (a # b # r) = (a * 256 + b) # words16 r"
| "words16 r = []"

definition zero_run :: "nat list \<Rightarrow> nat" where
  "zero_run ws = length (takeWhile (\<lambda>w. w = 0) ws)"

definition best_run :: "nat list \<Rightarrow> nat \<times> nat" where
  "best_run ws = foldl (\<lambda>b i. if zero_run (drop i ws) > snd b then (i, zero_run (drop i ws)) else b) (0, 0) [0..<8]"

fun ntop6_groups :: "nat list \<Rightarrow> nat \<Rightarrow> nat \<Rightarrow> bool \<Rightarrow> nat \<Rightarrow> nat list \<Rightarrow> string" where
  "ntop6_groups b base len emb i [] = []"
| "ntop6_groups b base len emb i (w # ws) =
     (if base \<le> i \<and> i < base + len then (if i = base then '':'' else []) @ ntop6_groups b base len emb (i + 1) ws
      else (if i \<noteq> 0 then '':'' else []) @
           (if i = 6 \<and> emb then inet_ntop4 (drop 12 b)
            else hex w @ ntop6_groups b base len emb (i + 1) ws))"

definition inet_ntop6 :: "nat list \<Rightarrow> string" where
  "inet_ntop6 b =
     (let ws = words16 b; (base, n) = best_run ws; len = (if n < 2 then 0 else n);
          emb = (len \<noteq> 0 \<and> base = 0 \<and> (len = 6 \<or> (len = 5 \<and> ws ! 5 = 65535)))
      in ntop6_groups b base len emb 0 ws @ (if len \<noteq> 0 \<and> base + len = 8 then '':'' else []))"

datatype af = AF_INET | AF_INET6

definition inet_pton :: "af \<Rightarrow> bytes \<Rightarrow> nat list option" where
  "inet_pton f s = (case f of AF_INET \<Rightarrow> inet_pton4 (c_str s) | AF_INET6 \<Rightarrow> inet_pton6 (c_str s))"

definition inet_ntop :: "af \<Rightarrow> nat list \<Rightarrow> string" where
  "inet_ntop f b = (case f of AF_INET \<Rightarrow> inet_ntop4 b | AF_INET6 \<Rightarrow> inet_ntop6 b)"

section \<open>Lemmas\<close>

lemma octet_text_dec [simp]: "n \<le> 255 \<Longrightarrow> octet_text (dec n)"
proof -
  have "n < 10 \<or> hd (dec n) \<noteq> CHR ''0''" for n :: nat
  proof (induction n rule: dec.induct)
    case (1 n)
    show ?case
    proof (cases "n < 10")
      case False
      then have "dec n = dec (n div 10) @ [digit_char (n mod 10)]" by (subst dec.simps) simp
      then have h: "hd (dec n) = hd (dec (n div 10))" by simp
      show ?thesis
      proof (cases "n div 10 < 10")
        case True
        then have "hd (dec (n div 10)) = digit_char (n div 10)" by (subst dec.simps) simp
        moreover have "digit_val (digit_char (n div 10)) \<noteq> 0" using False True by simp
        ultimately show ?thesis using h by (auto simp: digit_val_def)
      next
        case False
        then show ?thesis using 1 h \<open>\<not> n < 10\<close> by simp
      qed
    qed simp
  qed
  moreover have "n < 10 \<Longrightarrow> length (dec n) = 1" by (subst dec.simps) simp
  ultimately show "n \<le> 255 \<Longrightarrow> octet_text (dec n)" unfolding octet_text_def
    by (metis dec_digits dec_nonempty dec_value_dec less_irrefl)
qed

lemma inet_pton4_ntop4:
  assumes "length b = 4" "list_all (\<lambda>x. x \<le> 255) b"
  shows "inet_pton4 (inet_ntop4 b) = Some b"
proof -
  have "list_all (\<lambda>t. CHR ''.'' \<notin> set t) (map dec b)"
    using set_dec_digit by (fastforce simp: list_all_iff)
  moreover have "map dec b \<noteq> []" using assms(1) by auto
  ultimately have "split_on CHR ''.'' (inet_ntop4 b) = map dec b"
    unfolding inet_ntop4_def by (rule split_on_join)
  moreover have "list_all octet_text (map dec b)" using assms(2) by (auto simp: list_all_iff)
  moreover have "map (dec_value 0) (map dec b) = b" by (simp add: comp_def)
  ultimately show ?thesis using assms(1) by (simp add: inet_pton4_def)
qed

lemma dec_value_le: "octet_text t \<Longrightarrow> dec_value 0 t \<le> 255"
  by (simp add: octet_text_def)

lemma inet_pton4_bytes:
  "inet_pton4 s = Some b \<Longrightarrow> length b = 4 \<and> list_all (\<lambda>x. x \<le> 255) b"
  by (auto simp: inet_pton4_def Let_def list_all_iff dec_value_le split: if_splits)

end
