(* ===== verification/Http_Acl.thy ===== *)
theory Http_Acl
  imports Inet
begin

text \<open>
  Address lists (\<open>fpm_http_acl.c\<close>) and what the gateway believes of the
  \<open>X-Forwarded-*\<close> headers (\<open>fpm_http_forwarded.c\<close>). The header lookup of libevent
  is the parameter \<open>find_header\<close>. Memory allocation succeeds.
\<close>

section \<open>Address lists\<close>

datatype fpm_http_acl_entry_s =
    FPM_HTTP_ACL_INET "nat list"
  | FPM_HTTP_ACL_INET6 "nat list"

fun acl_tokens :: "bytes list \<Rightarrow> string + fpm_http_acl_entry_s list" where
  "acl_tokens [] = Inr []"
| "acl_tokens (t # ts) =
     (let tok = dropWhile is_blank t in
      if tok = [] then acl_tokens ts
      else (case inet_pton AF_INET tok of
              Some a \<Rightarrow> rbind (acl_tokens ts) (\<lambda>es. Inr (FPM_HTTP_ACL_INET a # es))
            | None \<Rightarrow>
                (case inet_pton AF_INET6 tok of
                   Some a \<Rightarrow> rbind (acl_tokens ts) (\<lambda>es. Inr (FPM_HTTP_ACL_INET6 a # es))
                 | None \<Rightarrow> Inl tok)))"

text \<open>The list, or no list for one without an address; the error value is the bad token.\<close>

definition fpm_http_acl_parse :: "string option \<Rightarrow> string + fpm_http_acl_entry_s list option" where
  "fpm_http_acl_parse csv =
     (case csv of
        None \<Rightarrow> Inr None
      | Some s \<Rightarrow>
          if s = [] then Inr None
          else rbind (acl_tokens (strtok_all (\<lambda>c. c = CHR '','') s))
                 (\<lambda>es. Inr (if es = [] then None else Some es)))"

definition v4mapped :: "nat list \<Rightarrow> bool" where
  "v4mapped b \<longleftrightarrow> take 12 b = replicate 10 0 @ [255, 255]"

definition acl_entry_matches :: "nat list option \<Rightarrow> nat list option \<Rightarrow> fpm_http_acl_entry_s \<Rightarrow> bool" where
  "acl_entry_matches v4 v6 e =
     (case e of
        FPM_HTTP_ACL_INET a \<Rightarrow>
          (case v4 of Some b \<Rightarrow> b = a
           | None \<Rightarrow> (case v6 of None \<Rightarrow> False | Some b \<Rightarrow> v4mapped b \<and> drop 12 b = a))
      | FPM_HTTP_ACL_INET6 a \<Rightarrow>
          (case v4 of Some b \<Rightarrow> False
           | None \<Rightarrow> (case v6 of None \<Rightarrow> False | Some b \<Rightarrow> b = a)))"

definition fpm_http_acl_check :: "fpm_http_acl_entry_s list option \<Rightarrow> string option \<Rightarrow> bool" where
  "fpm_http_acl_check acl peer_addr =
     (case acl of
        None \<Rightarrow> True
      | Some es \<Rightarrow>
          if es = [] then True
          else (case peer_addr of
                  None \<Rightarrow> False
                | Some peer \<Rightarrow>
                    let v4 = inet_pton AF_INET peer;
                        v6 = (if v4 = None then inet_pton AF_INET6 peer else None)
                    in if v4 = None \<and> v6 = None then False
                       else list_ex (acl_entry_matches v4 v6) es))"

section \<open>Forwarded headers\<close>

definition FPM_HTTP_FORWARDED_ADDR_LEN :: nat where "FPM_HTTP_FORWARDED_ADDR_LEN = 46"
definition FPM_HTTP_FORWARDED_PORT_LEN :: nat where "FPM_HTTP_FORWARDED_PORT_LEN = 6"

record fpm_http_forwarded_result_s =
  remote_addr :: string
  scheme :: string
  https :: bool
  server_port :: string

definition fpm_http_forwarded_trim_copy :: "bytes \<Rightarrow> nat \<Rightarrow> string" where
  "fpm_http_forwarded_trim_copy value out_size = take (out_size - 1) (trim_blank value)"

definition last_element :: "bytes \<Rightarrow> bytes" where
  "last_element s = rev (takeWhile (\<lambda>c. c \<noteq> CHR '','') (rev s))"

text \<open>The walk from the right; the argument is the text left of \<open>end\<close>.\<close>

function xff_walk :: "fpm_http_acl_entry_s list option \<Rightarrow> bytes \<Rightarrow> string" where
  "xff_walk trusted s =
     (if s = [] then []
      else
        let elem = last_element s;
            candidate = fpm_http_forwarded_trim_copy elem FPM_HTTP_FORWARDED_ADDR_LEN
        in if candidate \<noteq> [] \<and> \<not> fpm_http_acl_check trusted (Some candidate) then candidate
           else xff_walk trusted (take (length s - length elem - 1) s))"
  by pat_completeness auto
termination
  by (relation "measure (\<lambda>(t, s). length s)") auto

declare xff_walk.simps [simp del]

definition fpm_http_forwarded_resolve ::
  "fpm_http_acl_entry_s list option \<Rightarrow> string option \<Rightarrow> (string \<Rightarrow> string option) \<Rightarrow> fpm_http_forwarded_result_s" where
  "fpm_http_forwarded_resolve trusted peer_addr find_header =
     (let out = \<lparr>remote_addr = [], scheme = ''http'', https = False, server_port = []\<rparr> in
      if trusted = None \<or> \<not> fpm_http_acl_check trusted peer_addr then out
      else
        let out = (case find_header ''X-Forwarded-For'' of
                     None \<Rightarrow> out
                   | Some xff \<Rightarrow> if xff = [] then out else out\<lparr>remote_addr := xff_walk trusted xff\<rparr>);
            out = (case find_header ''X-Forwarded-Proto'' of
                     None \<Rightarrow> out
                   | Some xfp \<Rightarrow>
                       if xfp = [] then out
                       else if strcaseeq xfp ''https'' then out\<lparr>https := True, scheme := ''https''\<rparr>
                       else if strcaseeq xfp ''http'' then out\<lparr>https := False, scheme := ''http''\<rparr>
                       else out)
        in (case find_header ''X-Forwarded-Port'' of
              None \<Rightarrow> out
            | Some xfport \<Rightarrow>
                if xfport = [] then out
                else let (port, e) = strtol xfport in
                     if e = [] \<and> port > 0 \<and> port \<le> 65535
                     then out\<lparr>server_port := take (FPM_HTTP_FORWARDED_PORT_LEN - 1) (dec_int port)\<rparr>
                     else out))"

section \<open>The walk and the list of elements\<close>

lemma split_on_snoc: "c \<notin> set e \<Longrightarrow> split_on c (s @ c # e) = split_on c s @ [e]"
proof (induction s)
  case Nil
  then show ?case by (simp add: split_on_piece)
next
  case (Cons x s)
  then show ?case by (cases "split_on c s") (auto split: list.split)
qed

text \<open>The reference: the rightmost element that is an untrusted address.\<close>

definition untrusted :: "fpm_http_acl_entry_s list option \<Rightarrow> string \<Rightarrow> bool" where
  "untrusted trusted c \<longleftrightarrow> c \<noteq> [] \<and> \<not> fpm_http_acl_check trusted (Some c)"

definition xff_elements :: "bytes \<Rightarrow> string list" where
  "xff_elements s = map (\<lambda>e. fpm_http_forwarded_trim_copy e FPM_HTTP_FORWARDED_ADDR_LEN) (split_on CHR '','' s)"

lemma last_element_cases:
  "(CHR '','' \<notin> set s \<and> last_element s = s) \<or>
   (\<exists>r e. s = r @ CHR '','' # e \<and> CHR '','' \<notin> set e \<and> last_element s = e)"
proof (cases "CHR '','' \<in> set s")
  case True
  then obtain e r where "s = r @ CHR '','' # e" "CHR '','' \<notin> set e"
    by (metis split_list_last)
  moreover from this have "last_element s = e"
    unfolding last_element_def by simp
  ultimately show ?thesis by blast
next
  case False
  have t: "takeWhile (\<lambda>c. c \<noteq> CHR '','') (rev s) = rev s"
    by (rule takeWhile_eq_all_conv [THEN iffD2]) (use False in auto)
  have "last_element s = s" unfolding last_element_def t by simp
  then show ?thesis using False by simp
qed


definition first_or_empty :: "('a list \<Rightarrow> bool) \<Rightarrow> 'a list list \<Rightarrow> 'a list" where
  "first_or_empty P xs = (case find P xs of None \<Rightarrow> [] | Some x \<Rightarrow> x)"

lemma first_or_empty_simps [simp]:
  "first_or_empty P [] = []"
  "first_or_empty P (x # xs) = (if P x then x else first_or_empty P xs)"
  by (simp_all add: first_or_empty_def)

lemma xff_walk_rightmost:
  "xff_walk trusted s = first_or_empty (untrusted trusted) (rev (xff_elements s))"
proof (induction "length s" arbitrary: s rule: less_induct)
  case less
  show ?case
  proof (cases "s = []")
    case True
    then show ?thesis
      by (simp add: xff_walk.simps xff_elements_def untrusted_def fpm_http_forwarded_trim_copy_def
          trim_blank_def trim_left_def trim_right_def)
  next
    case False
    let ?c = "\<lambda>e. fpm_http_forwarded_trim_copy e FPM_HTTP_FORWARDED_ADDR_LEN"
    have step: "xff_walk trusted s = (if untrusted trusted (?c (last_element s)) then ?c (last_element s)
        else xff_walk trusted (take (length s - length (last_element s) - 1) s))"
      using False by (subst xff_walk.simps) (simp add: Let_def untrusted_def)
    from last_element_cases [of s] consider
        "CHR '','' \<notin> set s" "last_element s = s"
      | r e where "s = r @ CHR '','' # e" "CHR '','' \<notin> set e" "last_element s = e" by blast
    then show ?thesis
    proof cases
      case 1
      then show ?thesis unfolding step
        by (simp add: xff_elements_def split_on_piece) (simp add: xff_walk.simps)
    next
      case 2
      then have "xff_walk trusted r = first_or_empty (untrusted trusted) (rev (xff_elements r))"
        by (intro less.hyps) simp
      with 2 show ?thesis unfolding step by (simp add: xff_elements_def split_on_snoc)
    qed
  qed
qed

lemma forwarded_remote_addr:
  assumes "trusted \<noteq> None" "fpm_http_acl_check trusted peer"
    "find_header ''X-Forwarded-For'' = Some xff" "xff \<noteq> []"
  shows "remote_addr (fpm_http_forwarded_resolve trusted peer find_header) =
    first_or_empty (untrusted trusted) (rev (xff_elements xff))"
proof -
  from assms(1) obtain acl where "trusted = Some acl" by blast
  then show ?thesis using assms(2-)
    by (simp add: fpm_http_forwarded_resolve_def Let_def case_prod_beta xff_walk_rightmost split: option.split)
qed

lemma split_on_append_pieces:
  assumes "list_all (\<lambda>t. c \<notin> set t) ts" "ts \<noteq> []"
  shows "split_on c (p @ c # join_with c ts) = split_on c p @ ts"
  using assms
proof (induction ts rule: rev_induct)
  case (snoc t ts)
  show ?case
  proof (cases "ts = []")
    case True
    with snoc.prems show ?thesis by (simp add: split_on_snoc)
  next
    case False
    with snoc show ?thesis using split_on_snoc [of c t "p @ c # join_with c ts"] by (simp add: join_with_snoc)
  qed
qed simp

lemma first_or_empty_skip:
  "list_all (\<lambda>x. \<not> P x) xs \<Longrightarrow> first_or_empty P (xs @ ys) = first_or_empty P ys"
  by (induction xs) simp_all

text \<open>
  C13. A client cannot choose the address the gateway reports for it. When a trusted
  proxy's connection carries the real client address in \<open>X-Forwarded-For\<close>, followed
  only by trusted proxies, then \<open>REMOTE_ADDR\<close> is that address, whatever text the client
  itself had put in the header to the left of it.
\<close>

theorem forwarded_not_spoofable:
  assumes "trusted \<noteq> None" "fpm_http_acl_check trusted peer"
    and "find_header ''X-Forwarded-For'' = Some xff"
    and "xff = forged @ CHR '','' # join_with CHR '','' (real # proxies) \<or> xff = join_with CHR '','' (real # proxies)"
    and "list_all (\<lambda>t. CHR '','' \<notin> set t) (real # proxies)"
    and "list_all (\<lambda>p. \<not> untrusted trusted (fpm_http_forwarded_trim_copy p FPM_HTTP_FORWARDED_ADDR_LEN)) proxies"
    and "real \<noteq> []" "trim_blank real = real" "length real < FPM_HTTP_FORWARDED_ADDR_LEN"
    and "\<not> fpm_http_acl_check trusted (Some real)"
  shows "remote_addr (fpm_http_forwarded_resolve trusted peer find_header) = real"
proof -
  let ?c = "\<lambda>e. fpm_http_forwarded_trim_copy e FPM_HTTP_FORWARDED_ADDR_LEN"
  have pieces: "\<exists>us. split_on CHR '','' xff = us @ real # proxies"
    using assms(4)
  proof
    assume "xff = forged @ CHR '','' # join_with CHR '','' (real # proxies)"
    then show ?thesis using split_on_append_pieces [OF assms(5), of forged] by auto
  next
    assume "xff = join_with CHR '','' (real # proxies)"
    then show ?thesis using split_on_join [OF assms(5)] by auto
  qed
  then obtain us where us: "split_on CHR '','' xff = us @ real # proxies" by blast
  have ne: "xff \<noteq> []" using assms(4,7) by (cases proxies) auto
  have "?c real = real" using assms(8,9) by (simp add: fpm_http_forwarded_trim_copy_def)
  then have "first_or_empty (untrusted trusted) (rev (xff_elements xff)) = real"
    using assms(6,7,10) by (simp add: xff_elements_def us rev_map first_or_empty_skip list_all_iff untrusted_def)
  then show ?thesis using forwarded_remote_addr [where find_header = find_header, OF assms(1,2,3) ne] by simp
qed

theorem forwarded_not_spoofable_witness:
  "remote_addr (fpm_http_forwarded_resolve (Some [FPM_HTTP_ACL_INET [10, 0, 0, 1]]) (Some ''10.0.0.1'')
     (\<lambda>n. if n = ''X-Forwarded-For'' then Some ''127.0.0.1, evil,203.0.113.9,10.0.0.1'' else None)) = ''203.0.113.9''"
proof -
  have "fpm_http_acl_check (Some [FPM_HTTP_ACL_INET [10, 0, 0, 1]]) (Some ''10.0.0.1'')"
    "\<not> fpm_http_acl_check (Some [FPM_HTTP_ACL_INET [10, 0, 0, 1]]) (Some ''203.0.113.9'')"
    "\<not> untrusted (Some [FPM_HTTP_ACL_INET [10, 0, 0, 1]])
        (fpm_http_forwarded_trim_copy ''10.0.0.1'' FPM_HTTP_FORWARDED_ADDR_LEN)"
    "trim_blank ''203.0.113.9'' = ''203.0.113.9''"
    by code_simp+
  then show ?thesis
    using forwarded_not_spoofable [of "Some [FPM_HTTP_ACL_INET [10, 0, 0, 1]]" "Some ''10.0.0.1''"
      "\<lambda>n. if n = ''X-Forwarded-For'' then Some ''127.0.0.1, evil,203.0.113.9,10.0.0.1'' else None"
      "''127.0.0.1, evil,203.0.113.9,10.0.0.1''" "''127.0.0.1, evil''" "''203.0.113.9''" "[''10.0.0.1'']"]
    by (simp add: FPM_HTTP_FORWARDED_ADDR_LEN_def)
qed

text \<open>The headers of a peer that is not a trusted proxy are ignored.\<close>

lemma forwarded_untrusted_ignored:
  assumes "trusted = None \<or> \<not> fpm_http_acl_check trusted peer"
  shows "fpm_http_forwarded_resolve trusted peer find_header =
    \<lparr>remote_addr = [], scheme = ''http'', https = False, server_port = []\<rparr>"
  using assms by (auto simp: fpm_http_forwarded_resolve_def Let_def)

section \<open>What the list admits\<close>

lemma c_str_octets [simp]: "c_str (inet_ntop4 b) = inet_ntop4 b"
proof (rule c_str_id)
  show "NUL \<notin> set (inet_ntop4 b)"
    using set_join_with [of "CHR ''.''" "map dec b"] set_dec_digit isdigit_of_char
    by (force simp: inet_ntop4_def NUL_def)
qed

lemma inet_ntop4_chars: "c \<in> set (inet_ntop4 b) \<Longrightarrow> isdigit c \<or> c = CHR ''.''"
  using set_join_with [of "CHR ''.''" "map dec b"] set_dec_digit by (force simp: inet_ntop4_def)

lemma inet_ntop4_nonempty: "length b = 4 \<Longrightarrow> inet_ntop4 b \<noteq> []"
  by (cases b) (auto simp: inet_ntop4_def join_with_eq_Nil list_all_iff)

definition ipv4 :: "nat list \<Rightarrow> bool" where
  "ipv4 b \<longleftrightarrow> length b = 4 \<and> list_all (\<lambda>x. x \<le> 255) b"

lemma inet_pton_ntop4: "ipv4 b \<Longrightarrow> inet_pton AF_INET (inet_ntop4 b) = Some b"
  by (simp add: inet_pton_def inet_pton4_ntop4 ipv4_def)

lemma acl_tokens_v4:
  "list_all ipv4 bs \<Longrightarrow> acl_tokens (map inet_ntop4 bs) = Inr (map FPM_HTTP_ACL_INET bs)"
proof (induction bs)
  case (Cons b bs)
  have "inet_ntop4 b \<noteq> []" using Cons.prems by (simp add: ipv4_def inet_ntop4_nonempty)
  then have "\<not> is_blank (hd (inet_ntop4 b))"
    using inet_ntop4_chars [of "hd (inet_ntop4 b)" b] by (auto simp: is_blank_def)
  then have "dropWhile is_blank (inet_ntop4 b) = inet_ntop4 b" by (cases "inet_ntop4 b") auto
  then show ?case using Cons \<open>inet_ntop4 b \<noteq> []\<close> by (simp add: inet_pton_ntop4)
qed simp

text \<open>
  C14. A list of IPv4 addresses written with commas admits a peer with an IPv4 address
  exactly when the address is in the list.
\<close>

theorem acl_admits_exactly_the_listed:
  assumes "bs \<noteq> []" "list_all ipv4 bs" "ipv4 b"
  shows "\<exists>acl. fpm_http_acl_parse (Some (join_with CHR '','' (map inet_ntop4 bs))) = Inr (Some acl) \<and>
    (fpm_http_acl_check (Some acl) (Some (inet_ntop4 b)) \<longleftrightarrow> b \<in> set bs)"
proof -
  have no: "CHR '','' \<notin> set (inet_ntop4 x)" for x using inet_ntop4_chars by fastforce
  have ne: "list_all (\<lambda>t. t \<noteq> []) (map inet_ntop4 bs)"
    using assms(2) inet_ntop4_nonempty by (auto simp: list_all_iff ipv4_def)
  then have "strtok_all (\<lambda>c. c = CHR '','') (join_with CHR '','' (map inet_ntop4 bs)) = map inet_ntop4 bs"
    using no by (intro strtok_all_join) (auto simp: list_all_iff)
  moreover have "join_with CHR '','' (map inet_ntop4 bs) \<noteq> []" using join_with_eq_Nil [OF ne] assms(1) by simp
  ultimately have p: "fpm_http_acl_parse (Some (join_with CHR '','' (map inet_ntop4 bs))) =
      Inr (Some (map FPM_HTTP_ACL_INET bs))"
    using assms by (simp add: fpm_http_acl_parse_def acl_tokens_v4)
  have "fpm_http_acl_check (Some (map FPM_HTTP_ACL_INET bs)) (Some (inet_ntop4 b)) \<longleftrightarrow> b \<in> set bs"
    using assms inet_pton_ntop4 [OF assms(3)]
    by (auto simp: fpm_http_acl_check_def list_ex_iff acl_entry_matches_def)
  with p show ?thesis by blast
qed

theorem acl_admits_exactly_the_listed_witness:
  "\<exists>acl. fpm_http_acl_parse (Some (join_with CHR '','' (map inet_ntop4 [[10, 0, 0, 1], [192, 168, 1, 7]]))) = Inr (Some acl) \<and>
    (fpm_http_acl_check (Some acl) (Some (inet_ntop4 [192, 168, 1, 7])))"
  using acl_admits_exactly_the_listed [of "[[10, 0, 0, 1], [192, 168, 1, 7]]" "[192, 168, 1, 7]"]
  by (simp add: ipv4_def)

text \<open>
  C22. Matching across the families goes one way: a peer with an IPv4-mapped IPv6 address
  is admitted by the IPv4 entry, but a peer with the IPv4 address is not admitted by
  the IPv4-mapped IPv6 entry.
\<close>

theorem acl_mapped_one_way:
  assumes "ipv4 b" "NUL \<notin> set t" "inet_pton4 t = None" "inet_pton6 t = Some (replicate 10 0 @ [255, 255] @ b)"
  shows "fpm_http_acl_check (Some [FPM_HTTP_ACL_INET b]) (Some t) \<and>
    \<not> fpm_http_acl_check (Some [FPM_HTTP_ACL_INET6 (replicate 10 0 @ [255, 255] @ b)]) (Some (inet_ntop4 b))"
  using assms inet_pton_ntop4 [OF assms(1)]
  by (simp add: fpm_http_acl_check_def acl_entry_matches_def inet_pton_def v4mapped_def)

theorem acl_mapped_one_way_witness:
  "fpm_http_acl_check (Some [FPM_HTTP_ACL_INET [1, 2, 3, 4]]) (Some ''::ffff:1.2.3.4'') \<and>
   \<not> fpm_http_acl_check (Some [FPM_HTTP_ACL_INET6 (replicate 10 0 @ [255, 255] @ [1, 2, 3, 4])]) (Some (inet_ntop4 [1, 2, 3, 4]))"
proof -
  have "inet_pton4 ''::ffff:1.2.3.4'' = None" by code_simp
  moreover have "inet_pton6 ''::ffff:1.2.3.4'' = Some (replicate 10 0 @ [255, 255] @ [1, 2, 3, 4])" by code_simp
  ultimately show ?thesis by (intro acl_mapped_one_way) (simp_all add: ipv4_def NUL_def)
qed

end
