(* ===== verification/Proxy_Protocol.thy ===== *)
theory Proxy_Protocol
  imports Http_Acl
begin

text \<open>
  The PROXY protocol: the header parser of \<open>fpm_http_proxy_protocol.c\<close>, and the
  reader of \<open>fpm_http_proxy.c\<close> that takes the header off a socket before the HTTP
  server sees a byte. The socket is the queue of bytes the kernel holds.
\<close>

section \<open>The parser\<close>

definition FPM_HTTP_PROXY_V1_MAX :: nat where "FPM_HTTP_PROXY_V1_MAX = 107"
definition FPM_HTTP_PROXY_V2_BODY_MAX :: nat where "FPM_HTTP_PROXY_V2_BODY_MAX = 512"
definition FPM_HTTP_PROXY_MAX :: nat where "FPM_HTTP_PROXY_MAX = 16 + FPM_HTTP_PROXY_V2_BODY_MAX"
definition INET6_ADDRSTRLEN :: nat where "INET6_ADDRSTRLEN = 46"

record fpm_http_proxy_header_s =
  h_length :: nat
  has_source :: bool
  h_addr :: string
  h_port :: nat

datatype fpm_http_proxy_status =
    FPM_HTTP_PROXY_NEED_MORE
  | FPM_HTTP_PROXY_DONE fpm_http_proxy_header_s
  | FPM_HTTP_PROXY_BAD

definition byte :: "bytes \<Rightarrow> nat \<Rightarrow> nat" where
  "byte buf i = of_char (buf ! i)"

definition proxy_v2_sig :: bytes where
  "proxy_v2_sig = map char_of [0x0D, 0x0A, 0x0D, 0x0A, 0x00, 0x0D, 0x0A, 0x51, 0x55, 0x49, 0x54, 0x0A :: nat]"

definition proxy_v1_port :: "bytes \<Rightarrow> nat option" where
  "proxy_v1_port tok =
     (if tok = [] \<or> length tok > 5 then None
      else if \<not> list_all isdigit tok then None
      else if dec_value 0 tok > 65535 then None
      else Some (dec_value 0 tok))"

definition proxy_v1_addr :: "af \<Rightarrow> bytes \<Rightarrow> nat list option" where
  "proxy_v1_addr family tok =
     (if tok = [] \<or> length tok \<ge> INET6_ADDRSTRLEN then None else inet_pton family tok)"

text \<open>The token at the front and what follows it; a token is not empty.\<close>

definition proxy_v1_token :: "bytes \<Rightarrow> (bytes \<times> bytes) option" where
  "proxy_v1_token p =
     (let tok = takeWhile (\<lambda>c. c \<noteq> CHR '' '') p in
      if tok = [] then None else Some (tok, dropWhile (\<lambda>c. c \<noteq> CHR '' '') p))"

definition proxy_v1_sep :: "bytes \<Rightarrow> bytes option" where
  "proxy_v1_sep p = (if p \<noteq> [] \<and> hd p = CHR '' '' then Some (tl p) else None)"

text \<open>One more field: a separator, a token, and its value.\<close>

definition v1_first :: "(bytes \<Rightarrow> 'a option) \<Rightarrow> bytes \<Rightarrow> ('a \<times> bytes) option" where
  "v1_first f p =
     (case proxy_v1_token p of
        None \<Rightarrow> None
      | Some (tok, r) \<Rightarrow> (case f tok of None \<Rightarrow> None | Some v \<Rightarrow> Some (v, r)))"

definition v1_next :: "(bytes \<Rightarrow> 'a option) \<Rightarrow> bytes \<Rightarrow> ('a \<times> bytes) option" where
  "v1_next f p = (case proxy_v1_sep p of None \<Rightarrow> None | Some r \<Rightarrow> v1_first f r)"

definition v1_fields :: "af \<Rightarrow> bytes \<Rightarrow> (nat list \<times> nat \<times> bytes) option" where
  "v1_fields family p =
     (case v1_first (proxy_v1_addr family) p of
        None \<Rightarrow> None
      | Some (src, p) \<Rightarrow>
     (case v1_next (proxy_v1_addr family) p of
        None \<Rightarrow> None
      | Some (dst, p) \<Rightarrow>
     (case v1_next proxy_v1_port p of
        None \<Rightarrow> None
      | Some (sport, p) \<Rightarrow>
     (case v1_next proxy_v1_port p of
        None \<Rightarrow> None
      | Some (dport, p) \<Rightarrow> Some (src, sport, p)))))"

definition proxy_v1_line :: "bytes \<Rightarrow> fpm_http_proxy_status" where
  "proxy_v1_line p =
     (if take 7 p = ''UNKNOWN'' \<and> (length p = 7 \<or> p ! 7 = CHR '' '')
      then FPM_HTTP_PROXY_DONE \<lparr>h_length = 0, has_source = False, h_addr = [], h_port = 0\<rparr>
      else
        let family = (if take 5 p = ''TCP4 '' then Some AF_INET
                      else if take 5 p = ''TCP6 '' then Some AF_INET6 else None)
        in case family of
             None \<Rightarrow> FPM_HTTP_PROXY_BAD
           | Some f \<Rightarrow>
               (case v1_fields f (drop 5 p) of
                  None \<Rightarrow> FPM_HTTP_PROXY_BAD
                | Some (src, sport, p) \<Rightarrow>
                    if p \<noteq> [] then FPM_HTTP_PROXY_BAD
                    else FPM_HTTP_PROXY_DONE
                      \<lparr>h_length = 0, has_source = True, h_addr = inet_ntop f src, h_port = sport\<rparr>))"

definition proxy_parse_v1 :: "bytes \<Rightarrow> fpm_http_proxy_status" where
  "proxy_parse_v1 buf =
     (let len = length buf; window = min len FPM_HTTP_PROXY_V1_MAX; n = min len 6 in
      if take n buf \<noteq> take n ''PROXY '' then FPM_HTTP_PROXY_BAD
      else if len < 6 then FPM_HTTP_PROXY_NEED_MORE
      else
        let i = length (takeWhile (\<lambda>c. c \<noteq> CHR 0x0A) (take window buf)) in
        if i = window then (if len < FPM_HTTP_PROXY_V1_MAX then FPM_HTTP_PROXY_NEED_MORE else FPM_HTTP_PROXY_BAD)
        else if i = 0 \<or> buf ! (i - 1) \<noteq> CHR 0x0D then FPM_HTTP_PROXY_BAD
        else (case proxy_v1_line (drop 6 (take (i - 1) buf)) of
                FPM_HTTP_PROXY_DONE tmp \<Rightarrow> FPM_HTTP_PROXY_DONE (tmp\<lparr>h_length := i + 1\<rparr>)
              | st \<Rightarrow> st))"

definition v2_body :: "bytes \<Rightarrow> nat" where
  "v2_body buf = byte buf 14 * 256 + byte buf 15"

definition v2_refused :: "bytes \<Rightarrow> bool" where
  "v2_refused buf \<longleftrightarrow>
     (let version = byte buf 12 div 16; command = byte buf 12 mod 16;
          family = byte buf 13 div 16; protocol = byte buf 13 mod 16
      in version \<noteq> 2 \<or> command > 1 \<or> family > 3 \<or> protocol > 1 \<or> v2_body buf > FPM_HTTP_PROXY_V2_BODY_MAX)"

text \<open>The address block of a complete header.\<close>

definition v2_address :: "bytes \<Rightarrow> fpm_http_proxy_status" where
  "v2_address buf =
     (let command = byte buf 12 mod 16; family = byte buf 13 div 16; body = v2_body buf;
          tmp = \<lparr>h_length = 16 + body, has_source = False, h_addr = [], h_port = 0\<rparr>
      in
      if command = 0 \<or> family = 0 \<or> family = 3 then FPM_HTTP_PROXY_DONE tmp
      else if family = 1 then
        (if body < 12 then FPM_HTTP_PROXY_BAD
         else FPM_HTTP_PROXY_DONE (tmp\<lparr>has_source := True,
                h_addr := inet_ntop AF_INET (map of_char (take 4 (drop 16 buf))),
                h_port := byte buf 24 * 256 + byte buf 25\<rparr>))
      else
        (if body < 36 then FPM_HTTP_PROXY_BAD
         else FPM_HTTP_PROXY_DONE (tmp\<lparr>has_source := True,
                h_addr := inet_ntop AF_INET6 (map of_char (take 16 (drop 16 buf))),
                h_port := byte buf 48 * 256 + byte buf 49\<rparr>)))"

definition proxy_parse_v2 :: "bytes \<Rightarrow> fpm_http_proxy_status" where
  "proxy_parse_v2 buf =
     (let len = length buf; n = min len 12 in
      if take n buf \<noteq> take n proxy_v2_sig then FPM_HTTP_PROXY_BAD
      else if len < 16 then FPM_HTTP_PROXY_NEED_MORE
      else if v2_refused buf then FPM_HTTP_PROXY_BAD
      else if len < 16 + v2_body buf then FPM_HTTP_PROXY_NEED_MORE
      else v2_address buf)"

definition fpm_http_proxy_parse :: "bytes \<Rightarrow> fpm_http_proxy_status" where
  "fpm_http_proxy_parse buf =
     (if buf = [] then FPM_HTTP_PROXY_NEED_MORE
      else if buf ! 0 = CHR ''P'' then proxy_parse_v1 buf
      else if buf ! 0 = CHR 0x0D then proxy_parse_v2 buf
      else FPM_HTTP_PROXY_BAD)"

section \<open>The reader\<close>

record proxy_dl =
  proxy_on :: bool
  proxy_pending :: bool
  proxy_accepted :: bool
  proxy_buf :: bytes
  proxy_hdr :: "fpm_http_proxy_header_s option"
  sock :: bytes
  sock_eof :: bool
  sock_shut :: bool

definition fpm_http_read_deadline_proxy_done :: "bool \<Rightarrow> proxy_dl \<Rightarrow> proxy_dl" where
  "fpm_http_read_deadline_proxy_done accepted dl =
     dl\<lparr>proxy_pending := False, proxy_accepted := accepted, sock_shut := sock_shut dl \<or> \<not> accepted\<rparr>"

definition fpm_http_proxy_start ::
  "fpm_http_acl_entry_s list option \<Rightarrow> string option \<Rightarrow> proxy_dl \<Rightarrow> proxy_dl" where
  "fpm_http_proxy_start proxy_trusted_acl peer dl =
     (if proxy_trusted_acl = None \<or> peer = None \<or> \<not> fpm_http_acl_check proxy_trusted_acl peer
      then fpm_http_read_deadline_proxy_done False dl
      else dl\<lparr>proxy_pending := True, proxy_buf := []\<rparr>)"

text \<open>
  The read callback. An empty queue blocks unless the peer has closed; the bytes
  that were peeked are there when they are received.
\<close>

definition fpm_http_proxy_read :: "proxy_dl \<Rightarrow> proxy_dl" where
  "fpm_http_proxy_read dl =
     (let room = FPM_HTTP_PROXY_MAX - length (proxy_buf dl);
          peeked = take room (sock dl)
      in
      if peeked = [] then (if sock_eof dl then fpm_http_read_deadline_proxy_done False dl else dl)
      else
        let buf = proxy_buf dl @ peeked in
        case fpm_http_proxy_parse buf of
          FPM_HTTP_PROXY_BAD \<Rightarrow> fpm_http_read_deadline_proxy_done False dl
        | FPM_HTTP_PROXY_NEED_MORE \<Rightarrow> dl\<lparr>sock := drop (length peeked) (sock dl), proxy_buf := buf\<rparr>
        | FPM_HTTP_PROXY_DONE hdr \<Rightarrow>
            if h_length hdr \<le> length (proxy_buf dl) \<or> h_length hdr > length buf
            then fpm_http_read_deadline_proxy_done False dl
            else
              let need = h_length hdr - length (proxy_buf dl) in
              fpm_http_read_deadline_proxy_done True
                (dl\<lparr>sock := drop need (sock dl), proxy_hdr := Some hdr, proxy_buf := [], proxy_accepted := True\<rparr>))"

text \<open>The read deadline of the connection, as far as the header is concerned.\<close>

definition read_deadline_fire :: "proxy_dl \<Rightarrow> proxy_dl" where
  "read_deadline_fire dl = (if proxy_pending dl then fpm_http_read_deadline_proxy_done False dl else dl)"

text \<open>The admission of a request: the header, once, and only an accepted one.\<close>

definition fpm_http_proxy_admit ::
  "proxy_dl option \<Rightarrow> fpm_http_proxy_header_s option \<Rightarrow> bool \<times> fpm_http_proxy_header_s option" where
  "fpm_http_proxy_admit dl client_hdr =
     (case client_hdr of
        Some h \<Rightarrow> (True, Some h)
      | None \<Rightarrow>
          (case dl of
             None \<Rightarrow> (False, None)
           | Some d \<Rightarrow>
               if \<not> proxy_on d \<or> proxy_pending d \<or> \<not> proxy_accepted d then (False, None)
               else (True, proxy_hdr d)))"

section \<open>The answer does not depend on how the bytes arrive\<close>

lemma v1_line_decides: "proxy_v1_line p \<noteq> FPM_HTTP_PROXY_NEED_MORE"
  by (simp add: proxy_v1_line_def Let_def split: option.split prod.split)

lemma take_prefix_mono:
  "take (min (length buf) n) buf \<noteq> take (min (length buf) n) s \<Longrightarrow>
   take (min (length (buf @ ext)) n) (buf @ ext) \<noteq> take (min (length (buf @ ext)) n) s"
proof
  assume a: "take (min (length buf) n) buf \<noteq> take (min (length buf) n) s"
    and b: "take (min (length (buf @ ext)) n) (buf @ ext) = take (min (length (buf @ ext)) n) s"
  have "take (min (length buf) n) (take (min (length (buf @ ext)) n) (buf @ ext)) =
      take (min (length buf) n) (take (min (length (buf @ ext)) n) s)" using b by simp
  then show False using a by (simp add: min_def split: if_splits)
qed

lemma take_prefix_take:
  "take (min (length buf) n) buf = take (min (length buf) n) s \<Longrightarrow>
   take (min (length (take k buf)) n) (take k buf) = take (min (length (take k buf)) n) s"
  using take_prefix_mono [of "take k buf" n s "drop k buf"] by auto

text \<open>The line of a v1 header ends at the first line feed of the window.\<close>

definition v1_lf :: "bytes \<Rightarrow> nat option" where
  "v1_lf buf =
     (let w = take FPM_HTTP_PROXY_V1_MAX buf in
      if CHR 0x0A \<in> set w then Some (length (takeWhile (\<lambda>c. c \<noteq> CHR 0x0A) w)) else None)"

definition v1_prefix :: "bytes \<Rightarrow> bool" where
  "v1_prefix buf \<longleftrightarrow> take (min (length buf) 6) buf = take (min (length buf) 6) ''PROXY ''"

definition v1_at :: "bytes \<Rightarrow> nat \<Rightarrow> fpm_http_proxy_status" where
  "v1_at buf i =
     (if i = 0 \<or> buf ! (i - 1) \<noteq> CHR 0x0D then FPM_HTTP_PROXY_BAD
      else (case proxy_v1_line (drop 6 (take (i - 1) buf)) of
              FPM_HTTP_PROXY_DONE tmp \<Rightarrow> FPM_HTTP_PROXY_DONE (tmp\<lparr>h_length := i + 1\<rparr>)
            | st \<Rightarrow> st))"

lemma length_takeWhile_eq_iff: "length (takeWhile P xs) = length xs \<longleftrightarrow> (\<forall>x\<in>set xs. P x)"
  by (induction xs) simp_all

lemma length_takeWhile_found: "x \<in> set xs \<Longrightarrow> \<not> P x \<Longrightarrow> length (takeWhile P xs) < length xs"
  by (induction xs) auto

lemma proxy_parse_v1_alt:
  "proxy_parse_v1 buf =
     (if \<not> v1_prefix buf then FPM_HTTP_PROXY_BAD
      else if length buf < 6 then FPM_HTTP_PROXY_NEED_MORE
      else (case v1_lf buf of
              Some i \<Rightarrow> v1_at buf i
            | None \<Rightarrow> if length buf < FPM_HTTP_PROXY_V1_MAX then FPM_HTTP_PROXY_NEED_MORE else FPM_HTTP_PROXY_BAD))"
proof -
  let ?w = "take FPM_HTTP_PROXY_V1_MAX buf"
  have w: "take (min (length buf) FPM_HTTP_PROXY_V1_MAX) buf = ?w" by (simp add: min_def)
  have "length (takeWhile (\<lambda>c. c \<noteq> CHR 0x0A) ?w) = length ?w \<longleftrightarrow> CHR 0x0A \<notin> set ?w"
    unfolding length_takeWhile_eq_iff by blast
  then show ?thesis
    by (simp add: proxy_parse_v1_def v1_prefix_def v1_lf_def v1_at_def Let_def w)
qed

lemma v1_lf_append: "v1_lf buf = Some i \<Longrightarrow> v1_lf (buf @ ext) = Some i"
  by (auto simp: v1_lf_def Let_def split: if_splits)

lemma v1_lf_less: "v1_lf buf = Some i \<Longrightarrow> i < length buf \<and> i < FPM_HTTP_PROXY_V1_MAX"
  using length_takeWhile_found [of "CHR 0x0A" "take FPM_HTTP_PROXY_V1_MAX buf" "\<lambda>c. c \<noteq> CHR 0x0A"]
  by (auto simp: v1_lf_def Let_def split: if_splits)

lemma v1_at_append: "i < length buf \<Longrightarrow> v1_at (buf @ ext) i = v1_at buf i"
  by (cases i) (simp_all add: v1_at_def nth_append)

lemma v1_prefix_append: "\<not> v1_prefix buf \<Longrightarrow> \<not> v1_prefix (buf @ ext)"
  unfolding v1_prefix_def by (rule take_prefix_mono)

lemma v1_prefix_full: "6 \<le> length buf \<Longrightarrow> v1_prefix (buf @ ext) = v1_prefix buf"
  by (simp add: v1_prefix_def)

lemma v1_extend:
  assumes "proxy_parse_v1 buf \<noteq> FPM_HTTP_PROXY_NEED_MORE"
  shows "proxy_parse_v1 (buf @ ext) = proxy_parse_v1 buf"
proof (cases "v1_prefix buf \<and> 6 \<le> length buf")
  case True
  then show ?thesis using assms v1_lf_append [of buf] v1_lf_less [of buf] v1_at_append
    by (auto simp: proxy_parse_v1_alt v1_prefix_full v1_lf_def split: option.split if_splits)
next
  case False
  then show ?thesis using assms v1_prefix_append by (auto simp: proxy_parse_v1_alt split: if_splits)
qed

lemma v1_need_short: "proxy_parse_v1 buf = FPM_HTTP_PROXY_NEED_MORE \<Longrightarrow> length buf < FPM_HTTP_PROXY_V1_MAX"
  using v1_line_decides
  by (auto simp: proxy_parse_v1_alt v1_at_def FPM_HTTP_PROXY_V1_MAX_def
      split: if_splits option.splits fpm_http_proxy_status.splits)

lemma v1_done_length:
  assumes "proxy_parse_v1 buf = FPM_HTTP_PROXY_DONE h"
  shows "h_length h \<le> length buf \<and> (\<forall>k<h_length h. proxy_parse_v1 (take k buf) = FPM_HTTP_PROXY_NEED_MORE)"
proof -
  from assms obtain i where i: "v1_prefix buf" "6 \<le> length buf" "v1_lf buf = Some i" "v1_at buf i = FPM_HTTP_PROXY_DONE h"
    by (auto simp: proxy_parse_v1_alt split: if_splits option.splits)
  have len: "h_length h = i + 1"
    using i(4) by (auto simp: v1_at_def split: if_splits fpm_http_proxy_status.splits)
  have "proxy_parse_v1 (take k buf) = FPM_HTTP_PROXY_NEED_MORE" if "k < i + 1" for k
  proof -
    have k: "k < FPM_HTTP_PROXY_V1_MAX" "k < length buf" using that v1_lf_less [OF i(3)] by simp_all
    have "CHR 0x0A \<notin> set (take k buf)"
    proof -
      have "take k buf = take k (takeWhile (\<lambda>c. c \<noteq> CHR 0x0A) (take FPM_HTTP_PROXY_V1_MAX buf))"
        using i(3) that k takeWhile_eq_take [of "\<lambda>c. c \<noteq> CHR 0x0A" "take FPM_HTTP_PROXY_V1_MAX buf"]
        by (auto simp: v1_lf_def Let_def min_def split: if_splits)
      then show ?thesis by (metis (mono_tags, lifting) in_set_takeD set_takeWhileD)
    qed
    then have "v1_lf (take k buf) = None" using k(1) by (simp add: v1_lf_def Let_def min_def)
    moreover have "v1_prefix (take k buf)" using i(1) unfolding v1_prefix_def by (rule take_prefix_take)
    ultimately show ?thesis using k by (simp add: proxy_parse_v1_alt)
  qed
  then show ?thesis using len v1_lf_less [OF i(3)] by simp
qed

lemma byte_append [simp]: "i < length buf \<Longrightarrow> byte (buf @ ext) i = byte buf i"
  by (simp add: byte_def nth_append)

lemma v2_head_append:
  "16 \<le> length buf \<Longrightarrow> v2_body (buf @ ext) = v2_body buf"
  "16 \<le> length buf \<Longrightarrow> v2_refused (buf @ ext) = v2_refused buf"
  by (simp_all add: v2_body_def v2_refused_def)

lemma v2_address_append:
  assumes "16 + v2_body buf \<le> length buf"
  shows "v2_address (buf @ ext) = v2_address buf"
proof -
  have "12 \<le> v2_body buf \<Longrightarrow> take 4 (drop 16 (buf @ ext)) = take 4 (drop 16 buf)"
    "36 \<le> v2_body buf \<Longrightarrow> take 16 (drop 16 (buf @ ext)) = take 16 (drop 16 buf)"
    using assms by simp_all
  then show ?thesis using assms
    by (auto simp: v2_address_def v2_head_append Let_def simp del: drop_append take_append)
qed

lemma v2_extend:
  assumes "proxy_parse_v2 buf \<noteq> FPM_HTTP_PROXY_NEED_MORE"
  shows "proxy_parse_v2 (buf @ ext) = proxy_parse_v2 buf"
proof (cases "take (min (length buf) 12) buf \<noteq> take (min (length buf) 12) proxy_v2_sig")
  case True
  with take_prefix_mono [of buf 12 proxy_v2_sig ext] show ?thesis by (simp add: proxy_parse_v2_def)
next
  case False
  then have "16 \<le> length buf" using assms by (simp add: proxy_parse_v2_def Let_def split: if_splits)
  then show ?thesis using assms False
    by (auto simp: proxy_parse_v2_def v2_head_append v2_address_append split: if_splits)
qed

lemma v2_address_decides: "v2_address buf \<noteq> FPM_HTTP_PROXY_NEED_MORE"
  by (simp add: v2_address_def Let_def)

lemma v2_need_short: "proxy_parse_v2 buf = FPM_HTTP_PROXY_NEED_MORE \<Longrightarrow> length buf < FPM_HTTP_PROXY_MAX"
  using v2_address_decides
  by (auto simp: proxy_parse_v2_def v2_refused_def FPM_HTTP_PROXY_MAX_def Let_def split: if_splits)

lemma v2_done_length:
  assumes "proxy_parse_v2 buf = FPM_HTTP_PROXY_DONE h"
  shows "h_length h \<le> length buf \<and> (\<forall>k<h_length h. proxy_parse_v2 (take k buf) = FPM_HTTP_PROXY_NEED_MORE)"
proof -
  have a: "take (min (length buf) 12) buf = take (min (length buf) 12) proxy_v2_sig" "16 \<le> length buf"
    "\<not> v2_refused buf" "16 + v2_body buf \<le> length buf" "v2_address buf = FPM_HTTP_PROXY_DONE h"
    using assms by (auto simp: proxy_parse_v2_def Let_def split: if_splits)
  have len: "h_length h = 16 + v2_body buf"
    using a(5) by (auto simp: v2_address_def Let_def split: if_splits)
  have "proxy_parse_v2 (take k buf) = FPM_HTTP_PROXY_NEED_MORE" if k: "k < 16 + v2_body buf" for k
  proof -
    note p = take_prefix_take [OF a(1), of k]
    have "v2_body (take k buf) = v2_body buf" "v2_refused (take k buf) = v2_refused buf" if "16 \<le> k"
      using v2_head_append [of "take k buf" "drop k buf"] a(2) that by simp_all
    then show ?thesis using p a k by (auto simp: proxy_parse_v2_def Let_def)
  qed
  then show ?thesis using len a(4) by simp
qed

lemma parse_extend:
  "fpm_http_proxy_parse buf \<noteq> FPM_HTTP_PROXY_NEED_MORE \<Longrightarrow> fpm_http_proxy_parse (buf @ ext) = fpm_http_proxy_parse buf"
proof (cases "buf = []")
  case False
  then have "(buf @ ext) ! 0 = buf ! 0" by (simp add: nth_append)
  moreover assume "fpm_http_proxy_parse buf \<noteq> FPM_HTTP_PROXY_NEED_MORE"
  ultimately show ?thesis using False v1_extend [of buf ext] v2_extend [of buf ext]
    by (auto simp: fpm_http_proxy_parse_def)
qed (simp add: fpm_http_proxy_parse_def)

lemma parse_need_short:
  "fpm_http_proxy_parse buf = FPM_HTTP_PROXY_NEED_MORE \<Longrightarrow> length buf < FPM_HTTP_PROXY_MAX"
  using v1_need_short [of buf] v2_need_short [of buf]
  by (auto simp: fpm_http_proxy_parse_def FPM_HTTP_PROXY_MAX_def FPM_HTTP_PROXY_V1_MAX_def FPM_HTTP_PROXY_V2_BODY_MAX_def
      split: if_splits)

lemma parse_done_length:
  assumes "fpm_http_proxy_parse buf = FPM_HTTP_PROXY_DONE h"
  shows "h_length h \<le> length buf \<and> (\<forall>k<h_length h. fpm_http_proxy_parse (take k buf) = FPM_HTTP_PROXY_NEED_MORE)"
proof -
  have "buf \<noteq> []" using assms by (auto simp: fpm_http_proxy_parse_def)
  then have "take k buf ! 0 = buf ! 0" if "0 < k" for k using that by (cases buf) (auto simp: take_Cons')
  then show ?thesis using assms v1_done_length [of buf h] v2_done_length [of buf h]
    by (auto simp: fpm_http_proxy_parse_def split: if_splits)
qed

lemma parse_done_pos: "fpm_http_proxy_parse buf = FPM_HTTP_PROXY_DONE h \<Longrightarrow> 0 < h_length h"
  by (auto simp: fpm_http_proxy_parse_def proxy_parse_v1_alt proxy_parse_v2_def v1_at_def v2_address_def Let_def
      split: if_splits option.splits fpm_http_proxy_status.splits)

text \<open>
  C12. What the PROXY header parser answers does not depend on how the bytes were cut into
  reads. A final answer, header or refusal, stays the same when more bytes follow;
  a header ends inside the bytes given, and every shorter prefix of it is answered
  with \<open>need more\<close>, so every byte of an incomplete answer belongs to the header; and an
  incomplete answer is always shorter than the buffer the caller provides.
\<close>

theorem proxy_parse_prefix_free:
  "(fpm_http_proxy_parse buf \<noteq> FPM_HTTP_PROXY_NEED_MORE \<longrightarrow> fpm_http_proxy_parse (buf @ ext) = fpm_http_proxy_parse buf) \<and>
   (fpm_http_proxy_parse buf = FPM_HTTP_PROXY_DONE h \<longrightarrow>
      0 < h_length h \<and> h_length h \<le> length buf \<and>
      (\<forall>k<h_length h. fpm_http_proxy_parse (take k buf) = FPM_HTTP_PROXY_NEED_MORE)) \<and>
   (fpm_http_proxy_parse buf = FPM_HTTP_PROXY_NEED_MORE \<longrightarrow> length buf < FPM_HTTP_PROXY_MAX)"
  using parse_extend parse_need_short parse_done_length parse_done_pos by blast

theorem proxy_parse_prefix_free_witness:
  "fpm_http_proxy_parse (''PROXY TCP4 1.2.3.4 5.6.7.8 80 443'' @ [CHR 0x0D, CHR 0x0A] @ ''GET / HTTP/1.1'') =
     FPM_HTTP_PROXY_DONE \<lparr>h_length = 35, has_source = True, h_addr = ''1.2.3.4'', h_port = 80\<rparr> \<and>
   fpm_http_proxy_parse (take 20 (''PROXY TCP4 1.2.3.4 5.6.7.8 80 443'' @ [CHR 0x0D, CHR 0x0A])) = FPM_HTTP_PROXY_NEED_MORE"
proof -
  define b where "b = ''PROXY TCP4 1.2.3.4 5.6.7.8 80 443'' @ [CHR 0x0D, CHR 0x0A]"
  define h :: fpm_http_proxy_header_s
    where "h = \<lparr>h_length = 35, has_source = True, h_addr = ''1.2.3.4'', h_port = 80\<rparr>"
  have "fpm_http_proxy_parse b = FPM_HTTP_PROXY_DONE h" unfolding b_def h_def by code_simp
  then have "fpm_http_proxy_parse (b @ ''GET / HTTP/1.1'') = FPM_HTTP_PROXY_DONE h \<and>
      fpm_http_proxy_parse (take 20 b) = FPM_HTTP_PROXY_NEED_MORE"
    using proxy_parse_prefix_free [of b "''GET / HTTP/1.1''" h] by (simp add: h_def)
  then show ?thesis by (simp add: b_def h_def)
qed

lemma v1_done_exact:
  assumes "proxy_parse_v1 buf = FPM_HTTP_PROXY_DONE h"
  shows "proxy_parse_v1 (take (h_length h) buf) \<noteq> FPM_HTTP_PROXY_NEED_MORE"
proof -
  from assms obtain i where i: "v1_prefix buf" "6 \<le> length buf" "v1_lf buf = Some i" "v1_at buf i = FPM_HTTP_PROXY_DONE h"
    by (auto simp: proxy_parse_v1_alt split: if_splits option.splits)
  have len: "h_length h = i + 1"
    using i(4) by (auto simp: v1_at_def split: if_splits fpm_http_proxy_status.splits)
  let ?t = "take (i + 1) buf"
  have less: "i < length buf" "i < FPM_HTTP_PROXY_V1_MAX" using v1_lf_less [OF i(3)] by simp_all
  have lf: "buf ! i = CHR 0x0A"
  proof -
    have "take FPM_HTTP_PROXY_V1_MAX buf ! i = CHR 0x0A"
      using i(3) nth_length_takeWhile [of "\<lambda>c. c \<noteq> CHR 0x0A" "take FPM_HTTP_PROXY_V1_MAX buf"]
        length_takeWhile_found [of "CHR 0x0A" "take FPM_HTTP_PROXY_V1_MAX buf" "\<lambda>c. c \<noteq> CHR 0x0A"]
      by (auto simp: v1_lf_def Let_def split: if_splits)
    then show ?thesis using less by simp
  qed
  have "?t = take i buf @ [CHR 0x0A]" using less lf by (simp add: take_Suc_conv_app_nth)
  then have "CHR 0x0A \<in> set (take FPM_HTTP_PROXY_V1_MAX ?t)" using less by (simp add: min_def)
  then obtain j where j: "v1_lf ?t = Some j" by (simp add: v1_lf_def Let_def)
  then have "j = i" using v1_lf_append [OF j, of "drop (i + 1) buf"] i(3) by simp
  have "v1_at ?t i \<noteq> FPM_HTTP_PROXY_NEED_MORE"
    using v1_line_decides by (auto simp: v1_at_def split: fpm_http_proxy_status.split)
  moreover have "6 \<le> length ?t"
  proof (rule ccontr)
    assume "\<not> 6 \<le> length ?t"
    then have "i < 6" using less by simp
    then have "buf ! i \<in> set (take 6 buf)" using i(2) by (auto simp: in_set_conv_nth)
    moreover have "take 6 buf = ''PROXY ''" using i(1,2) by (simp add: v1_prefix_def)
    ultimately show False using lf by simp
  qed
  ultimately show ?thesis using j \<open>j = i\<close> by (auto simp: len proxy_parse_v1_alt)
qed

lemma v2_done_exact:
  assumes "proxy_parse_v2 buf = FPM_HTTP_PROXY_DONE h"
  shows "proxy_parse_v2 (take (h_length h) buf) \<noteq> FPM_HTTP_PROXY_NEED_MORE"
proof -
  have a: "16 \<le> length buf" "16 + v2_body buf \<le> length buf" "v2_address buf = FPM_HTTP_PROXY_DONE h"
    using assms by (auto simp: proxy_parse_v2_def Let_def split: if_splits)
  have len: "h_length h = 16 + v2_body buf"
    using a(3) by (auto simp: v2_address_def Let_def split: if_splits)
  have "v2_body (take (h_length h) buf) = v2_body buf"
    using v2_head_append(1) [of "take (h_length h) buf" "drop (h_length h) buf"] a by (simp add: len)
  then show ?thesis using a v2_address_decides by (simp add: proxy_parse_v2_def Let_def len)
qed

lemma parse_done_exact:
  assumes "fpm_http_proxy_parse buf = FPM_HTTP_PROXY_DONE h"
  shows "fpm_http_proxy_parse (take (h_length h) buf) \<noteq> FPM_HTTP_PROXY_NEED_MORE"
proof -
  have "buf \<noteq> []" using assms by (auto simp: fpm_http_proxy_parse_def)
  moreover from this have "take (h_length h) buf ! 0 = buf ! 0" using parse_done_pos [OF assms]
    by (cases buf) (auto simp: take_Cons')
  ultimately show ?thesis
    using assms parse_done_pos [OF assms] v1_done_exact [of buf h] v2_done_exact [of buf h]
    by (auto simp: fpm_http_proxy_parse_def split: if_splits)
qed

lemma done_beyond_need:
  assumes "fpm_http_proxy_parse buf = FPM_HTTP_PROXY_NEED_MORE" "fpm_http_proxy_parse (buf @ x) = FPM_HTTP_PROXY_DONE h"
  shows "length buf < h_length h"
proof (rule ccontr)
  assume "\<not> length buf < h_length h"
  then have "take (h_length h) (buf @ x) = take (h_length h) buf" by simp
  then have "fpm_http_proxy_parse (take (h_length h) buf) \<noteq> FPM_HTTP_PROXY_NEED_MORE"
    using parse_done_exact [OF assms(2)] by metis
  then have "fpm_http_proxy_parse (take (h_length h) buf @ drop (h_length h) buf) \<noteq> FPM_HTTP_PROXY_NEED_MORE"
    using parse_extend by metis
  then show False using assms(1) by simp
qed

section \<open>The reader takes the header and nothing else\<close>

text \<open>
  What happens to a connection: bytes and the end of the stream from the peer, the
  read callback while the header is pending, and the read deadline.
\<close>

datatype proxy_event = Net_Data bytes | Net_Eof | Readable | Deadline

definition proxy_step :: "proxy_dl \<Rightarrow> proxy_event \<Rightarrow> proxy_dl" where
  "proxy_step dl ev =
     (case ev of
        Net_Data bs \<Rightarrow> dl\<lparr>sock := sock dl @ bs\<rparr>
      | Net_Eof \<Rightarrow> dl\<lparr>sock_eof := True\<rparr>
      | Readable \<Rightarrow> if proxy_pending dl then fpm_http_proxy_read dl else dl
      | Deadline \<Rightarrow> read_deadline_fire dl)"

definition sent :: "proxy_event list \<Rightarrow> bytes" where
  "sent evs = concat (map (\<lambda>ev. case ev of Net_Data bs \<Rightarrow> bs | _ \<Rightarrow> []) evs)"

definition reader_ok :: "bytes \<Rightarrow> proxy_dl \<Rightarrow> bool" where
  "reader_ok S dl \<longleftrightarrow>
     (proxy_pending dl \<longrightarrow> proxy_buf dl @ sock dl = S \<and> \<not> proxy_accepted dl \<and>
        fpm_http_proxy_parse (proxy_buf dl) = FPM_HTTP_PROXY_NEED_MORE) \<and>
     (proxy_accepted dl \<longrightarrow> (\<exists>h. proxy_hdr dl = Some h \<and> fpm_http_proxy_parse S = FPM_HTTP_PROXY_DONE h \<and>
        sock dl = drop (h_length h) S))"

lemma reader_peek:
  assumes "reader_ok S dl" "proxy_pending dl"
  shows "proxy_buf dl @ take (FPM_HTTP_PROXY_MAX - length (proxy_buf dl)) (sock dl) = take FPM_HTTP_PROXY_MAX S"
  using assms parse_need_short [of "proxy_buf dl"] by (auto simp: reader_ok_def)

lemma reader_read:
  assumes "reader_ok S dl" "proxy_pending dl"
  shows "reader_ok S (fpm_http_proxy_read dl)"
proof (cases "take (FPM_HTTP_PROXY_MAX - length (proxy_buf dl)) (sock dl) = []")
  case True
  then show ?thesis using assms
    by (auto simp: fpm_http_proxy_read_def Let_def fpm_http_read_deadline_proxy_done_def reader_ok_def)
next
  case False
  let ?p = "take (FPM_HTTP_PROXY_MAX - length (proxy_buf dl)) (sock dl)"
  have S: "proxy_buf dl @ sock dl = S" "fpm_http_proxy_parse (proxy_buf dl) = FPM_HTTP_PROXY_NEED_MORE" "\<not> proxy_accepted dl"
    using assms by (auto simp: reader_ok_def)
  have split: "S = (proxy_buf dl @ ?p) @ drop (length ?p) (sock dl)"
    using S(1) by (metis append.assoc append_take_drop_id length_take take_take drop_take min.commute append_eq_conv_conj)
  show ?thesis
  proof (cases "fpm_http_proxy_parse (proxy_buf dl @ ?p)")
    case FPM_HTTP_PROXY_NEED_MORE
    then show ?thesis using False S split
      by (simp add: fpm_http_proxy_read_def Let_def reader_ok_def)
  next
    case (FPM_HTTP_PROXY_DONE h)
    have d: "fpm_http_proxy_parse S = FPM_HTTP_PROXY_DONE h"
      using FPM_HTTP_PROXY_DONE parse_extend [of "proxy_buf dl @ ?p"] split by (metis fpm_http_proxy_status.distinct(1))
    have "length (proxy_buf dl) < h_length h" using S(2) FPM_HTTP_PROXY_DONE by (rule done_beyond_need)
    moreover from this have "drop (h_length h - length (proxy_buf dl)) (sock dl) = drop (h_length h) S"
      using S(1) by (metis drop_append drop_all less_or_eq_imp_le append_Nil)
    ultimately show ?thesis using False FPM_HTTP_PROXY_DONE d S(3)
      by (simp add: fpm_http_proxy_read_def Let_def reader_ok_def fpm_http_read_deadline_proxy_done_def)
  next
    case FPM_HTTP_PROXY_BAD
    then show ?thesis using False
      by (simp add: fpm_http_proxy_read_def Let_def reader_ok_def fpm_http_read_deadline_proxy_done_def)
  qed
qed

lemma reader_step: "reader_ok S dl \<Longrightarrow> reader_ok (S @ sent [ev]) (proxy_step dl ev)"
proof (cases ev)
  case (Net_Data bs)
  assume ok: "reader_ok S dl"
  have "fpm_http_proxy_parse (S @ bs) = FPM_HTTP_PROXY_DONE h \<and> drop (h_length h) S @ bs = drop (h_length h) (S @ bs)"
    if "fpm_http_proxy_parse S = FPM_HTTP_PROXY_DONE h" for h
    using that parse_extend [of S bs] parse_done_length [OF that] by simp
  with ok Net_Data show ?thesis by (fastforce simp: proxy_step_def sent_def reader_ok_def)
qed (auto simp: proxy_step_def sent_def reader_read read_deadline_fire_def fpm_http_read_deadline_proxy_done_def,
     auto simp: reader_ok_def)

lemma sent_snoc: "sent (evs @ [ev]) = sent evs @ sent [ev]"
  by (simp add: sent_def)

lemma reader_run: "reader_ok [] dl \<Longrightarrow> reader_ok (sent evs) (foldl proxy_step dl evs)"
proof (induction evs rule: rev_induct)
  case Nil
  then show ?case by (simp add: sent_def)
next
  case (snoc ev evs)
  then show ?case using reader_step by (simp add: sent_snoc)
qed

lemma reader_completes:
  assumes "reader_ok S dl" "proxy_pending dl" "fpm_http_proxy_parse S = FPM_HTTP_PROXY_DONE h"
  shows "proxy_accepted (fpm_http_proxy_read dl)"
proof -
  let ?p = "take (FPM_HTTP_PROXY_MAX - length (proxy_buf dl)) (sock dl)"
  have S: "proxy_buf dl @ sock dl = S" "fpm_http_proxy_parse (proxy_buf dl) = FPM_HTTP_PROXY_NEED_MORE"
    using assms by (auto simp: reader_ok_def)
  have peek: "proxy_buf dl @ ?p = take FPM_HTTP_PROXY_MAX S" using assms(1,2) by (rule reader_peek)
  have "fpm_http_proxy_parse (take FPM_HTTP_PROXY_MAX S) \<noteq> FPM_HTTP_PROXY_NEED_MORE"
    using parse_need_short [of "take FPM_HTTP_PROXY_MAX S"] assms(3) by (auto simp: min_def split: if_splits)
  then have d: "fpm_http_proxy_parse (proxy_buf dl @ ?p) = FPM_HTTP_PROXY_DONE h"
    using parse_extend [of "take FPM_HTTP_PROXY_MAX S" "drop FPM_HTTP_PROXY_MAX S"] assms(3) peek by simp
  have "?p \<noteq> []" using d S(2) by (metis append_Nil2 fpm_http_proxy_status.distinct(1))
  moreover have "length (proxy_buf dl) < h_length h" using S(2) d by (rule done_beyond_need)
  moreover have "h_length h \<le> length (proxy_buf dl @ ?p)" using parse_done_length [OF d] by blast
  ultimately show ?thesis using d
    by (simp add: fpm_http_proxy_read_def Let_def fpm_http_read_deadline_proxy_done_def)
qed

text \<open>
  C11. However a peer's bytes arrive and whenever the read callback runs, the reader takes
  exactly the PROXY header off the connection: a connection is accepted only with
  the header its byte stream begins with, and then the kernel still holds every byte
  after the header and no byte of it; until then nothing is lost; and once the
  stream holds a whole header, one read callback accepts it.
\<close>

theorem proxy_reader_takes_exactly_the_header:
  assumes "proxy_pending dl" "\<not> proxy_accepted dl" "proxy_buf dl = []" "sock dl = []"
    and "dl' = foldl proxy_step dl evs"
  shows "(proxy_accepted dl' \<longrightarrow> (\<exists>h. proxy_hdr dl' = Some h \<and>
        fpm_http_proxy_parse (sent evs) = FPM_HTTP_PROXY_DONE h \<and> sock dl' = drop (h_length h) (sent evs))) \<and>
    (proxy_pending dl' \<longrightarrow> proxy_buf dl' @ sock dl' = sent evs) \<and>
    (proxy_pending dl' \<and> fpm_http_proxy_parse (sent evs) = FPM_HTTP_PROXY_DONE h \<longrightarrow>
       proxy_accepted (proxy_step dl' Readable))"
proof -
  have "reader_ok [] dl" using assms by (simp add: reader_ok_def fpm_http_proxy_parse_def)
  then have ok: "reader_ok (sent evs) dl'" unfolding assms(5) by (rule reader_run)
  then show ?thesis using reader_completes [OF ok, of h] by (auto simp: reader_ok_def proxy_step_def)
qed

definition fresh_dl :: proxy_dl where
  "fresh_dl = \<lparr>proxy_on = True, proxy_pending = True, proxy_accepted = False, proxy_buf = [], proxy_hdr = None,
     sock = [], sock_eof = False, sock_shut = False\<rparr>"

theorem proxy_reader_takes_exactly_the_header_witness:
  "sock (foldl proxy_step fresh_dl
     [Net_Data ''PROXY TCP4 1.2.3.4 5.6'', Readable,
      Net_Data (''.7.8 80 443'' @ [CHR 0x0D, CHR 0x0A] @ ''GET /''), Readable]) = ''GET /''"
proof -
  define evs where "evs = [Net_Data ''PROXY TCP4 1.2.3.4 5.6'', Readable,
      Net_Data (''.7.8 80 443'' @ [CHR 0x0D, CHR 0x0A] @ ''GET /''), Readable]"
  define h :: fpm_http_proxy_header_s
    where "h = \<lparr>h_length = 35, has_source = True, h_addr = ''1.2.3.4'', h_port = 80\<rparr>"
  have a: "proxy_accepted (foldl proxy_step fresh_dl evs)" unfolding evs_def by code_simp
  have p: "fpm_http_proxy_parse (sent evs) = FPM_HTTP_PROXY_DONE h" unfolding evs_def h_def by code_simp
  have "drop (h_length h) (sent evs) = ''GET /''" unfolding evs_def h_def by code_simp
  moreover have "sock (foldl proxy_step fresh_dl evs) = drop (h_length h) (sent evs)"
    using proxy_reader_takes_exactly_the_header [of fresh_dl "foldl proxy_step fresh_dl evs" evs, OF _ _ _ _ refl] a p
    by (auto simp: fresh_dl_def)
  ultimately show ?thesis unfolding evs_def by (simp only:)
qed


end
