(* ===== verification/Http_Reply.thy ===== *)
theory Http_Reply
  imports Cstring
begin

text \<open>
  The reply side of the gateway (\<open>fpm_http_fcgi.c\<close> from \<open>fpm_http_start_reply()\<close> on,
  \<open>fpm_http_response_chunk()\<close> of \<open>fpm_http_backpressure.c\<close>, the CGI status parser of
  \<open>fpm_http_direct_request.c\<close>): the CGI header block an upstream sends in pieces becomes
  the status line and headers of the reply, the rest becomes its body. What is handed to
  libevent for a request is the list \<open>wire\<close>; the allocation of a body piece and the
  bytes still unwritten when a reply is cut are parameters. The pausing of a slow
  client's upstream does not change what is sent and is not part of the model.
\<close>

definition LF :: char where "LF = CHR 0x0a"
definition CR :: char where "CR = CHR 0x0d"

definition FPM_HTTP_MAX_CGI_HEADERS :: nat where "FPM_HTTP_MAX_CGI_HEADERS = 64 * 1024"
definition FPM_HTTP_BAD_GATEWAY :: nat where "FPM_HTTP_BAD_GATEWAY = 502"
definition FPM_HTTP_BAD_GATEWAY_BODY :: bytes where "FPM_HTTP_BAD_GATEWAY_BODY = ''Bad Gateway'' @ [LF]"

section \<open>The CGI status\<close>

definition fpm_http_direct_status_final :: "nat \<Rightarrow> bool" where
  "fpm_http_direct_status_final st \<longleftrightarrow> 200 \<le> st \<and> st \<le> 599"

text \<open>
  The value is a C string in a buffer of its own, \<open>vlen\<close> the number of bytes before the
  copy; the byte after the string is its NUL.
\<close>

definition str_at :: "string \<Rightarrow> nat \<Rightarrow> char" where
  "str_at s i = (if i < length s then s ! i else NUL)"

definition reason_byte :: "char \<Rightarrow> bool" where
  "reason_byte ch \<longleftrightarrow> \<not> ((of_char ch :: nat) < 0x20 \<or> (of_char ch :: nat) = 0x7f)"

definition fpm_http_parse_cgi_status :: "string \<Rightarrow> nat \<Rightarrow> (nat \<times> string) option" where
  "fpm_http_parse_cgi_status value vlen =
     (if vlen < 3 \<or> \<not> isdigit (str_at value 0) \<or> \<not> isdigit (str_at value 1) \<or> \<not> isdigit (str_at value 2) then None
      else
        let code = digit_val (str_at value 0) * 100 + digit_val (str_at value 1) * 10 + digit_val (str_at value 2) in
        if vlen = 3 then (if fpm_http_direct_status_final code then Some (code, '''') else None)
        else if str_at value 3 \<noteq> CHR '' '' then None
        else if \<not> list_all (\<lambda>i. reason_byte (str_at value i)) [4..<vlen] then None
        else if fpm_http_direct_status_final code then Some (code, drop 4 value) else None)"

section \<open>A reply\<close>

datatype reply_event =
    Send_Start nat "string option" "(string \<times> string) list"
  | Send_Chunk bytes
  | Send_End
  | Send_Reply nat string "(string \<times> string) list" bytes
  | Logged nat nat
  | Cut

text \<open>\<open>request_id\<close> is empty when the client has none.\<close>

record reply =
  cgi_headers :: "bytes option"
  headers_sent :: bool
  discard_upstream :: bool
  chunk_lost :: bool
  status :: nat
  bytes_out :: nat
  queue_wait_ms :: int
  request_id :: string
  head_request :: bool
  upgrading :: bool
  out_headers :: "(string \<times> string) list"
  wire :: "reply_event list"

record reply_env =
  chunk_ok :: "reply \<Rightarrow> bytes \<Rightarrow> bool"
  pending_out :: "reply \<Rightarrow> nat"

definition fpm_http_response_chunk :: "reply_env \<Rightarrow> bytes \<Rightarrow> reply \<Rightarrow> reply" where
  "fpm_http_response_chunk e data c =
     (if chunk_lost c then c
      else if \<not> chunk_ok e c data then c\<lparr>chunk_lost := True\<rparr>
      else c\<lparr>wire := wire c @ [Send_Chunk data], bytes_out := bytes_out c + length data\<rparr>)"

text \<open>The lines of a header block, without the line ends.\<close>

definition strip_cr :: "bytes \<Rightarrow> bytes" where
  "strip_cr l = (if l \<noteq> [] \<and> last l = CR then butlast l else l)"

definition block_lines :: "bytes \<Rightarrow> bytes list" where
  "block_lines s = (let ps = split_on LF s in map strip_cr (if last ps = [] then butlast ps else ps))"

record reply_head =
  h_out :: "(string \<times> string) list"
  h_code :: nat
  h_reason :: "string option"
  h_invalid :: bool

definition reply_line :: "string \<Rightarrow> bytes \<Rightarrow> reply_head \<Rightarrow> reply_head" where
  "reply_line rid line h =
     (case find_char (CHR '':'') line of
        None \<Rightarrow> h
      | Some klen \<Rightarrow>
          let key = c_str (take klen line); v = trim_left (drop (klen + 1) line); value = c_str v in
          if strcaseeq key ''Status'' then
            (case fpm_http_parse_cgi_status value (length v) of
               Some (code, reason) \<Rightarrow> h\<lparr>h_code := code, h_reason := Some reason\<rparr>
             | None \<Rightarrow> h\<lparr>h_reason := None, h_invalid := True\<rparr>)
          else if rid \<noteq> '''' \<and> strcaseeq key ''X-Request-Id'' then h
          else h\<lparr>h_out := h_out h @ [(key, value)]\<rparr>)"

definition reply_lines :: "string \<Rightarrow> (string \<times> string) list \<Rightarrow> bytes \<Rightarrow> reply_head" where
  "reply_lines rid out block =
     fold (reply_line rid) (block_lines block) \<lparr>h_out = out, h_code = 200, h_reason = None, h_invalid = False\<rparr>"

definition request_id_header :: "string \<Rightarrow> (string \<times> string) list" where
  "request_id_header rid = (if rid \<noteq> '''' then [(''X-Request-Id'', rid)] else [])"

text \<open>The reply up to its body: the answer 502 for an invalid status, else the head.\<close>

definition begin_reply :: "bytes \<Rightarrow> reply \<Rightarrow> reply" where
  "begin_reply block c =
     (let h = reply_lines (request_id c) (out_headers c) block in
      if h_invalid h then
        let out = (''Content-Type'', ''text/plain'') # request_id_header (request_id c) in
        c\<lparr>out_headers := out, headers_sent := True, discard_upstream := True, status := FPM_HTTP_BAD_GATEWAY,
          bytes_out := bytes_out c + (if head_request c then 0 else length FPM_HTTP_BAD_GATEWAY_BODY),
          wire := wire c @ [Send_Start FPM_HTTP_BAD_GATEWAY (Some ''Bad Gateway'') out,
                            Send_Chunk FPM_HTTP_BAD_GATEWAY_BODY]\<rparr>
      else
        let out = h_out h @ (if queue_wait_ms c \<ge> 0 then [(''X-Fpmng-Queue-Wait'', dec_int (queue_wait_ms c))] else []);
            reason = (case h_reason h of Some r \<Rightarrow> if r \<noteq> [] then Some r else None | None \<Rightarrow> None)
        in
        c\<lparr>out_headers := out, headers_sent := True, status := h_code h,
          wire := wire c @ [Send_Start (h_code h) reason out]\<rparr>)"

definition cgi_bytes :: "reply \<Rightarrow> bytes" where
  "cgi_bytes c = (case cgi_headers c of Some s \<Rightarrow> s | None \<Rightarrow> [])"

definition fpm_http_start_reply :: "reply_env \<Rightarrow> nat \<Rightarrow> nat \<Rightarrow> reply \<Rightarrow> reply" where
  "fpm_http_start_reply e head_len body_off c =
     (let buf = cgi_bytes c; c = begin_reply (take head_len buf) c in
      (if discard_upstream c then c
       else if body_off < length buf then fpm_http_response_chunk e (drop body_off buf) c
       else c)\<lparr>cgi_headers := None\<rparr>)"

text \<open>
  The end of the header block from position \<open>i\<close> on: the length of the block and where
  the body begins.
\<close>

fun scan_head :: "nat \<Rightarrow> bytes \<Rightarrow> (nat \<times> nat) option" where
  "scan_head i (a # b # s) =
     (if a = LF \<and> b = LF then Some (i + 1, i + 2)
      else if take 4 (a # b # s) = [CR, LF, CR, LF] then Some (i + 2, i + 4)
      else scan_head (i + 1) (b # s))"
| "scan_head i [] = None"
| "scan_head i [a] = None"

definition fpm_http_stdout :: "reply_env \<Rightarrow> bytes \<Rightarrow> reply \<Rightarrow> reply" where
  "fpm_http_stdout e data c =
     (if discard_upstream c then c
      else if headers_sent c then fpm_http_response_chunk e data c
      else
        let len = length (cgi_bytes c); scan_from = (if len > 3 then len - 3 else 0);
            h = cgi_bytes c @ data; c = c\<lparr>cgi_headers := Some h\<rparr>
        in
        case scan_head scan_from (drop scan_from h) of
          Some (head_len, body_off) \<Rightarrow> fpm_http_start_reply e head_len body_off c
        | None \<Rightarrow> if length h > FPM_HTTP_MAX_CGI_HEADERS then fpm_http_start_reply e 0 0 c else c)"

definition fpm_http_finish_truncated :: "reply_env \<Rightarrow> reply \<Rightarrow> reply" where
  "fpm_http_finish_truncated e c =
     (let c = c\<lparr>bytes_out := bytes_out c - min (bytes_out c) (pending_out e c)\<rparr> in
      c\<lparr>wire := wire c @ [Logged (status c) (bytes_out c), Cut]\<rparr>)"

definition fpm_http_finish :: "reply_env \<Rightarrow> reply \<Rightarrow> reply" where
  "fpm_http_finish e c =
     (if chunk_lost c then fpm_http_finish_truncated e c
      else if headers_sent c then c\<lparr>wire := wire c @ [Logged (status c) (bytes_out c), Send_End]\<rparr>
      else
        let out = [(''Content-Type'', ''text/plain''), (''Connection'', ''close'')];
            body = (if head_request c then [] else FPM_HTTP_BAD_GATEWAY_BODY);
            c = c\<lparr>status := FPM_HTTP_BAD_GATEWAY, out_headers := out, bytes_out := bytes_out c + length body\<rparr>
        in c\<lparr>wire := wire c @ [Logged (status c) (bytes_out c), Send_Reply FPM_HTTP_BAD_GATEWAY ''Bad Gateway'' out body]\<rparr>)"

section \<open>The pieces of a reply\<close>

lemma scan_head_shift: "scan_head (i + j) s = map_option (\<lambda>(a, b). (a + i, b + i)) (scan_head j s)"
  by (induction j s rule: scan_head.induct) (auto simp: add.commute add.left_commute)

lemma scan_head_bounds: "scan_head i s = Some (a, b) \<Longrightarrow> a \<le> b \<and> b \<le> i + length s \<and> i < a"
proof (induction i s rule: scan_head.induct)
  case (1 i x y s)
  have "2 \<le> length s" if "take 2 s = [CR, LF]" using arg_cong [OF that, of length] by simp
  then show ?case using 1 by (auto split: if_splits)
qed simp_all

lemma scan_head_append: "scan_head i s = Some r \<Longrightarrow> scan_head i (s @ t) = Some r"
proof (induction i s rule: scan_head.induct)
  case (1 i x y s)
  have "2 \<le> length s" if "take 2 s = [CR, LF]" using arg_cong [OF that, of length] by simp
  moreover have "scan_head (Suc i) (LF # s) = None"
    if "take 2 s @ take (2 - length s) t = [CR, LF]" "take 2 s \<noteq> [CR, LF]"
    using that by (cases s; cases "tl s") (auto simp: CR_def LF_def)
  ultimately show ?case using 1 by (auto split: if_splits)
qed simp_all

lemma scan_head_skip:
  "scan_head i s = None \<Longrightarrow> j + 3 \<le> length s \<Longrightarrow> scan_head i (s @ t) = scan_head (i + j) (drop j (s @ t))"
proof (induction j arbitrary: i s)
  case (Suc j)
  have "Suc (Suc (Suc (Suc 0))) \<le> length s" using Suc.prems(2) by simp
  then obtain a b c d r where s: "s = a # b # c # d # r" by (auto simp only: Suc_le_length_iff)
  note one = scan_head.simps(1) [of i a b]
  have n: "scan_head (Suc i) (b # c # d # r) = None" "\<not> (a = LF \<and> b = LF)" "[a, b, c, d] \<noteq> [CR, LF, CR, LF]"
    using Suc.prems(1) by (simp_all add: s one del: scan_head.simps split: if_split_asm)
  have "scan_head (Suc i) ((b # c # d # r) @ t) = scan_head (Suc i + j) (drop j ((b # c # d # r) @ t))"
    using Suc.IH [OF n(1)] Suc.prems(2) by (simp add: s del: scan_head.simps)
  moreover have "scan_head i (s @ t) = scan_head (Suc i) ((b # c # d # r) @ t)"
    using n(2, 3) by (auto simp add: s one simp del: scan_head.simps)
  ultimately show ?case by (simp add: s del: scan_head.simps)
qed simp

lemma scan_head_resume:
  assumes "scan_head 0 s = None"
  defines "from \<equiv> (if length s > 3 then length s - 3 else 0)"
  shows "scan_head from (drop from (s @ t)) = scan_head 0 (s @ t)"
  using scan_head_skip [OF assms(1), of "length s - 3" t] by (auto simp: from_def)

lemma scan_head_new: "scan_head 0 s = None \<Longrightarrow> scan_head 0 (s @ t) = Some (a, b) \<Longrightarrow> length s < b"
proof -
  have "scan_head i s = None \<Longrightarrow> scan_head i (s @ t) = Some (a, b) \<Longrightarrow> i + length s < b" for i
  proof (induction i s rule: scan_head.induct)
    case (2 i)
    then show ?case by (auto dest: scan_head_bounds)
  next
    case (3 i v)
    then show ?case by (cases t) (auto dest!: scan_head_bounds split: if_splits)
  next
    case (1 i x y s)
    have "length s < 2" if "take 2 s @ take (2 - length s) t = [CR, LF]" "take 2 s \<noteq> [CR, LF]"
      using that by (cases "length s < 2") auto
    then show ?case using 1 by (auto split: if_splits)
  qed
  then show "scan_head 0 s = None \<Longrightarrow> scan_head 0 (s @ t) = Some (a, b) \<Longrightarrow> length s < b" by force
qed

definition block_fits :: "bytes \<Rightarrow> bool" where
  "block_fits s \<longleftrightarrow> (case scan_head 0 s of Some (a, b) \<Rightarrow> b | None \<Rightarrow> length s) \<le> FPM_HTTP_MAX_CGI_HEADERS"

lemma block_fits_prefix: "block_fits (s @ t) \<Longrightarrow> block_fits s"
  using scan_head_append [of 0 s _ t] scan_head_new [of s t]
  by (cases "scan_head 0 s"; cases "scan_head 0 (s @ t)") (fastforce simp: block_fits_def)+

definition fresh :: "reply \<Rightarrow> bool" where
  "fresh c \<longleftrightarrow> cgi_headers c = None \<and> \<not> headers_sent c \<and> \<not> discard_upstream c \<and> \<not> chunk_lost c"

text \<open>
  A reply that has received the bytes \<open>s\<close>, in whatever pieces: nothing is sent before the
  header block is complete; then the head, and the body so far unless a piece was lost.
\<close>

definition fed :: "reply_env \<Rightarrow> reply \<Rightarrow> bytes \<Rightarrow> reply \<Rightarrow> bool" where
  "fed e c0 s c \<longleftrightarrow>
     (case scan_head 0 s of
        None \<Rightarrow> c = c0\<lparr>cgi_headers := if s = [] then None else Some s\<rparr>
      | Some (hl, bo) \<Rightarrow>
          let b = begin_reply (take hl s) c0 in
          if discard_upstream b then c = b
          else \<exists>ds lost. c = b\<lparr>wire := wire b @ map Send_Chunk ds, bytes_out := bytes_out b + length (concat ds),
                              chunk_lost := lost\<rparr> \<and>
                 prefix (concat ds) (drop bo s) \<and> (if lost then \<exists>c d. \<not> chunk_ok e c d else concat ds = drop bo s))"

lemma begin_reply_fields [simp]:
  "headers_sent (begin_reply b c)" "chunk_lost (begin_reply b c) = chunk_lost c"
  "cgi_headers (begin_reply b c) = cgi_headers c"
  "begin_reply b (c\<lparr>cgi_headers := x\<rparr>) = (begin_reply b c)\<lparr>cgi_headers := x\<rparr>"
  by (simp_all add: begin_reply_def Let_def)

lemma cgi_headers_none: "cgi_headers c = None \<Longrightarrow> c\<lparr>cgi_headers := None\<rparr> = c"
  by (cases c) simp

lemma fed_fresh: "fresh c \<Longrightarrow> fed e c [] c"
  by (simp add: fed_def fresh_def)

lemma fed_body:
  assumes "\<not> discard_upstream b" "\<not> chunk_lost b" "prefix (concat ds) t" "if lost then \<exists>c d. \<not> chunk_ok e c d else concat ds = t"
    "c = b\<lparr>wire := wire b @ map Send_Chunk ds, bytes_out := bytes_out b + length (concat ds), chunk_lost := lost\<rparr>"
  shows "\<exists>ds lost. fpm_http_response_chunk e d c =
      b\<lparr>wire := wire b @ map Send_Chunk ds, bytes_out := bytes_out b + length (concat ds), chunk_lost := lost\<rparr> \<and>
      prefix (concat ds) (t @ d) \<and> (if lost then \<exists>c d. \<not> chunk_ok e c d else concat ds = t @ d)"
proof (cases "\<not> lost \<and> chunk_ok e c d")
  case True
  then show ?thesis using assms
    by (intro exI [of _ "ds @ [d]"] exI [of _ False]) (auto simp: fpm_http_response_chunk_def)
next
  case False
  then show ?thesis using assms
    by (intro exI [of _ ds] exI [of _ True]) (auto simp: fpm_http_response_chunk_def)
qed

lemma fed_stdout:
  assumes "fresh c0" "fed e c0 s c" "d \<noteq> []" "block_fits (s @ d)"
  shows "fed e c0 (s @ d) (fpm_http_stdout e d c)"
proof (cases "scan_head 0 s")
  case None
  have c: "c = c0\<lparr>cgi_headers := if s = [] then None else Some s\<rparr>" using assms(2) None by (simp add: fed_def)
  then have b: "cgi_bytes c = s" by (simp add: cgi_bytes_def)
  have st: "fpm_http_stdout e d c = (case scan_head 0 (s @ d) of
      Some (hl, bo) \<Rightarrow> fpm_http_start_reply e hl bo (c0\<lparr>cgi_headers := Some (s @ d)\<rparr>)
    | None \<Rightarrow> c0\<lparr>cgi_headers := Some (s @ d)\<rparr>)"
    using assms(1, 4) scan_head_resume [OF None, of d]
    by (simp add: fpm_http_stdout_def b Let_def) (auto simp: c fresh_def block_fits_def split: option.splits)
  show ?thesis
  proof (cases "scan_head 0 (s @ d)")
    case None
    then show ?thesis using assms(3) by (simp add: st fed_def)
  next
    case (Some r)
    obtain hl bo where r: "r = (hl, bo)" by (cases r)
    let ?b = "begin_reply (take hl (s @ d)) c0" and ?h = "s @ d"
    define b where "b = ?b\<lparr>cgi_headers := Some ?h\<rparr>"
    have n: "?b\<lparr>cgi_headers := None\<rparr> = ?b" using assms(1) by (simp add: cgi_headers_none fresh_def)
    have sr: "fpm_http_stdout e d c = (if discard_upstream ?b then ?b
        else if bo < length ?h then (fpm_http_response_chunk e (drop bo ?h) b)\<lparr>cgi_headers := None\<rparr> else ?b)"
      using n by (simp add: st Some r fpm_http_start_reply_def cgi_bytes_def b_def)
    show ?thesis
    proof (cases "discard_upstream ?b \<or> length ?h \<le> bo")
      case True
      then show ?thesis using assms(1) by (auto simp: sr fed_def Some r Let_def fresh_def intro!: exI [of _ "[]"] exI [of _ False])
    next
      case False
      then obtain ds lost where x: "fpm_http_response_chunk e (drop bo ?h) b =
          b\<lparr>wire := wire b @ map Send_Chunk ds, bytes_out := bytes_out b + length (concat ds), chunk_lost := lost\<rparr>"
          "prefix (concat ds) (drop bo ?h)" "if lost then \<exists>c d. \<not> chunk_ok e c d else concat ds = drop bo ?h"
        using fed_body [of b "[]" "[]" False e b "drop bo ?h"] assms(1) by (auto simp: b_def fresh_def)
      then show ?thesis using False assms(1)
        by (auto simp: sr fed_def Some r Let_def intro!: exI [of _ ds] exI [of _ lost])
          (simp_all add: b_def cgi_headers_none fresh_def)
    qed
  qed
next
  case (Some r)
  obtain hl bo where r: "r = (hl, bo)" by (cases r)
  then have bo: "hl \<le> length s" "bo \<le> length s" using scan_head_bounds Some by fastforce+
  have sd: "scan_head 0 (s @ d) = Some (hl, bo)" using scan_head_append Some r by simp
  let ?b = "begin_reply (take hl s) c0"
  have l: "\<not> chunk_lost ?b" using assms(1) by (simp add: fresh_def)
  show ?thesis
  proof (cases "discard_upstream ?b")
    case True
    then have "c = ?b" using assms(2) Some r by (simp add: fed_def)
    then show ?thesis using True bo by (simp add: fed_def sd fpm_http_stdout_def)
  next
    case False
    then obtain ds lost where c: "c = ?b\<lparr>wire := wire ?b @ map Send_Chunk ds, bytes_out := bytes_out ?b + length (concat ds),
        chunk_lost := lost\<rparr>" "prefix (concat ds) (drop bo s)" "if lost then \<exists>c d. \<not> chunk_ok e c d else concat ds = drop bo s"
      using assms(2) Some r by (auto simp: fed_def Let_def)
    have "fpm_http_stdout e d c = fpm_http_response_chunk e d c" using False by (simp add: c(1) fpm_http_stdout_def)
    then show ?thesis using fed_body [OF False l c(2, 3, 1), of d] False bo by (simp add: fed_def sd Let_def cong: if_cong split del: if_split)
  qed
qed

end
