(* ===== verification/Fastcgi.thy ===== *)
theory Fastcgi
  imports Cstring
begin

text \<open>
  The worker's side of FastCGI, \<open>main/fastcgi.c\<close> as the repository ships it: reading
  records off a connection, the parameter decoder and its hash table, and the reader
  of the request body. The bytes still to come on the connection are the list
  \<open>fd\<close>; a read that finds fewer bytes than it wants has met the end of the
  stream. Bytes the worker writes are appended to \<open>sent\<close>.
\<close>

section \<open>Records\<close>

definition FCGI_VERSION_1 :: nat where "FCGI_VERSION_1 = 1"
definition FCGI_MAX_LENGTH :: nat where "FCGI_MAX_LENGTH = 0xffff"
definition FCGI_BEGIN_REQUEST :: nat where "FCGI_BEGIN_REQUEST = 1"
definition FCGI_PARAMS :: nat where "FCGI_PARAMS = 4"
definition FCGI_STDIN :: nat where "FCGI_STDIN = 5"
definition FCGI_GET_VALUES :: nat where "FCGI_GET_VALUES = 9"
definition FCGI_GET_VALUES_RESULT :: nat where "FCGI_GET_VALUES_RESULT = 10"

record fcgi_header =
  version :: nat
  type_of :: nat
  requestId :: nat
  contentLength :: nat
  paddingLength :: nat

text \<open>
  A header as \<open>safe_read()\<close> and the version test that follows every such read accept it.
\<close>

definition read_header :: "bytes \<Rightarrow> (fcgi_header \<times> bytes) option" where
  "read_header s =
     (if length s < 8 then None
      else
        let b = (\<lambda>i. of_char (s ! i) :: nat) in
        if b 0 < FCGI_VERSION_1 then None
        else Some (\<lparr>version = b 0, type_of = b 1, requestId = b 2 * 256 + b 3,
                    contentLength = b 4 * 256 + b 5, paddingLength = b 6\<rparr>, drop 8 s))"

definition fcgi_make_header :: "nat \<Rightarrow> nat \<Rightarrow> nat \<Rightarrow> bytes \<times> nat" where
  "fcgi_make_header ty req_id len =
     (let pad = (len + 7) div 8 * 8 - len in
      (map char_of [FCGI_VERSION_1, ty, req_id div 256, req_id, len div 256, len, pad, 0], pad))"

section \<open>The parameter table\<close>

record fcgi_hash_bucket =
  hash_value :: nat
  var :: bytes
  val :: bytes

text \<open>
  The hash reads the fourth byte of the text that begins with the name, also for a name
  of three bytes; past the end of the buffer it is taken as zero.
\<close>

definition byte_at :: "bytes \<Rightarrow> nat \<Rightarrow> nat" where
  "byte_at p i = (if i < length p then of_char (p ! i) else 0)"

definition FCGI_HASH_FUNC :: "bytes \<Rightarrow> nat \<Rightarrow> nat" where
  "FCGI_HASH_FUNC p n =
     (if n < 3 then n else byte_at p 3 * 4 + byte_at p (n - 2) * 16 + byte_at p (n - 1) * 4 + n)"

text \<open>
  The table as its list of buckets, newest first. A chain holds the buckets whose hash
  agrees in the low bits, in the same order, so the first match in the list is
  the first match in the chain.
\<close>

fun hash_update :: "nat \<Rightarrow> bytes \<Rightarrow> bytes \<Rightarrow> fcgi_hash_bucket list \<Rightarrow> fcgi_hash_bucket list option" where
  "hash_update hv v x [] = None"
| "hash_update hv v x (b # h) =
     (if hash_value b = hv \<and> var b = v then Some (b\<lparr>val := x\<rparr> # h)
      else map_option (\<lambda>h. b # h) (hash_update hv v x h))"

definition fcgi_hash_set :: "nat \<Rightarrow> bytes \<Rightarrow> bytes \<Rightarrow> fcgi_hash_bucket list \<Rightarrow> fcgi_hash_bucket list" where
  "fcgi_hash_set hv v x h =
     (case hash_update hv v x h of
        Some h' \<Rightarrow> h'
      | None \<Rightarrow> \<lparr>hash_value = hv, var = v, val = x\<rparr> # h)"

fun fcgi_hash_get :: "nat \<Rightarrow> bytes \<Rightarrow> fcgi_hash_bucket list \<Rightarrow> bytes option" where
  "fcgi_hash_get hv v [] = None"
| "fcgi_hash_get hv v (b # h) =
     (if hash_value b = hv \<and> var b = v then Some (val b) else fcgi_hash_get hv v h)"

definition fcgi_getenv :: "bytes \<Rightarrow> fcgi_hash_bucket list \<Rightarrow> bytes option" where
  "fcgi_getenv n h = fcgi_hash_get (FCGI_HASH_FUNC n (length n)) n h"

section \<open>Decoding parameters\<close>

definition get_len :: "bytes \<Rightarrow> (nat \<times> bytes) option" where
  "get_len p =
     (case p of
        [] \<Rightarrow> None
      | c # p \<Rightarrow>
          let n = of_char c :: nat in
          if n \<ge> 128 then
            (if length p \<le> 3 then None
             else Some ((n - 128) * 2 ^ 24 + byte_at p 0 * 2 ^ 16 + byte_at p 1 * 2 ^ 8 + byte_at p 2, drop 3 p))
          else Some (n, p))"

text \<open>One pair: the name, the value, the text it began at and the rest.\<close>

definition get_pair :: "bytes \<Rightarrow> ((bytes \<times> bytes) \<times> bytes) option" where
  "get_pair p =
     (case get_len p of
        None \<Rightarrow> None
      | Some (name_len, p) \<Rightarrow>
          (case get_len p of
             None \<Rightarrow> None
           | Some (val_len, p) \<Rightarrow>
               if name_len + val_len > length p then None
               else Some ((take name_len p, take val_len (drop name_len p)), drop (name_len + val_len) p)))"

lemma get_len_shorter: "get_len p = Some (n, r) \<Longrightarrow> length r < length p"
  by (auto simp: get_len_def Let_def split: list.splits if_splits)

lemma get_pair_shorter: "get_pair p = Some (nv, r) \<Longrightarrow> length r < length p"
  by (fastforce simp: get_pair_def split: option.splits if_splits prod.splits dest: get_len_shorter)

text \<open>
  \<open>fcgi_get_params()\<close>. The hash of a name is computed in place, where the value and the
  next pair follow it; \<open>pad\<close> is what the buffer holds after the parameters. A
  malformed block returns 0, and the caller gives the request up.
\<close>

function fcgi_get_params :: "bytes \<Rightarrow> bytes \<Rightarrow> fcgi_hash_bucket list \<Rightarrow> fcgi_hash_bucket list option" where
  "fcgi_get_params p pad env =
     (if p = [] then Some env
      else (case get_pair p of
              None \<Rightarrow> None
            | Some ((n, v), r) \<Rightarrow>
                fcgi_get_params r pad (fcgi_hash_set (FCGI_HASH_FUNC (n @ v @ r @ pad) (length n)) n v env)))"
  by pat_completeness auto
termination
  by (relation "measure (\<lambda>(p, pad, env). length p)") (auto dest: get_pair_shorter)

declare fcgi_get_params.simps [simp del]

section \<open>Reading a request\<close>

record fcgi_request =
  req_id :: nat
  keep :: bool
  in_len :: nat
  in_pad :: nat
  has_env :: bool
  env :: "fcgi_hash_bucket list"
  fd :: bytes
  sent :: bytes

text \<open>The headers of empty STDIN records are skipped.\<close>

function skip_stdin :: "bytes \<Rightarrow> bytes + (fcgi_header \<times> bytes)" where
  "skip_stdin s =
     (case read_header s of
        None \<Rightarrow> Inl (drop 8 s)
      | Some (hdr, s') \<Rightarrow>
          if type_of hdr = FCGI_STDIN \<and> contentLength hdr = 0 then skip_stdin s' else Inr (hdr, s'))"
  by pat_completeness auto
termination
  by (relation "measure length") (auto simp: read_header_def Let_def split: if_splits)

declare skip_stdin.simps [simp del]

lemma read_header_shorter: "read_header s = Some (h, r) \<Longrightarrow> length r < length s"
  by (auto simp: read_header_def Let_def split: if_splits)

function params_loop :: "fcgi_header \<Rightarrow> fcgi_request \<Rightarrow> nat \<times> fcgi_request" where
  "params_loop hdr req =
     (let len = contentLength hdr; padding = paddingLength hdr in
      if type_of hdr = FCGI_PARAMS \<and> len > 0 then
        if len + padding > FCGI_MAX_LENGTH then (0, req)
        else if length (fd req) < len + padding then (0, req\<lparr>keep := False, fd := []\<rparr>)
        else
          let buf = take (len + padding) (fd req); s = drop (len + padding) (fd req) in
          (case fcgi_get_params (take len buf) (drop len buf) (env req) of
             None \<Rightarrow> (0, req\<lparr>keep := False, fd := s\<rparr>)
           | Some e \<Rightarrow>
               (case read_header s of
                  None \<Rightarrow> (0, req\<lparr>keep := False, env := e, fd := drop 8 s\<rparr>)
                | Some (hdr, s') \<Rightarrow> params_loop hdr (req\<lparr>env := e, fd := s'\<rparr>)))
      else (1, req))"
  by pat_completeness auto
termination
  by (relation "measure (\<lambda>(h, r). length (fd r))") (auto dest!: read_header_shorter)

declare params_loop.simps [simp del]

text \<open>The role a BEGIN_REQUEST names.\<close>

definition role_name :: "nat \<Rightarrow> bytes option" where
  "role_name r = (if r = 1 then Some ''RESPONDER'' else if r = 2 then Some ''AUTHORIZER''
                  else if r = 3 then Some ''FILTER'' else None)"

text \<open>
  The answer to a GET_VALUES record: the management variables of the worker among those
  asked for, as long as the buffer of \<open>FCGI_MAX_LENGTH + 8\<close> bytes has room.
\<close>

definition put_len :: "nat \<Rightarrow> bytes" where
  "put_len n = (if n < 128 then [char_of n]
                else map char_of [n div 2 ^ 24 mod 128 + 128, n div 2 ^ 16, n div 2 ^ 8, n])"

fun get_values :: "(bytes \<rightharpoonup> bytes) \<Rightarrow> fcgi_hash_bucket list \<Rightarrow> bytes \<Rightarrow> bytes" where
  "get_values mgmt [] out = out"
| "get_values mgmt (q # qs) out =
     (case mgmt (var q) of
        None \<Rightarrow> get_values mgmt qs out
      | Some value \<Rightarrow>
          if 8 + length out + 8 + length (var q) + length value \<ge> FCGI_MAX_LENGTH + 8 then out
          else get_values mgmt qs (out @ put_len (length (var q)) @ put_len (length value) @ var q @ value))"

definition fcgi_reset :: "fcgi_request \<Rightarrow> fcgi_request" where
  "fcgi_reset req =
     req\<lparr>keep := False, in_len := 0, has_env := True, env := (if has_env req then [] else env req)\<rparr>"

text \<open>A BEGIN_REQUEST record and the parameters after it.\<close>

definition read_begin :: "nat \<Rightarrow> fcgi_request \<Rightarrow> nat \<times> fcgi_request" where
  "read_begin count req =
     (if length (fd req) < count then (0, req\<lparr>fd := []\<rparr>)
      else
        let b = (\<lambda>i. of_char (fd req ! i) :: nat);
            req = req\<lparr>keep := odd (b 2), fd := drop count (fd req)\<rparr>
        in (case role_name (b 0 * 256 + b 1) of
              None \<Rightarrow> (0, req)
            | Some role \<Rightarrow>
                let req = req\<lparr>env := fcgi_hash_set (FCGI_HASH_FUNC ''FCGI_ROLE'' 9) ''FCGI_ROLE'' role (env req)\<rparr> in
                (case read_header (fd req) of
                   None \<Rightarrow> (0, req\<lparr>fd := drop 8 (fd req)\<rparr>)
                 | Some (hdr, s) \<Rightarrow> params_loop hdr (req\<lparr>fd := s\<rparr>))))"

definition read_get_values :: "(bytes \<rightharpoonup> bytes) \<Rightarrow> nat \<Rightarrow> nat \<Rightarrow> fcgi_request \<Rightarrow> nat \<times> fcgi_request" where
  "read_get_values mgmt len padding req =
     (if length (fd req) < len + padding then (0, req\<lparr>keep := False, fd := []\<rparr>)
      else
        let buf = take (len + padding) (fd req); req = req\<lparr>fd := drop (len + padding) (fd req)\<rparr> in
        (case fcgi_get_params (take len buf) (drop len buf) (env req) of
           None \<Rightarrow> (0, req\<lparr>keep := False\<rparr>)
         | Some e \<Rightarrow>
             let body = get_values mgmt e [];
                 (hdr, pad) = fcgi_make_header FCGI_GET_VALUES_RESULT 0 (length body)
             in (2, req\<lparr>env := e, sent := sent req @ hdr @ body @ replicate pad NUL\<rparr>)))"

definition fcgi_read_request :: "(bytes \<rightharpoonup> bytes) \<Rightarrow> fcgi_request \<Rightarrow> nat \<times> fcgi_request" where
  "fcgi_read_request mgmt req =
     (let req = fcgi_reset req in
      case skip_stdin (fd req) of
        Inl s \<Rightarrow> (0, req\<lparr>fd := s\<rparr>)
      | Inr (hdr, s) \<Rightarrow>
          let len = contentLength hdr; padding = paddingLength hdr; req = req\<lparr>fd := s\<rparr> in
          if len + padding > FCGI_MAX_LENGTH then (0, req)
          else
            let req = req\<lparr>req_id := requestId hdr\<rparr> in
            if type_of hdr = FCGI_BEGIN_REQUEST \<and> len = 8 then read_begin (len + padding) req
            else if type_of hdr = FCGI_GET_VALUES then read_get_values mgmt len padding req
            else (0, req))"

section \<open>Reading the body\<close>

text \<open>
  The loop of \<open>fcgi_read()\<close>: \<open>str\<close> is what it has stored. The answer is the prefix of
  the stored bytes that the returned count covers: nothing when a header is not that of
  a STDIN record, and only the size of the last piece when its padding is missing.
\<close>

function read_loop :: "nat \<Rightarrow> bytes \<Rightarrow> fcgi_request \<Rightarrow> bytes \<times> fcgi_request" where
  "read_loop rest str req =
     (if rest = 0 then (str, req)
      else
        let opened =
              (if in_len req = 0 then
                 (case read_header (fd req) of
                    None \<Rightarrow> Inl (req\<lparr>keep := False, fd := drop 8 (fd req)\<rparr>)
                  | Some (hdr, s) \<Rightarrow>
                      if type_of hdr \<noteq> FCGI_STDIN then Inl (req\<lparr>keep := False, fd := s\<rparr>)
                      else Inr (req\<lparr>in_len := contentLength hdr, in_pad := paddingLength hdr, fd := s\<rparr>))
               else Inr req)
        in case opened of
             Inl req \<Rightarrow> ([], req)
           | Inr req \<Rightarrow>
               if in_len req = 0 then (str, req)
               else
                 let got = take (min (in_len req) rest) (fd req);
                     req = req\<lparr>in_len := in_len req - length got, fd := drop (length got) (fd req)\<rparr>
                 in if got = [] then (str, req)
                    else if in_len req \<noteq> 0 then (str @ got, req)
                    else if length (fd req) < in_pad req
                    then (take (length got) (str @ got), req\<lparr>keep := False, fd := []\<rparr>)
                    else read_loop (rest - length got) (str @ got) (req\<lparr>fd := drop (in_pad req) (fd req)\<rparr>))"
  by pat_completeness auto
termination
  by (relation "measure fst") (auto split: if_splits)

declare read_loop.simps [simp del]

definition fcgi_read :: "nat \<Rightarrow> fcgi_request \<Rightarrow> bytes \<times> fcgi_request" where
  "fcgi_read len req = read_loop len [] req"

end
