(* ===== verification/Http_Upstream.thy ===== *)
theory Http_Upstream
  imports Http_Reply Fastcgi
begin

text \<open>
  The upstream side of the gateway for FastCGI targets (\<open>fpm_http.c\<close>): the record parser
  that receives a worker's answer in pieces of any size, the end of a request and the
  failure of a connection. One connection is modelled; what the dispatcher
  \<open>fpm_http_pump()\<close> hands to it when it is free is a parameter. The flags \<open>req_written\<close> and
  \<open>reply_seen\<close> choose a log line only and are left out.
\<close>

definition FCGI_END_REQUEST :: nat where "FCGI_END_REQUEST = 3"
definition FCGI_STDOUT :: nat where "FCGI_STDOUT = 6"
definition FCGI_STDERR :: nat where "FCGI_STDERR = 7"

section \<open>Connections\<close>

text \<open>
  \<open>served\<close> lists the replies whose requests are over. The header bytes received so far are
  \<open>rec_hdr\<close>, so \<open>rec_hdr_len\<close> is their number.
\<close>

record upstream =
  rec_hdr :: bytes
  rec_type :: nat
  rec_len :: nat
  rec_pad :: nat
  busy :: bool
  dead :: bool
  current :: "reply option"
  served :: "reply list"
  notices :: "bytes list"

datatype pumped = No_Request | Request reply | Write_Fails reply

record upstream_env = reply_env +
  next_request :: "upstream \<Rightarrow> pumped"

definition renv :: "upstream_env \<Rightarrow> reply_env" where "renv e = reply_env.truncate e"

definition fpm_http_upstream_drop :: "upstream \<Rightarrow> upstream" where
  "fpm_http_upstream_drop up = up\<lparr>dead := True\<rparr>"

definition fpm_http_upstream_fail :: "upstream_env \<Rightarrow> upstream \<Rightarrow> upstream" where
  "fpm_http_upstream_fail e up =
     fpm_http_upstream_drop
       (case current up of
          Some c \<Rightarrow>
            let c' = (if headers_sent c \<and> \<not> discard_upstream c then fpm_http_finish_truncated (renv e) c
                      else fpm_http_finish (renv e) c)
            in up\<lparr>current := None, served := served up @ [c']\<rparr>
        | None \<Rightarrow> up)"

text \<open>What a dispatch round does to this connection; its first write may fail at once.\<close>

definition pump_connection :: "upstream_env \<Rightarrow> upstream \<Rightarrow> upstream" where
  "pump_connection e up =
     (if busy up \<or> dead up then up
      else case next_request e up of
        No_Request \<Rightarrow> up
      | Request c \<Rightarrow> up\<lparr>busy := True, current := Some c\<rparr>
      | Write_Fails c \<Rightarrow> fpm_http_upstream_fail e (up\<lparr>busy := True, current := Some c\<rparr>))"

definition fpm_http_request_done :: "upstream_env \<Rightarrow> upstream \<Rightarrow> upstream" where
  "fpm_http_request_done e up =
     (let up = (case current up of
                  Some c \<Rightarrow> up\<lparr>current := None, served := served up @ [fpm_http_finish (renv e) c]\<rparr>
                | None \<Rightarrow> up)
      in pump_connection e (up\<lparr>rec_hdr := [], rec_type := 0, rec_len := 0, rec_pad := 0, busy := False\<rparr>))"

text \<open>The test after a record header and after a part of a record.\<close>

definition record_end :: "upstream_env \<Rightarrow> upstream \<Rightarrow> upstream" where
  "record_end e up =
     (if rec_len up = 0 \<and> rec_pad up = 0 \<and> rec_type up = FCGI_END_REQUEST then fpm_http_request_done e up else up)"

text \<open>One turn of the loop: the connection and the bytes left.\<close>

definition data_step :: "upstream_env \<Rightarrow> bytes \<Rightarrow> upstream \<Rightarrow> upstream \<times> bytes" where
  "data_step e buf up =
     (if rec_len up = 0 \<and> rec_pad up = 0 then
        let n = min (8 - length (rec_hdr up)) (length buf); h = rec_hdr up @ take n buf; rest = drop n buf in
        if length h < 8 then (up\<lparr>rec_hdr := h\<rparr>, rest)
        else
          let b = (\<lambda>i. of_char (h ! i) :: nat) in
          (record_end e (up\<lparr>rec_hdr := [], rec_type := b 1, rec_len := b 4 * 256 + b 5, rec_pad := b 6\<rparr>), rest)
      else if rec_len up > 0 then
        let n = min (rec_len up) (length buf); d = take n buf;
            up = (case current up of
                    Some c \<Rightarrow>
                      if rec_type up = FCGI_STDOUT then up\<lparr>current := Some (fpm_http_stdout (renv e) d c)\<rparr>
                      else if rec_type up = FCGI_STDERR then up\<lparr>notices := notices up @ [d]\<rparr> else up
                  | None \<Rightarrow> if rec_type up = FCGI_STDERR then up\<lparr>notices := notices up @ [d]\<rparr> else up)
        in (record_end e (up\<lparr>rec_len := rec_len up - n\<rparr>), drop n buf)
      else
        let n = min (rec_pad up) (length buf) in (record_end e (up\<lparr>rec_pad := rec_pad up - n\<rparr>), drop n buf))"

text \<open>Every turn takes a byte at least, so as many turns as there are bytes are enough.\<close>

fun data_loop :: "nat \<Rightarrow> upstream_env \<Rightarrow> bytes \<Rightarrow> upstream \<Rightarrow> upstream" where
  "data_loop 0 e buf up = up"
| "data_loop (Suc k) e buf up =
     (if buf = [] \<or> dead up then up
      else let (up, rest) = data_step e buf up in data_loop k e rest up)"

definition fpm_http_upstream_data :: "upstream_env \<Rightarrow> bytes \<Rightarrow> upstream \<Rightarrow> upstream" where
  "fpm_http_upstream_data e buf up = data_loop (length buf) e buf up"

datatype read_event = Timed_Out | Read bytes | Eof | Read_Error

definition fpm_http_upstream_readcb :: "upstream_env \<Rightarrow> read_event \<Rightarrow> upstream \<Rightarrow> upstream" where
  "fpm_http_upstream_readcb e ev up =
     (case ev of
        Timed_Out \<Rightarrow> if busy up then up else fpm_http_upstream_drop up
      | Read buf \<Rightarrow> fpm_http_upstream_data e buf up
      | Eof \<Rightarrow> fpm_http_upstream_fail e up
      | Read_Error \<Rightarrow> fpm_http_upstream_fail e up)"

section \<open>The stream of records, byte by byte\<close>

record rd =
  rd_hdr :: bytes
  rd_type :: nat
  rd_len :: nat
  rd_pad :: nat
  rd_out :: bytes
  rd_end :: bool

abbreviation at_end :: "nat \<Rightarrow> nat \<Rightarrow> nat \<Rightarrow> bool" where
  "at_end ty len pad \<equiv> len = 0 \<and> pad = 0 \<and> ty = FCGI_END_REQUEST"

definition rd_byte :: "char \<Rightarrow> rd \<Rightarrow> rd" where
  "rd_byte x st =
     (if rd_end st then st
      else if rd_len st = 0 \<and> rd_pad st = 0 then
        let h = rd_hdr st @ [x]; b = (\<lambda>i. of_char (h ! i) :: nat) in
        if length h < 8 then st\<lparr>rd_hdr := h\<rparr>
        else st\<lparr>rd_hdr := [], rd_type := b 1, rd_len := b 4 * 256 + b 5, rd_pad := b 6,
                rd_end := at_end (b 1) (b 4 * 256 + b 5) (b 6)\<rparr>
      else if rd_len st > 0 then
        st\<lparr>rd_len := rd_len st - 1, rd_out := rd_out st @ (if rd_type st = FCGI_STDOUT then [x] else []),
           rd_end := at_end (rd_type st) (rd_len st - 1) (rd_pad st)\<rparr>
      else st\<lparr>rd_pad := rd_pad st - 1, rd_end := at_end (rd_type st) 0 (rd_pad st - 1)\<rparr>)"

lemma rd_byte_steps:
  assumes "\<not> rd_end st"
  shows "0 < rd_len st \<Longrightarrow> rd_byte x st =
      st\<lparr>rd_len := rd_len st - 1, rd_out := rd_out st @ (if rd_type st = FCGI_STDOUT then [x] else []),
         rd_end := at_end (rd_type st) (rd_len st - 1) (rd_pad st)\<rparr>"
    "rd_len st = 0 \<Longrightarrow> 0 < rd_pad st \<Longrightarrow> rd_byte x st =
      st\<lparr>rd_pad := rd_pad st - 1, rd_end := at_end (rd_type st) 0 (rd_pad st - 1)\<rparr>"
    "rd_len st = 0 \<Longrightarrow> rd_pad st = 0 \<Longrightarrow> length (rd_hdr st) < 7 \<Longrightarrow> rd_byte x st = st\<lparr>rd_hdr := rd_hdr st @ [x]\<rparr>"
  using assms by (simp_all add: rd_byte_def)

lemma rd_ended: "rd_end st \<Longrightarrow> fold rd_byte xs st = st"
  by (induction xs) (simp_all add: rd_byte_def)

lemma rd_take_len:
  assumes "\<not> rd_end st" "0 < length xs" "length xs \<le> rd_len st"
  shows "fold rd_byte xs st = st\<lparr>rd_len := rd_len st - length xs,
    rd_out := rd_out st @ (if rd_type st = FCGI_STDOUT then xs else []),
    rd_end := at_end (rd_type st) (rd_len st - length xs) (rd_pad st)\<rparr>"
  using assms
proof (induction xs arbitrary: st)
  case (Cons x xs)
  then have "\<not> rd_len st \<le> Suc 0" if "xs \<noteq> []" using that by (cases xs) auto
  moreover have "rd_len st - Suc 0 = length xs \<longleftrightarrow> rd_len st = Suc (length xs)" using Cons.prems by auto
  ultimately show ?case using Cons by (cases "xs = []") (auto simp: rd_byte_steps(1))
qed simp

lemma rd_take_pad:
  assumes "\<not> rd_end st" "0 < length xs" "rd_len st = 0" "length xs \<le> rd_pad st"
  shows "fold rd_byte xs st = st\<lparr>rd_pad := rd_pad st - length xs,
    rd_end := at_end (rd_type st) 0 (rd_pad st - length xs)\<rparr>"
  using assms
proof (induction xs arbitrary: st)
  case (Cons x xs)
  then have "\<not> rd_pad st \<le> Suc 0" if "xs \<noteq> []" using that by (cases xs) auto
  moreover have "rd_pad st - Suc 0 = length xs \<longleftrightarrow> rd_pad st = Suc (length xs)" using Cons.prems by auto
  ultimately show ?case using Cons by (cases "xs = []") (auto simp: rd_byte_steps(2))
qed simp

lemma rd_take_hdr:
  assumes "\<not> rd_end st" "rd_len st = 0" "rd_pad st = 0" "length (rd_hdr st @ xs) \<le> 8" "length (rd_hdr st) < 8"
  shows "fold rd_byte xs st =
    (let h = rd_hdr st @ xs; b = (\<lambda>i. of_char (h ! i) :: nat) in
     if length h < 8 then st\<lparr>rd_hdr := h\<rparr>
     else st\<lparr>rd_hdr := [], rd_type := b 1, rd_len := b 4 * 256 + b 5, rd_pad := b 6,
             rd_end := at_end (b 1) (b 4 * 256 + b 5) (b 6)\<rparr>)"
  using assms
proof (induction xs arbitrary: st)
  case (Cons x xs)
  show ?case
  proof (cases "xs = []")
    case True
    then show ?thesis using Cons.prems by (simp add: rd_byte_def)
  next
    case False
    then have "length (rd_hdr st) < 7" using Cons.prems by (cases xs) auto
    then show ?thesis
      using Cons.IH [of "st\<lparr>rd_hdr := rd_hdr st @ [x]\<rparr>"] Cons.prems by (simp add: rd_byte_steps(3) Let_def)
  qed
qed simp

section \<open>A reply in flight\<close>

text \<open>
  The connection has parsed the bytes of \<open>st\<close> for the reply that began as \<open>c0\<close>; after the
  end of the request the finished reply is listed.
\<close>

definition in_flight :: "upstream_env \<Rightarrow> reply \<Rightarrow> reply list \<Rightarrow> rd \<Rightarrow> upstream \<Rightarrow> bool" where
  "in_flight e c0 sv st up \<longleftrightarrow> \<not> rd_end st \<and> \<not> dead up \<and> length (rd_hdr st) < 8 \<and> rec_hdr up = rd_hdr st \<and>
     rec_type up = rd_type st \<and> rec_len up = rd_len st \<and> rec_pad up = rd_pad st \<and> served up = sv \<and>
     (\<exists>c. current up = Some c \<and> fed (renv e) c0 (rd_out st) c)"

definition ended :: "upstream_env \<Rightarrow> reply \<Rightarrow> reply list \<Rightarrow> rd \<Rightarrow> upstream \<Rightarrow> bool" where
  "ended e c0 sv st up \<longleftrightarrow> rd_end st \<and>
     (\<exists>c. fed (renv e) c0 (rd_out st) c \<and> prefix (sv @ [fpm_http_finish (renv e) c]) (served up))"

definition follows :: "upstream_env \<Rightarrow> reply \<Rightarrow> reply list \<Rightarrow> rd \<Rightarrow> upstream \<Rightarrow> bool" where
  "follows e c0 sv st up \<longleftrightarrow> in_flight e c0 sv st up \<or> ended e c0 sv st up"

lemma served_fail: "prefix (served up) (served (fpm_http_upstream_fail e up))"
  by (simp add: fpm_http_upstream_fail_def fpm_http_upstream_drop_def Let_def split: option.split)

lemma served_pump: "prefix (served up) (served (pump_connection e up))"
  using served_fail [of "up\<lparr>busy := True, current := Some _\<rparr>" e]
  by (auto simp: pump_connection_def split: pumped.split)

lemma served_done: "prefix (served up) (served (fpm_http_request_done e up))"
proof -
  have p: "prefix (served up) (served x) \<Longrightarrow> prefix (served up) (served (pump_connection e x))" for x
    using served_pump prefix_order.order_trans by blast
  show ?thesis by (auto simp: fpm_http_request_done_def Let_def split: option.split intro!: p)
qed

lemma served_record_end: "prefix (served up) (served (record_end e up))"
  using served_done by (simp add: record_end_def)

lemma served_step: "prefix (served up) (served (fst (data_step e buf up)))"
proof -
  have r: "served x = served up \<Longrightarrow> prefix (served up) (served (record_end e x))" for x
    using served_record_end [of x e] by simp
  show ?thesis by (auto simp: data_step_def Let_def split: option.split intro!: r)
qed

lemma served_loop: "prefix (served up) (served (data_loop k e buf up))"
proof (induction k arbitrary: buf up)
  case (Suc k)
  show ?case using prefix_order.order_trans [OF served_step Suc] by (simp add: case_prod_beta)
qed simp

lemma record_end_follows:
  assumes "\<not> dead up" "length (rd_hdr st) < 8" "rec_hdr up = rd_hdr st" "rec_type up = rd_type st"
    "rec_len up = rd_len st" "rec_pad up = rd_pad st" "served up = sv" "current up = Some c" "fed (renv e) c0 (rd_out st) c"
    "rd_end st = at_end (rd_type st) (rd_len st) (rd_pad st)"
  shows "follows e c0 sv st (record_end e up)"
proof (cases "rd_end st")
  case True
  let ?up = "up\<lparr>current := None, served := sv @ [fpm_http_finish (renv e) c]\<rparr>"
  have "record_end e up =
      pump_connection e (?up\<lparr>rec_hdr := [], rec_type := 0, rec_len := 0, rec_pad := 0, busy := False\<rparr>)"
    using assms True by (simp add: record_end_def fpm_http_request_done_def)
  then have "ended e c0 sv st (record_end e up)"
    using True assms(9) served_pump [of "?up\<lparr>rec_hdr := [], rec_type := 0, rec_len := 0, rec_pad := 0, busy := False\<rparr>" e]
    by (auto simp: ended_def)
  then show ?thesis by (simp add: follows_def)
next
  case False
  then have "record_end e up = up" using assms by (auto simp: record_end_def)
  then show ?thesis using assms False by (auto simp: follows_def in_flight_def)
qed

lemma data_step_follows:
  assumes "fresh c0" "in_flight e c0 sv st up" "buf \<noteq> []"
  obtains n where "0 < n" "n \<le> length buf" "snd (data_step e buf up) = drop n buf"
    "block_fits (rd_out (fold rd_byte (take n buf) st)) \<Longrightarrow>
       follows e c0 sv (fold rd_byte (take n buf) st) (fst (data_step e buf up))"
proof -
  obtain c where c: "current up = Some c" "fed (renv e) c0 (rd_out st) c" using assms(2) by (auto simp: in_flight_def)
  have t: "\<not> rd_end st" "\<not> dead up" "length (rd_hdr st) < 8" "rec_hdr up = rd_hdr st" "rec_type up = rd_type st"
      "rec_len up = rd_len st" "rec_pad up = rd_pad st" "served up = sv"
    using assms(2) by (auto simp: in_flight_def)
  consider (hdr) "rd_len st = 0" "rd_pad st = 0" | (len) "0 < rd_len st" | (pad) "rd_len st = 0" "0 < rd_pad st"
    by auto
  then show ?thesis
  proof cases
    case hdr
    define n where "n = min (8 - length (rd_hdr st)) (length buf)"
    have n: "0 < n" "n \<le> length buf" using t(3) assms(3) by (auto simp: n_def)
    have l: "length (rd_hdr st @ take n buf) \<le> 8" using t(3) by (simp add: n_def)
    let ?h = "rd_hdr st @ take n buf"
    define b where "b = (\<lambda>i. of_char (?h ! i) :: nat)"
    have f: "fold rd_byte (take n buf) st = (if length ?h < 8 then st\<lparr>rd_hdr := ?h\<rparr>
        else st\<lparr>rd_hdr := [], rd_type := b 1, rd_len := b 4 * 256 + b 5, rd_pad := b 6,
                rd_end := at_end (b 1) (b 4 * 256 + b 5) (b 6)\<rparr>)"
      using rd_take_hdr [OF t(1) hdr l t(3)] by (simp add: Let_def b_def)
    have ds: "data_step e buf up = (if length ?h < 8 then up\<lparr>rec_hdr := ?h\<rparr>
        else record_end e (up\<lparr>rec_hdr := [], rec_type := b 1, rec_len := b 4 * 256 + b 5, rec_pad := b 6\<rparr>), drop n buf)"
      by (simp add: data_step_def Let_def t hdr n_def [symmetric] b_def)
    have "follows e c0 sv (fold rd_byte (take n buf) st) (fst (data_step e buf up))"
    proof (cases "length ?h < 8")
      case True
      then show ?thesis unfolding f ds using t c hdr by (simp add: follows_def in_flight_def)
    next
      case False
      then have "\<not> length (rd_hdr st @ take n buf) < 8" .
      then show ?thesis unfolding f ds using t c
        by (simp only: if_False fst_conv) (rule record_end_follows [where c = c], simp_all)
    qed
    then show ?thesis using that [OF n] by (simp add: ds)
  next
    case len
    define n where "n = min (rd_len st) (length buf)"
    have n: "0 < n" "n \<le> length buf" "0 < length (take n buf)" "length (take n buf) \<le> rd_len st"
      using len assms(3) by (auto simp: n_def)
    note f = rd_take_len [OF t(1) n(3, 4)]
    let ?st = "fold rd_byte (take n buf) st"
    define up1 where "up1 = (if rd_type st = FCGI_STDOUT then up\<lparr>current := Some (fpm_http_stdout (renv e) (take n buf) c)\<rparr>
        else if rd_type st = FCGI_STDERR then up\<lparr>notices := notices up @ [take n buf]\<rparr> else up)"
    have ds: "data_step e buf up = (record_end e (up1\<lparr>rec_len := rd_len st - n\<rparr>), drop n buf)"
      using len c(1) by (simp add: data_step_def Let_def t n_def [symmetric] up1_def)
    have "follows e c0 sv ?st (fst (data_step e buf up))" if b: "block_fits (rd_out ?st)"
    proof (cases "rd_type st = FCGI_STDOUT")
      case True
      have "block_fits (rd_out st @ take n buf)" using b True by (simp add: f)
      then have "fed (renv e) c0 (rd_out st @ take n buf) (fpm_http_stdout (renv e) (take n buf) c)"
        using fed_stdout [OF assms(1) c(2)] n(3) by simp
      then show ?thesis unfolding ds f fst_conv using t True n(2)
        by (intro record_end_follows [where c = "fpm_http_stdout (renv e) (take n buf) c"]) (simp_all add: up1_def)
    next
      case False
      then show ?thesis unfolding ds f fst_conv using t c n(2)
        by (intro record_end_follows [where c = c]) (simp_all add: up1_def)
    qed
    then show ?thesis using that [OF n(1, 2)] by (simp add: ds)
  next
    case pad
    define n where "n = min (rd_pad st) (length buf)"
    have n: "0 < n" "n \<le> length buf" "0 < length (take n buf)" "length (take n buf) \<le> rd_pad st"
      using pad assms(3) by (auto simp: n_def)
    note f = rd_take_pad [OF t(1) n(3) pad(1) n(4)]
    have ds: "data_step e buf up = (record_end e (up\<lparr>rec_pad := rd_pad st - n\<rparr>), drop n buf)"
      using pad by (simp add: data_step_def Let_def t n_def [symmetric])
    have "follows e c0 sv (fold rd_byte (take n buf) st) (fst (data_step e buf up))"
      unfolding ds f fst_conv using t c pad n(2) by (intro record_end_follows [where c = c]) simp_all
    then show ?thesis using that [OF n(1, 2)] by (simp add: ds)
  qed
qed

lemma rd_out_byte: "prefix (rd_out st) (rd_out (rd_byte x st))"
  by (simp add: rd_byte_def Let_def)

lemma rd_out_fold: "prefix (rd_out st) (rd_out (fold rd_byte xs st))"
proof (induction xs arbitrary: st)
  case (Cons x xs)
  show ?case using prefix_order.order_trans [OF rd_out_byte Cons] by simp
qed simp

lemma ended_more: "ended e c0 sv st up \<Longrightarrow> ended e c0 sv (fold rd_byte xs st) (data_loop k e buf up)"
  using served_loop [of up k e buf] prefix_order.order_trans by (fastforce simp: ended_def rd_ended)

lemma data_loop_follows:
  assumes "fresh c0" "in_flight e c0 sv st up" "length buf \<le> k" "block_fits (rd_out (fold rd_byte buf st))"
  shows "follows e c0 sv (fold rd_byte buf st) (data_loop k e buf up)"
  using assms(2-)
proof (induction k arbitrary: buf st up)
  case 0
  then show ?case by (simp add: follows_def)
next
  case (Suc k)
  show ?case
  proof (cases "buf = []")
    case True
    then show ?thesis using Suc.prems(1) by (simp add: follows_def)
  next
    case False
    obtain n where n: "0 < n" "n \<le> length buf" "snd (data_step e buf up) = drop n buf"
        "block_fits (rd_out (fold rd_byte (take n buf) st)) \<Longrightarrow>
          follows e c0 sv (fold rd_byte (take n buf) st) (fst (data_step e buf up))"
      using data_step_follows [OF assms(1) Suc.prems(1) False] by blast
    let ?st = "fold rd_byte (take n buf) st" and ?up = "fst (data_step e buf up)"
    have st: "fold rd_byte buf st = fold rd_byte (drop n buf) ?st"
      using fold_append [of rd_byte "take n buf" "drop n buf"] by simp
    have "block_fits (rd_out ?st)"
      using rd_out_fold [of ?st "drop n buf"] Suc.prems(3) block_fits_prefix by (auto simp: st prefix_def)
    then have f: "follows e c0 sv ?st ?up" by (rule n(4))
    have d: "data_loop (Suc k) e buf up = data_loop k e (drop n buf) ?up"
      using False Suc.prems(1) n(3) by (simp add: in_flight_def case_prod_beta)
    show ?thesis
    proof (cases "ended e c0 sv ?st ?up")
      case True
      then show ?thesis using ended_more [OF True, of "drop n buf" k "drop n buf"] unfolding st d by (simp add: follows_def)
    next
      case False
      then have t: "in_flight e c0 sv ?st ?up" using f by (simp add: follows_def)
      have "length (drop n buf) \<le> k" using n(1, 2) Suc.prems(2) by simp
      then show ?thesis using Suc.IH [OF t] Suc.prems(3) unfolding st d by simp
    qed
  qed
qed

lemma data_follows:
  assumes "fresh c0" "follows e c0 sv st up" "block_fits (rd_out (fold rd_byte buf st))"
  shows "follows e c0 sv (fold rd_byte buf st) (fpm_http_upstream_data e buf up)"
  using assms data_loop_follows [OF assms(1) _ order.refl assms(3)] ended_more [of e c0 sv st up]
  by (auto simp: follows_def fpm_http_upstream_data_def)

lemma pieces_follow:
  assumes "fresh c0" "follows e c0 sv st up" "block_fits (rd_out (fold rd_byte (concat ps) st))"
  shows "follows e c0 sv (fold rd_byte (concat ps) st) (fold (fpm_http_upstream_data e) ps up)"
  using assms(2-)
proof (induction ps arbitrary: st up)
  case (Cons p ps)
  have "block_fits (rd_out (fold rd_byte p st))"
    using rd_out_fold [of "fold rd_byte p st" "concat ps"] Cons.prems(2) block_fits_prefix
    by (auto simp: prefix_def)
  from data_follows [OF assms(1) Cons.prems(1) this] Cons.IH Cons.prems(2) show ?case by simp
qed simp

section \<open>Whole replies\<close>

text \<open>A record as a worker may send it, with any padding.\<close>

type_synonym reply_record = "nat \<times> bytes \<times> bytes"

definition record_bytes :: "reply_record \<Rightarrow> bytes" where
  "record_bytes r = (case r of (ty, content, pad) \<Rightarrow>
     map char_of [FCGI_VERSION_1, ty, 0, 1, length content div 256, length content, length pad, 0] @ content @ pad)"

definition record_ok :: "reply_record \<Rightarrow> bool" where
  "record_ok r \<longleftrightarrow> (case r of (ty, content, pad) \<Rightarrow> ty < 256 \<and> length content < 65536 \<and> length pad < 256)"

definition stdout_of :: "reply_record list \<Rightarrow> bytes" where
  "stdout_of rs = concat (map (\<lambda>(ty, content, pad). if ty = FCGI_STDOUT then content else []) rs)"

lemma rd_record:
  assumes "record_ok r" "\<not> rd_end st" "rd_hdr st = []" "rd_len st = 0" "rd_pad st = 0"
  shows "fold rd_byte (record_bytes r) st =
    st\<lparr>rd_type := fst r, rd_out := rd_out st @ stdout_of [r], rd_end := (fst r = FCGI_END_REQUEST)\<rparr>"
proof -
  obtain ty content pad where r: "r = (ty, content, pad)" by (cases r)
  let ?h = "map char_of [FCGI_VERSION_1, ty, 0, 1, length content div 256, length content, length pad, 0]"
  have b: "length content div 256 mod 256 * 256 + length content mod 256 = length content"
    using assms(1) less_mult_imp_div_less [of "length content" 256 256] by (simp add: record_ok_def r)
  define s1 where "s1 = st\<lparr>rd_type := ty, rd_len := length content, rd_pad := length pad,
    rd_end := at_end ty (length content) (length pad)\<rparr>"
  have h: "fold rd_byte ?h st = s1"
    using rd_take_hdr [of st ?h] assms b by (simp add: record_ok_def r s1_def Let_def)
  define s2 where "s2 = s1\<lparr>rd_len := 0, rd_out := rd_out st @ stdout_of [r], rd_end := at_end ty 0 (length pad)\<rparr>"
  have c: "fold rd_byte content s1 = s2"
  proof (cases "content = []")
    case False
    then have "\<not> rd_end s1" by (simp add: s1_def)
    then show ?thesis using rd_take_len [of s1 content] False by (simp add: s1_def s2_def r stdout_of_def)
  qed (simp add: s1_def s2_def r stdout_of_def)
  have "fold rd_byte pad s2 = s2\<lparr>rd_pad := 0, rd_end := (ty = FCGI_END_REQUEST)\<rparr>"
  proof (cases "pad = []")
    case False
    then have "\<not> rd_end s2" by (simp add: s2_def)
    then show ?thesis using rd_take_pad [of s2 pad] False by (simp add: s1_def s2_def)
  qed (simp add: s1_def s2_def)
  then have "fold rd_byte (record_bytes r) st = s2\<lparr>rd_pad := 0, rd_end := (ty = FCGI_END_REQUEST)\<rparr>"
    using h c by (simp add: record_bytes_def r del: list.map)
  then show ?thesis using assms(4, 5) by (simp add: s1_def s2_def r)
qed

lemma rd_records:
  assumes "list_all record_ok rs" "FCGI_END_REQUEST \<notin> fst ` set rs" "\<not> rd_end st" "rd_hdr st = []" "rd_len st = 0"
    "rd_pad st = 0"
  shows "\<exists>ty. fold rd_byte (concat (map record_bytes rs)) st = st\<lparr>rd_type := ty, rd_out := rd_out st @ stdout_of rs\<rparr>"
  using assms
proof (induction rs arbitrary: st)
  case Nil
  show ?case by (intro exI [of _ "rd_type st"]) (simp add: stdout_of_def)
next
  case (Cons r rs)
  have "fold rd_byte (record_bytes r) st = st\<lparr>rd_type := fst r, rd_out := rd_out st @ stdout_of [r]\<rparr>"
    using Cons.prems by (subst rd_record) auto
  moreover have "stdout_of (r # rs) = stdout_of [r] @ stdout_of rs" by (simp add: stdout_of_def)
  ultimately show ?case using Cons.IH [of "st\<lparr>rd_type := fst r, rd_out := rd_out st @ stdout_of [r]\<rparr>"] Cons.prems
    by (auto simp: image_iff)
qed

definition awaiting :: "reply \<Rightarrow> upstream \<Rightarrow> bool" where
  "awaiting c up \<longleftrightarrow> \<not> dead up \<and> rec_hdr up = [] \<and> rec_len up = 0 \<and> rec_pad up = 0 \<and> current up = Some c"

definition rd_start :: "upstream \<Rightarrow> rd" where
  "rd_start up = \<lparr>rd_hdr = [], rd_type = rec_type up, rd_len = 0, rd_pad = 0, rd_out = [], rd_end = False\<rparr>"

lemma awaiting_follows: "awaiting c up \<Longrightarrow> fresh c \<Longrightarrow> follows e c (served up) (rd_start up) up"
  by (simp add: follows_def in_flight_def awaiting_def rd_start_def fed_fresh)

lemma rd_reply:
  assumes "list_all record_ok (rs @ [er])" "FCGI_END_REQUEST \<notin> fst ` set rs" "fst er = FCGI_END_REQUEST"
  shows "rd_end (fold rd_byte (concat (map record_bytes (rs @ [er]))) (rd_start up))"
    "rd_out (fold rd_byte (concat (map record_bytes (rs @ [er]))) (rd_start up)) = stdout_of rs"
proof -
  obtain ty where "fold rd_byte (concat (map record_bytes rs)) (rd_start up) =
      (rd_start up)\<lparr>rd_type := ty, rd_out := stdout_of rs\<rparr>"
    using rd_records [of rs "rd_start up"] assms by (auto simp: rd_start_def)
  moreover have "stdout_of [er] = []"
    using assms(3) by (cases er) (simp add: stdout_of_def FCGI_END_REQUEST_def FCGI_STDOUT_def)
  ultimately show "rd_end (fold rd_byte (concat (map record_bytes (rs @ [er]))) (rd_start up))"
    "rd_out (fold rd_byte (concat (map record_bytes (rs @ [er]))) (rd_start up)) = stdout_of rs"
    using rd_record [of er "(rd_start up)\<lparr>rd_type := ty, rd_out := stdout_of rs\<rparr>"] assms
    by (simp_all add: rd_start_def)
qed

lemma finish_complete:
  assumes "fed e c0 s c" "\<And>c d. chunk_ok e c d" "scan_head 0 s = Some (hl, bo)"
  defines "b \<equiv> begin_reply (take hl s) c0"
  assumes "\<not> chunk_lost c0"
  obtains ds where "wire (fpm_http_finish e c) = wire b @ map Send_Chunk ds @ [Logged (status b) (bytes_out c), Send_End]"
    "if discard_upstream b then ds = [] else concat ds = drop bo s"
    "bytes_out c = bytes_out b + length (concat ds)"
proof (cases "discard_upstream b")
  case True
  then have "c = b" using assms(1, 3) by (simp add: fed_def b_def)
  then show ?thesis using that [of "[]"] True assms(5) by (simp add: fpm_http_finish_def b_def)
next
  case False
  have "(\<exists>ds lost. c = b\<lparr>wire := wire b @ map Send_Chunk ds, bytes_out := bytes_out b + length (concat ds),
      chunk_lost := lost\<rparr> \<and> prefix (concat ds) (drop bo s) \<and>
      (if lost then \<exists>c d. \<not> chunk_ok e c d else concat ds = drop bo s))"
    using assms(1) False unfolding fed_def assms(3) option.case prod.case Let_def b_def [symmetric] by (simp only: if_False)
  then obtain ds where "c = b\<lparr>wire := wire b @ map Send_Chunk ds, bytes_out := bytes_out b + length (concat ds),
      chunk_lost := False\<rparr>" "concat ds = drop bo s"
    using assms(2) by (metis (full_types))
  then show ?thesis using that [of ds] False unfolding fpm_http_finish_def by (simp add: b_def)
qed


definition sample_records :: "reply_record list" where
  "sample_records = [(FCGI_STDOUT, ''Status: 404 Not Found'' @ [CR, LF, CR, LF] @ ''no'', [NUL]),
     (FCGI_STDERR, ''warn'', []), (FCGI_STDOUT, ''pe'', [])]"

definition sample_last :: reply_record where "sample_last = (FCGI_END_REQUEST, replicate 8 NUL, [])"

definition sample_reply :: reply where
  "sample_reply = \<lparr>cgi_headers = None, headers_sent = False, discard_upstream = False, chunk_lost = False, status = 0,
     bytes_out = 0, queue_wait_ms = -1, request_id = '''', head_request = False, upgrading = False, out_headers = [], wire = []\<rparr>"

definition sample_upstream :: upstream where
  "sample_upstream = \<lparr>rec_hdr = [], rec_type = 0, rec_len = 0, rec_pad = 0, busy = True, dead = False,
     current = Some sample_reply, served = [], notices = []\<rparr>"

definition sample_upstream_env :: upstream_env where
  "sample_upstream_env = \<lparr>chunk_ok = (\<lambda>c d. True), pending_out = (\<lambda>c. 0), next_request = (\<lambda>up. No_Request)\<rparr>"

definition sample_pieces :: "bytes list" where
  "sample_pieces = (let s = concat (map record_bytes (sample_records @ [sample_last])) in [take 30 s, drop 30 s])"

lemma sample_ready: "fresh sample_reply" "awaiting sample_reply sample_upstream" "served sample_upstream = []"
    "wire sample_reply = []"
  by (simp_all add: fresh_def awaiting_def sample_reply_def sample_upstream_def)

lemma sample_pieces_concat: "concat sample_pieces = concat (map record_bytes (sample_records @ [sample_last]))"
  unfolding sample_pieces_def Let_def by (simp only: concat.simps append_Nil2 append_take_drop_id)


section \<open>Truncated replies\<close>

definition body_of :: "reply_event list \<Rightarrow> bytes" where
  "body_of w = concat (map (\<lambda>ev. case ev of Send_Chunk d \<Rightarrow> d | _ \<Rightarrow> []) w)"

lemma body_of_simps [simp]:
  "body_of [] = []" "body_of (v @ w) = body_of v @ body_of w" "body_of (map Send_Chunk ds) = concat ds"
  "body_of (Logged a b # w) = body_of w" "body_of (Send_End # w) = body_of w"
  by (simp_all add: body_of_def o_def)

lemma begin_reply_wire:
  assumes "\<not> discard_upstream (begin_reply b c)" "\<not> discard_upstream c" "wire c = []"
  shows "Send_End \<notin> set (wire (begin_reply b c))" "body_of (wire (begin_reply b c)) = []"
  using assms by (auto simp: begin_reply_def Let_def body_of_def)

lemma fed_wire:
  assumes "fed e c0 s c" "fresh c0" "wire c0 = []" "\<not> discard_upstream c"
  shows "Send_End \<notin> set (wire c)"
    "headers_sent c \<Longrightarrow> \<not> chunk_lost c \<Longrightarrow> \<exists>hl bo. scan_head 0 s = Some (hl, bo) \<and> body_of (wire c) = drop bo s"
proof -
  have "Send_End \<notin> set (wire c) \<and>
    (headers_sent c \<longrightarrow> \<not> chunk_lost c \<longrightarrow> (\<exists>hl bo. scan_head 0 s = Some (hl, bo) \<and> body_of (wire c) = drop bo s))"
  proof (cases "scan_head 0 s")
    case None
    then show ?thesis using assms by (simp add: fed_def fresh_def)
  next
    case (Some r)
    obtain hl bo where r: "r = (hl, bo)" by (cases r)
    let ?b = "begin_reply (take hl s) c0"
    have d: "\<not> discard_upstream ?b" using assms(1, 4) unfolding fed_def Some r by (auto simp: Let_def split: if_splits)
    then obtain ds lost where c: "c = ?b\<lparr>wire := wire ?b @ map Send_Chunk ds,
        bytes_out := bytes_out ?b + length (concat ds), chunk_lost := lost\<rparr>" "\<not> lost \<Longrightarrow> concat ds = drop bo s"
      using assms(1) unfolding fed_def Some r option.case prod.case Let_def by (simp only: if_False) (metis (full_types))
    show ?thesis using begin_reply_wire [OF d] assms(2, 3) c(2) by (auto simp: c(1) Some r fresh_def)
  qed
  then show "Send_End \<notin> set (wire c)"
    "headers_sent c \<Longrightarrow> \<not> chunk_lost c \<Longrightarrow> \<exists>hl bo. scan_head 0 s = Some (hl, bo) \<and> body_of (wire c) = drop bo s"
    by blast+
qed

lemma finish_fields [simp]: "discard_upstream (fpm_http_finish e c) = discard_upstream c"
    "discard_upstream (fpm_http_finish_truncated e c) = discard_upstream c"
  by (simp_all add: fpm_http_finish_def fpm_http_finish_truncated_def Let_def)

lemma finish_end:
  assumes "Send_End \<in> set (wire (fpm_http_finish e c))" "Send_End \<notin> set (wire c)"
  shows "headers_sent c" "\<not> chunk_lost c" "body_of (wire (fpm_http_finish e c)) = body_of (wire c)"
  using assms by (auto simp: fpm_http_finish_def fpm_http_finish_truncated_def Let_def split: if_splits)



end
