(* ===== verification/Http_Request.thy ===== *)
theory Http_Request
  imports Cstring
begin

text \<open>
  What the gateway derives from a request: the host name it routes on
  (\<open>fpm_http_host.c\<close>, the authority of \<open>fpm_http_fcgi.c\<close>), the CGI key of a header
  (\<open>fpm_http_header_cgi.c\<close>), the user of a Basic authorization (\<open>fpm_http_auth.c\<close>) and
  the request id (\<open>fpm_http_request_id.c\<close>). Strings are C strings, without NUL.
\<close>

section \<open>Host names\<close>

definition FPM_HTTP_HOST_NAME_MAX :: nat where "FPM_HTTP_HOST_NAME_MAX = 253"
definition FPM_HTTP_HOST_LABEL_MAX :: nat where "FPM_HTTP_HOST_LABEL_MAX = 63"

definition host_fold :: "char \<Rightarrow> char" where "host_fold c = ascii_lower c"

definition host_is_letter_or_digit :: "char \<Rightarrow> bool" where
  "host_is_letter_or_digit c \<longleftrightarrow>
     (CHR ''a'' \<le> c \<and> c \<le> CHR ''z'') \<or> (CHR ''A'' \<le> c \<and> c \<le> CHR ''Z'') \<or> isdigit c"

text \<open>The scan: the byte before, the length of the current label, and the rest.\<close>

fun host_scan :: "char \<Rightarrow> nat \<Rightarrow> string \<Rightarrow> bool" where
  "host_scan prev label [] \<longleftrightarrow> label \<noteq> 0 \<and> prev \<noteq> CHR ''-''"
| "host_scan prev label (c # s) \<longleftrightarrow>
     (if c = CHR ''.'' then (if label = 0 \<or> prev = CHR ''-'' then False else host_scan c 0 s)
      else if \<not> host_is_letter_or_digit c \<and> c \<noteq> CHR ''-'' then False
      else if c = CHR ''-'' \<and> label = 0 then False
      else if label + 1 > FPM_HTTP_HOST_LABEL_MAX then False
      else host_scan c (label + 1) s)"

definition fpm_http_host_valid_name :: "string \<Rightarrow> bool" where
  "fpm_http_host_valid_name name \<longleftrightarrow>
     (if name = [] \<or> length name > FPM_HTTP_HOST_NAME_MAX then False else host_scan NUL 0 name)"

definition fpm_http_host_dup_lower :: "string \<Rightarrow> string" where
  "fpm_http_host_dup_lower name = map host_fold name"

definition fpm_http_host_equal :: "string \<Rightarrow> string \<Rightarrow> nat \<Rightarrow> bool" where
  "fpm_http_host_equal a b len \<longleftrightarrow> list_all (\<lambda>i. host_fold (a ! i) = host_fold (b ! i)) [0..<len]"

definition host_port_ok :: "string \<Rightarrow> bool" where
  "host_port_ok p \<longleftrightarrow> p \<noteq> [] \<and> length p \<le> 5 \<and> list_all isdigit p \<and> dec_value 0 p \<le> 65535"

definition fpm_http_host_parse :: "string \<Rightarrow> nat \<Rightarrow> string option" where
  "fpm_http_host_parse value out_size =
     (let v = trim_blank value in
      if v = [] \<or> hd v = CHR ''['' then None
      else
        let host = takeWhile (\<lambda>c. c \<noteq> CHR '':'') v; rest = dropWhile (\<lambda>c. c \<noteq> CHR '':'') v in
        if rest \<noteq> [] \<and> \<not> host_port_ok (tl rest) then None
        else if \<not> fpm_http_host_valid_name host \<or> length host \<ge> out_size then None
        else Some (map host_fold host))"

text \<open>
  The authority of an absolute-form target. The two tests on \<open>*p | 0x20\<close> accept
  exactly the letters.
\<close>

definition is_alpha_or20 :: "char \<Rightarrow> bool" where
  "is_alpha_or20 c \<longleftrightarrow> (let l = (of_char c :: nat); f = (if (l div 32) mod 2 = 0 then l + 32 else l) in 97 \<le> f \<and> f \<le> 122)"

definition is_scheme_char :: "char \<Rightarrow> bool" where
  "is_scheme_char c \<longleftrightarrow> is_alpha_or20 c \<or> isdigit c \<or> c = CHR ''+'' \<or> c = CHR ''-'' \<or> c = CHR ''.''"

definition fpm_http_origin_start :: "string \<Rightarrow> string option" where
  "fpm_http_origin_start uri =
     (if uri \<noteq> [] \<and> is_alpha_or20 (hd uri) then
        let p = dropWhile is_scheme_char (tl uri) in
        if take 3 p = ''://'' then
          let auth = takeWhile (\<lambda>c. c \<noteq> CHR ''/'' \<and> c \<noteq> CHR ''?'' \<and> c \<noteq> CHR ''#'') (drop 3 p)
          in Some (rev (takeWhile (\<lambda>c. c \<noteq> CHR ''@'') (rev auth)))
        else None
      else None)"

definition FPM_HTTP_AUTHORITY_MAX :: nat where "FPM_HTTP_AUTHORITY_MAX = 262"

datatype authority = No_Authority | Authority string | Authority_Too_Long

definition fpm_http_absolute_authority :: "string option \<Rightarrow> nat \<Rightarrow> authority" where
  "fpm_http_absolute_authority uri buf_len =
     (case uri of
        None \<Rightarrow> No_Authority
      | Some u \<Rightarrow>
          (case fpm_http_origin_start u of
             None \<Rightarrow> No_Authority
           | Some a \<Rightarrow>
               if a = [] then No_Authority
               else if length a \<ge> buf_len then Authority_Too_Long
               else Authority a))"

definition fpm_http_host_of_request :: "string option \<Rightarrow> (string \<times> string) list \<Rightarrow> nat \<Rightarrow> string option" where
  "fpm_http_host_of_request uri headers out_size =
     (case fpm_http_absolute_authority uri FPM_HTTP_AUTHORITY_MAX of
        Authority_Too_Long \<Rightarrow> None
      | Authority a \<Rightarrow> fpm_http_host_parse a out_size
      | No_Authority \<Rightarrow>
          (case filter (\<lambda>kv. strcaseeq (fst kv) ''Host'') headers of
             [kv] \<Rightarrow> fpm_http_host_parse (snd kv) out_size
           | _ \<Rightarrow> None))"

section \<open>The CGI key of a header\<close>

definition FPM_HTTP_HEADER_NAME_MAX :: nat where "FPM_HTTP_HEADER_NAME_MAX = 1024"
definition FPM_HTTP_HEADER_CGI_KEY_LEN :: nat where "FPM_HTTP_HEADER_CGI_KEY_LEN = FPM_HTTP_HEADER_NAME_MAX + 6"

datatype cgi_key = Key_Refused | Key_None | Key string

definition cgi_char :: "char \<Rightarrow> char" where
  "cgi_char c = (if CHR ''a'' \<le> c \<and> c \<le> CHR ''z'' then char_of (of_char c - (32::nat))
                 else if c = CHR ''-'' then CHR ''_'' else c)"

definition fpm_http_header_cgi_key :: "string \<Rightarrow> bool \<Rightarrow> nat \<Rightarrow> cgi_key" where
  "fpm_http_header_cgi_key name content_type_skip out_size =
     (if length name > FPM_HTTP_HEADER_NAME_MAX \<or> out_size < length name + 6 then Key_Refused
      else if strcaseeq name ''Content-Length'' \<or> strcaseeq name ''Proxy'' then Key_None
      else if CHR ''_'' \<in> set name then Key_None
      else if strcaseeq name ''Content-Type'' then (if content_type_skip then Key_None else Key ''CONTENT_TYPE'')
      else Key (''HTTP_'' @ map cgi_char name))"

section \<open>Basic authorization\<close>

definition FPM_HTTP_AUTH_TYPE_LEN :: nat where "FPM_HTTP_AUTH_TYPE_LEN = 32"
definition FPM_HTTP_AUTH_USER_LEN :: nat where "FPM_HTTP_AUTH_USER_LEN = 256"

definition fpm_http_b64_val :: "char \<Rightarrow> nat option" where
  "fpm_http_b64_val c =
     (if CHR ''A'' \<le> c \<and> c \<le> CHR ''Z'' then Some (of_char c - 65)
      else if CHR ''a'' \<le> c \<and> c \<le> CHR ''z'' then Some (of_char c - 97 + 26)
      else if CHR ''0'' \<le> c \<and> c \<le> CHR ''9'' then Some (of_char c - 48 + 52)
      else if c = CHR ''+'' then Some 62
      else if c = CHR ''/'' then Some 63
      else None)"

definition put_char :: "nat \<Rightarrow> nat \<Rightarrow> bytes \<Rightarrow> bytes" where
  "put_char out_size v out = (if length out < out_size - 1 then out @ [char_of (v mod 256)] else out)"

definition b64_byte0 :: "nat list \<Rightarrow> nat" where "b64_byte0 v = v ! 0 * 4 + v ! 1 div 16"
definition b64_byte1 :: "nat list \<Rightarrow> nat" where "b64_byte1 v = v ! 1 * 16 + v ! 2 div 4"
definition b64_byte2 :: "nat list \<Rightarrow> nat" where "b64_byte2 v = v ! 2 * 64 + v ! 3"

fun b64_loop :: "nat \<Rightarrow> string \<Rightarrow> nat list \<Rightarrow> bytes \<Rightarrow> nat list \<times> bytes" where
  "b64_loop out_size [] vals out = (vals, out)"
| "b64_loop out_size (c # s) vals out =
     (if c = CHR ''='' then (vals, out)
      else (case fpm_http_b64_val c of
              None \<Rightarrow> b64_loop out_size s vals out
            | Some v \<Rightarrow>
                let vals = vals @ [v] in
                if length vals = 4
                then b64_loop out_size s []
                       (put_char out_size (b64_byte2 vals) (put_char out_size (b64_byte1 vals)
                         (put_char out_size (b64_byte0 vals) out)))
                else b64_loop out_size s vals out))"

definition fpm_http_b64_decode :: "string \<Rightarrow> nat \<Rightarrow> bytes" where
  "fpm_http_b64_decode s out_size =
     (let (vals, out) = b64_loop out_size s [] [];
          out = (if length vals \<ge> 2 then put_char out_size (b64_byte0 vals) out else out)
      in if length vals \<ge> 3 then put_char out_size (b64_byte1 vals) out else out)"

text \<open>The type and the user; an empty string is one that is not set.\<close>

definition fpm_http_auth_parse :: "string option \<Rightarrow> string \<times> string" where
  "fpm_http_auth_parse authorization_header =
     (case authorization_header of
        None \<Rightarrow> ([], [])
      | Some h \<Rightarrow>
          if h = [] then ([], [])
          else
            let auth_type = takeWhile (\<lambda>c. c \<noteq> CHR '' '') h; rest = dropWhile (\<lambda>c. c \<noteq> CHR '' '') h in
            if auth_type = [] \<or> length auth_type \<ge> FPM_HTTP_AUTH_TYPE_LEN then ([], [])
            else if rest \<noteq> [] \<and> strcaseeq auth_type ''Basic'' then
              let decoded = c_str (fpm_http_b64_decode (dropWhile is_blank (tl rest)) (FPM_HTTP_AUTH_USER_LEN + 256))
              in (auth_type,
                  if CHR '':'' \<in> set decoded
                  then take (FPM_HTTP_AUTH_USER_LEN - 1) (takeWhile (\<lambda>c. c \<noteq> CHR '':'') decoded) else [])
            else (auth_type, []))"

section \<open>Request ids\<close>

definition FPM_HTTP_REQUEST_ID_MAX :: nat where "FPM_HTTP_REQUEST_ID_MAX = 128"
definition FPM_HTTP_REQUEST_ID_RAW_BYTES :: nat where "FPM_HTTP_REQUEST_ID_RAW_BYTES = 16"

text \<open>The argument is what \<open>getentropy()\<close> gave.\<close>

definition fpm_http_request_id_generate :: "nat list option \<Rightarrow> string option" where
  "fpm_http_request_id_generate raw =
     (case raw of
        None \<Rightarrow> None
      | Some bs \<Rightarrow> Some (concat (map (\<lambda>b. [hex_char (b div 16), hex_char (b mod 16)]) bs)))"

definition fpm_http_request_id_valid :: "string option \<Rightarrow> bool" where
  "fpm_http_request_id_valid i =
     (case i of
        None \<Rightarrow> False
      | Some s \<Rightarrow>
          if s = [] \<or> length s > FPM_HTTP_REQUEST_ID_MAX then False
          else list_all (\<lambda>c. host_is_letter_or_digit c \<or> c = CHR ''.'' \<or> c = CHR ''_'' \<or> c = CHR ''-'') s)"

section \<open>Host names: the scan and the grammar\<close>

definition label_ok :: "string \<Rightarrow> bool" where
  "label_ok l \<longleftrightarrow> 1 \<le> length l \<and> length l \<le> FPM_HTTP_HOST_LABEL_MAX \<and>
     list_all (\<lambda>c. host_is_letter_or_digit c \<or> c = CHR ''-'') l \<and> hd l \<noteq> CHR ''-'' \<and> last l \<noteq> CHR ''-''"

definition host_grammar :: "string \<Rightarrow> bool" where
  "host_grammar name \<longleftrightarrow> length name \<le> FPM_HTTP_HOST_NAME_MAX \<and> list_all label_ok (split_on CHR ''.'' name)"

definition label_prefix :: "string \<Rightarrow> bool" where
  "label_prefix p \<longleftrightarrow> length p \<le> FPM_HTTP_HOST_LABEL_MAX \<and>
     list_all (\<lambda>c. host_is_letter_or_digit c \<or> c = CHR ''-'') p \<and> (p = [] \<or> hd p \<noteq> CHR ''-'')"

lemma host_scan_labels:
  "label_prefix p \<Longrightarrow> (p \<noteq> [] \<Longrightarrow> prev = last p) \<Longrightarrow>
   host_scan prev (length p) s \<longleftrightarrow>
     label_ok (p @ hd (split_on CHR ''.'' s)) \<and> list_all label_ok (tl (split_on CHR ''.'' s))"
proof (induction s arbitrary: p prev)
  case Nil
  then show ?case by (cases "p = []") (auto simp: label_prefix_def label_ok_def Suc_le_eq)
next
  case (Cons c s)
  obtain l ls where sp: "split_on CHR ''.'' s = l # ls" by (cases "split_on CHR ''.'' s") auto
  show ?case
  proof (cases "c = CHR ''.''")
    case True
    have "host_scan c 0 s \<longleftrightarrow> label_ok l \<and> list_all label_ok ls"
      using Cons.IH [of "[]" c] sp by (simp add: label_prefix_def)
    moreover have "label_ok p \<longleftrightarrow> p \<noteq> [] \<and> last p \<noteq> CHR ''-''"
      using Cons.prems(1) by (auto simp: label_prefix_def label_ok_def Suc_le_eq)
    ultimately show ?thesis using True sp Cons.prems(2) by auto
  next
    case False
    then have sc: "split_on CHR ''.'' (c # s) = (c # l) # ls" using sp by simp
    show ?thesis
    proof (cases "label_prefix (p @ [c])")
      case True
      then have "host_scan c (length (p @ [c])) s \<longleftrightarrow> label_ok ((p @ [c]) @ l) \<and> list_all label_ok ls"
        using Cons.IH [of "p @ [c]" c] sp by simp
      moreover have "host_scan prev (length p) (c # s) = host_scan c (length (p @ [c])) s"
        using True False by (cases p) (auto simp: label_prefix_def)
      ultimately show ?thesis by (simp add: sc del: host_scan.simps split_on.simps)
    next
      case no: False
      then have "\<not> host_scan prev (length p) (c # s)"
        using Cons.prems(1) False by (cases p) (auto simp: label_prefix_def)
      moreover have "\<not> label_ok (p @ c # l)"
        using no by (cases p) (auto simp: label_prefix_def label_ok_def split: if_splits)
      ultimately show ?thesis by (simp add: sc del: host_scan.simps split_on.simps)
    qed
  qed
qed

lemma host_valid_name_grammar: "fpm_http_host_valid_name name \<longleftrightarrow> host_grammar name"
proof (cases "name = []")
  case True
  then show ?thesis by (simp add: fpm_http_host_valid_name_def host_grammar_def label_ok_def)
next
  case False
  have "host_scan NUL 0 name \<longleftrightarrow> list_all label_ok (split_on CHR ''.'' name)"
    using host_scan_labels [of "[]" NUL name]
    by (cases "split_on CHR ''.'' name") (simp_all add: label_prefix_def)
  with False show ?thesis by (auto simp: fpm_http_host_valid_name_def host_grammar_def)
qed

lemma split_on_chars: "c \<in> set s \<Longrightarrow> c = d \<or> (\<exists>t\<in>set (split_on d s). c \<in> set t)"
proof (induction s)
  case (Cons a s)
  obtain l ls where "split_on d s = l # ls" by (cases "split_on d s") auto
  with Cons show ?case by (cases "a = d") auto
qed simp

lemma host_grammar_chars:
  assumes "host_grammar name" "c \<in> set name"
  shows "host_is_letter_or_digit c \<or> c = CHR ''-'' \<or> c = CHR ''.''"
  using split_on_chars [OF assms(2), of "CHR ''.''"] assms(1)
  by (auto simp: host_grammar_def label_ok_def list_all_iff)

lemma host_special:
  "\<not> (host_is_letter_or_digit CHR '':'' \<or> CHR '':'' = CHR ''-'' \<or> CHR '':'' = CHR ''.'')"
  "\<not> (host_is_letter_or_digit CHR ''['' \<or> CHR ''['' = CHR ''-'' \<or> CHR ''['' = CHR ''.'')"
  by (simp_all add: host_is_letter_or_digit_def isdigit_def less_eq_char_def)


section \<open>CGI keys\<close>

lemma cgi_code_inj:
  fixes A B :: nat
  assumes "A \<noteq> 95" "B \<noteq> 95"
    and "(if 97 \<le> A \<and> A \<le> 122 then A - 32 else if A = 45 then 95 else A) =
         (if 97 \<le> B \<and> B \<le> 122 then B - 32 else if B = 45 then 95 else B)"
  shows "(if 65 \<le> A \<and> A \<le> 90 then A + 32 else A) = (if 65 \<le> B \<and> B \<le> 90 then B + 32 else B)"
  using assms by (auto split: if_splits)

lemma cgi_char_inj:
  assumes "cgi_char a = cgi_char b" "a \<noteq> CHR ''_''" "b \<noteq> CHR ''_''"
  shows "ascii_lower a = ascii_lower b"
proof -
  have eq: "(of_char c :: nat) = of_char d \<longleftrightarrow> c = d" for c d by simp
  have up: "of_char (cgi_char c) = (if 97 \<le> (of_char c :: nat) \<and> (of_char c :: nat) \<le> 122 then of_char c - (32 :: nat)
      else if (of_char c :: nat) = 45 then 95 else of_char c)" for c
    using eq [of c "CHR ''-''"] by (auto simp: cgi_char_def less_eq_char_def)
  have lo: "of_char (ascii_lower c) = (if 65 \<le> (of_char c :: nat) \<and> (of_char c :: nat) \<le> 90
      then of_char c + (32 :: nat) else of_char c)" for c
    by (auto simp: ascii_lower_def less_eq_char_def)
  have ne: "(of_char c :: nat) \<noteq> 95" if "c \<noteq> CHR ''_''" for c
    using that eq [of c "CHR ''_''"] by simp
  have "(of_char (cgi_char a) :: nat) = of_char (cgi_char b)" by (simp only: assms(1))
  then have "(of_char (ascii_lower a) :: nat) = of_char (ascii_lower b)"
    unfolding up lo by (rule cgi_code_inj [OF ne [OF assms(2)] ne [OF assms(3)]])
  then show ?thesis by (simp only: eq)
qed

lemma cgi_map_inj:
  "map cgi_char a = map cgi_char b \<Longrightarrow> CHR ''_'' \<notin> set a \<Longrightarrow> CHR ''_'' \<notin> set b \<Longrightarrow> strcaseeq a b"
  unfolding strcaseeq_def
proof (induction a arbitrary: b)
  case (Cons x a)
  then obtain y b' where b: "b = y # b'" by (cases b) auto
  with Cons show ?case using cgi_char_inj [of x y] by auto
qed simp

text \<open>
  C25. No two different headers of a request reach the application under one CGI key: two
  names that are given the same key are the same name up to ASCII case. In
  particular a client cannot overwrite a header a proxy has set by spelling it
  differently, and no header at all is given the key HTTP_PROXY.
\<close>

theorem cgi_key_injective:
  assumes "fpm_http_header_cgi_key a skip n = Key k"
  shows "(fpm_http_header_cgi_key b skip' n' = Key k \<longrightarrow> strcaseeq a b) \<and> k \<noteq> ''HTTP_PROXY'' \<and> k \<noteq> ''HTTP_CONTENT_LENGTH''"
proof -
  have key: "k = ''HTTP_'' @ map cgi_char x \<or> (strcaseeq x ''Content-Type'' \<and> k = ''CONTENT_TYPE'')"
    "CHR ''_'' \<notin> set x" "\<not> strcaseeq x ''Proxy''" "\<not> strcaseeq x ''Content-Length''"
    if "fpm_http_header_cgi_key x s m = Key k" for x s m
    using that by (auto simp: fpm_http_header_cgi_key_def split: if_splits)
  have upper: "map cgi_char ''Proxy'' = ''PROXY''" "map cgi_char ''Content-Length'' = ''CONTENT_LENGTH''"
    by code_simp+
  have "strcaseeq a b" if k': "fpm_http_header_cgi_key b skip' n' = Key k"
  proof (cases "k = ''CONTENT_TYPE''")
    case True
    then have "strcaseeq a ''Content-Type''" "strcaseeq ''Content-Type'' b"
      using key(1) [OF assms] key(1) [OF k'] by (auto intro: strcaseeq_sym)
    then show ?thesis by (rule strcaseeq_trans)
  next
    case False
    then have "map cgi_char a = map cgi_char b" using key(1) [OF assms] key(1) [OF k'] by auto
    then show ?thesis by (rule cgi_map_inj [OF _ key(2) [OF assms] key(2) [OF k']])
  qed
  moreover have "k \<noteq> ''HTTP_PROXY''" "k \<noteq> ''HTTP_CONTENT_LENGTH''"
    using key [OF assms] cgi_map_inj [of a "''Proxy''"] cgi_map_inj [of a "''Content-Length''"] upper by auto
  ultimately show ?thesis by blast
qed

theorem cgi_key_injective_witness:
  "fpm_http_header_cgi_key ''X-Real-IP'' False FPM_HTTP_HEADER_CGI_KEY_LEN = Key ''HTTP_X_REAL_IP'' \<and>
   fpm_http_header_cgi_key ''X_Real_IP'' False FPM_HTTP_HEADER_CGI_KEY_LEN \<noteq> Key ''HTTP_X_REAL_IP''"
proof -
  have k: "fpm_http_header_cgi_key ''X-Real-IP'' False FPM_HTTP_HEADER_CGI_KEY_LEN = Key ''HTTP_X_REAL_IP''" by code_simp
  moreover have "\<not> strcaseeq ''X-Real-IP'' ''X_Real_IP''" by code_simp
  ultimately show ?thesis using cgi_key_injective [OF k] by blast
qed

section \<open>Basic authorization: the encoder\<close>

definition b64_char :: "nat \<Rightarrow> char" where
  "b64_char v = (if v < 26 then char_of (65 + v) else if v < 52 then char_of (71 + v)
                 else if v < 62 then char_of (v - 4) else if v = 62 then CHR ''+'' else CHR ''/'')"

fun b64_encode :: "nat list \<Rightarrow> string" where
  "b64_encode (a # b # c # r) =
     [b64_char (a div 4), b64_char (a mod 4 * 16 + b div 16), b64_char (b mod 16 * 4 + c div 64), b64_char (c mod 64)] @ b64_encode r"
| "b64_encode [a, b] = [b64_char (a div 4), b64_char (a mod 4 * 16 + b div 16), b64_char (b mod 16 * 4), CHR ''='']"
| "b64_encode [a] = [b64_char (a div 4), b64_char (a mod 4 * 16), CHR ''='', CHR ''='']"
| "b64_encode [] = []"

lemma b64_char_val:
  assumes "v < 64"
  shows "fpm_http_b64_val (b64_char v) = Some v \<and> b64_char v \<noteq> CHR ''='' \<and> \<not> is_blank (b64_char v)"
proof -
  have eq: "c = d \<longleftrightarrow> (of_char c :: nat) = of_char d" for c d by simp
  consider "v < 26" | "26 \<le> v" "v < 52" | "52 \<le> v" "v < 62" | "v = 62" | "v = 63" using assms by linarith
  then show ?thesis
    by cases (simp_all add: b64_char_def fpm_http_b64_val_def is_blank_def less_eq_char_def eq del: of_char_eq_iff, arith?)
qed

lemma put_char_take:
  "put_char n v (take (n - 1) xs) = take (n - 1) (xs @ [char_of (v mod 256)])"
  by (cases "length xs < n - 1") (simp_all add: put_char_def)

lemma b64_bytes:
  fixes a b c :: nat
  assumes "a < 256" "b < 256" "c < 256"
  shows "b64_byte0 (a div 4 # (a mod 4 * 16 + b div 16) # vs) mod 256 = a"
    "b64_byte1 (z # (a mod 4 * 16 + b div 16) # (b mod 16 * 4 + c div 64) # vs) mod 256 = b"
    "b64_byte2 [z, w, b mod 16 * 4 + c div 64, c mod 64] mod 256 = c"
proof -
  have "b div 16 < 16" "c div 64 < 4" using assms by (simp_all add: less_mult_imp_div_less)
  moreover have "a = a div 4 * 4 + a mod 4" "b = b div 16 * 16 + b mod 16" "c = c div 64 * 64 + c mod 64" by simp_all
  moreover have "((a mod 4 * 16 + b div 16) * 16 + b mod 16) = a mod 4 * 256 + b" by (simp add: algebra_simps)
  moreover have "((b mod 16 * 4 + c div 64) * 64 + c mod 64) = b mod 16 * 256 + c" by (simp add: algebra_simps)
  ultimately show "b64_byte0 (a div 4 # (a mod 4 * 16 + b div 16) # vs) mod 256 = a"
    "b64_byte1 (z # (a mod 4 * 16 + b div 16) # (b mod 16 * 4 + c div 64) # vs) mod 256 = b"
    "b64_byte2 [z, w, b mod 16 * 4 + c div 64, c mod 64] mod 256 = c"
    using assms by (simp_all add: b64_byte0_def b64_byte1_def b64_byte2_def)
qed

definition b64_finish :: "nat \<Rightarrow> nat list \<times> bytes \<Rightarrow> bytes" where
  "b64_finish out_size r =
     (let (vals, out) = r;
          out = (if length vals \<ge> 2 then put_char out_size (b64_byte0 vals) out else out)
      in if length vals \<ge> 3 then put_char out_size (b64_byte1 vals) out else out)"

lemma b64_finish_simps:
  "b64_finish n ([], out) = out"
  "b64_finish n ([p, q], out) = put_char n (b64_byte0 [p, q]) out"
  "b64_finish n ([p, q, r], out) = put_char n (b64_byte1 [p, q, r]) (put_char n (b64_byte0 [p, q, r]) out)"
  by (simp_all add: b64_finish_def)

lemma b64_lt:
  fixes a b c :: nat
  assumes "a < 256" "b < 256" "c < 256"
  shows "a div 4 < 64" "a mod 4 * 16 + b div 16 < 64" "b mod 16 * 4 + c div 64 < 64" "c mod 64 < 64"
    "a mod 4 * 16 < 64" "b mod 16 * 4 < 64"
proof -
  have "a mod 4 < 4" "b mod 16 < 16" "b div 16 < 16" "c div 64 < 4" using assms by (simp_all add: less_mult_imp_div_less)
  then show "a div 4 < 64" "a mod 4 * 16 + b div 16 < 64" "b mod 16 * 4 + c div 64 < 64" "c mod 64 < 64"
    "a mod 4 * 16 < 64" "b mod 16 * 4 < 64"
    using assms by (simp_all add: less_mult_imp_div_less)
qed

lemma b64_quad:
  assumes "p < 64" "q < 64" "r < 64" "t < 64"
  shows "b64_loop n (b64_char p # b64_char q # b64_char r # b64_char t # s) [] out =
    b64_loop n s [] (put_char n (b64_byte2 [p, q, r, t]) (put_char n (b64_byte1 [p, q, r, t]) (put_char n (b64_byte0 [p, q, r, t]) out)))"
  using assms by (simp add: b64_char_val Let_def)

lemma b64_tail:
  "p < 64 \<Longrightarrow> q < 64 \<Longrightarrow> b64_loop n [b64_char p, b64_char q, CHR ''='', CHR ''=''] [] out = ([p, q], out)"
  "p < 64 \<Longrightarrow> q < 64 \<Longrightarrow> r < 64 \<Longrightarrow> b64_loop n [b64_char p, b64_char q, b64_char r, CHR ''=''] [] out = ([p, q, r], out)"
  by (simp_all add: b64_char_val)

lemma b64_loop_encode:
  "list_all (\<lambda>x. x < 256) bs \<Longrightarrow>
   b64_finish n (b64_loop n (b64_encode bs) [] (take (n - 1) pre)) = take (n - 1) (pre @ map char_of bs)"
proof (induction bs arbitrary: pre rule: b64_encode.induct)
  case (1 a b c r)
  then have lt: "a < 256" "b < 256" "c < 256" by simp_all
  have "b64_loop n (b64_encode (a # b # c # r)) [] (take (n - 1) pre) =
      b64_loop n (b64_encode r) [] (take (n - 1) (pre @ [char_of a, char_of b, char_of c]))"
    using lt b64_bytes [OF lt]
    by (simp only: b64_encode.simps append_Cons append_Nil b64_quad [OF b64_lt(1-4) [OF lt]] put_char_take append_assoc)
  moreover have "b64_finish n (b64_loop n (b64_encode r) [] (take (n - 1) (pre @ [char_of a, char_of b, char_of c]))) =
      take (n - 1) ((pre @ [char_of a, char_of b, char_of c]) @ map char_of r)"
    using 1(2) by (intro 1(1)) simp
  ultimately show ?case by (simp only: append_assoc append_Cons append_Nil list.map)
next
  case (2 a b)
  then have lt: "a < 256" "b < 256" "(0 :: nat) < 256" by simp_all
  have "b64_finish n ([a div 4, a mod 4 * 16 + b div 16, b mod 16 * 4], take (n - 1) pre) = take (n - 1) (pre @ [char_of a, char_of b])"
    using b64_bytes(1) [OF lt] b64_bytes(2) [OF lt, unfolded div_0 add_0_right]
    by (simp only: b64_finish_simps put_char_take append_assoc append_Cons append_Nil)
  then show ?case by (simp only: b64_encode.simps b64_tail(2) [OF b64_lt(1,2,6) [OF lt]] list.map)
next
  case (3 a)
  then have lt: "a < 256" "(0 :: nat) < 256" by simp_all
  have "b64_finish n ([a div 4, a mod 4 * 16], take (n - 1) pre) = take (n - 1) (pre @ [char_of a])"
    using b64_bytes(1) [OF lt(1,2,2), unfolded div_0 add_0_right]
    by (simp only: b64_finish_simps put_char_take)
  then show ?case by (simp only: b64_encode.simps b64_tail(1) [OF b64_lt(1,5) [OF lt(1,2,2)]] list.map)
qed (simp add: b64_finish_simps)

lemma b64_decode_encode:
  assumes "list_all (\<lambda>x. x < 256) bs"
  shows "fpm_http_b64_decode (b64_encode bs) n = take (n - 1) (map char_of bs)"
  using b64_loop_encode [OF assms, of n "[]"]
  by (simp add: fpm_http_b64_decode_def b64_finish_def Let_def case_prod_beta)

lemma b64_encode_hd:
  assumes "bs \<noteq> []" "list_all (\<lambda>x. x < 256) bs"
  shows "dropWhile is_blank (b64_encode bs) = b64_encode bs"
proof -
  obtain a r where bs: "bs = a # r" using assms(1) by (cases bs) auto
  have "a div 4 < 64" using assms(2) bs by (simp add: less_mult_imp_div_less)
  then have "\<not> is_blank (b64_char (a div 4))" using b64_char_val by blast
  moreover have "\<exists>t. b64_encode bs = b64_char (a div 4) # t" unfolding bs
    by (cases r; cases "tl r") auto
  ultimately show ?thesis by auto
qed

text \<open>
  C26. A Basic authorization header reads back to the user it was made for: for every user
  name without a colon or NUL of at most 255 bytes, and every password, the
  gateway reports the scheme and exactly that user name.
\<close>

theorem basic_auth_roundtrip:
  assumes "CHR '':'' \<notin> set user" "NUL \<notin> set user" "length user < FPM_HTTP_AUTH_USER_LEN"
  shows "fpm_http_auth_parse (Some (''Basic '' @ b64_encode (map of_char (user @ CHR '':'' # password)))) = (''Basic'', user)"
proof -
  let ?cred = "user @ CHR '':'' # password"
  let ?n = "FPM_HTTP_AUTH_USER_LEN + 256"
  have lt: "list_all (\<lambda>x. x < 256) (map of_char ?cred :: nat list)" by (auto simp: list_all_iff)
  have rd: "map char_of (map of_char ?cred :: nat list) = ?cred" by (simp only: map_map comp_def char_of_char map_ident)
  have "fpm_http_b64_decode (b64_encode (map of_char ?cred)) ?n = take (?n - 1) ?cred"
    using b64_decode_encode [OF lt, of ?n] rd by simp
  moreover have "take (?n - 1) ?cred = user @ CHR '':'' # take (?n - 1 - length user - 1) password"
    using assms(3) by (simp add: FPM_HTTP_AUTH_USER_LEN_def take_Cons')
  ultimately obtain r where d: "fpm_http_b64_decode (b64_encode (map of_char ?cred)) ?n = user @ CHR '':'' # r" by metis
  have c: "c_str (user @ CHR '':'' # r) = user @ CHR '':'' # c_str r"
    using assms(2) by (induction user) (auto simp: c_str_def NUL_def)
  have b: "dropWhile is_blank (b64_encode (map of_char ?cred)) = b64_encode (map of_char ?cred)"
    by (rule b64_encode_hd [OF _ lt]) simp
  have "takeWhile (\<lambda>c. c \<noteq> CHR '' '') (''Basic '' @ x) = ''Basic''" "dropWhile (\<lambda>c. c \<noteq> CHR '' '') (''Basic '' @ x) = CHR '' '' # x" for x
    by simp_all
  then show ?thesis using assms(1,3) d b c
    by (simp add: fpm_http_auth_parse_def FPM_HTTP_AUTH_TYPE_LEN_def del: map_append list.map)
qed

theorem basic_auth_roundtrip_witness:
  "fpm_http_auth_parse (Some (''Basic '' @ b64_encode (map of_char (''alice'' @ CHR '':'' # ''s3cret'')))) = (''Basic'', ''alice'')"
  by (rule basic_auth_roundtrip) (simp_all add: NUL_def FPM_HTTP_AUTH_USER_LEN_def)

section \<open>Request ids\<close>

lemma hex_char_letter: "n < 16 \<Longrightarrow> host_is_letter_or_digit (hex_char n)"
proof -
  have "list_all (\<lambda>n. host_is_letter_or_digit (hex_char n)) [0..<16]" by code_simp
  then show "n < 16 \<Longrightarrow> ?thesis" by (simp add: list_all_iff)
qed

text \<open>
  C27. Every id the gateway generates passes its own check for inbound ids, so an id that
  travels through a chain of gateways is kept; it has 32 characters, and different
  random bytes give different ids.
\<close>

theorem generated_request_id_valid:
  assumes "length bs = FPM_HTTP_REQUEST_ID_RAW_BYTES" "list_all (\<lambda>b. b < 256) bs"
    and "length cs = FPM_HTTP_REQUEST_ID_RAW_BYTES" "list_all (\<lambda>b. b < 256) cs"
  shows "fpm_http_request_id_valid (fpm_http_request_id_generate (Some bs)) \<and>
    (\<exists>s. fpm_http_request_id_generate (Some bs) = Some s \<and> length s = 32) \<and>
    (fpm_http_request_id_generate (Some bs) = fpm_http_request_id_generate (Some cs) \<longrightarrow> bs = cs)"
proof -
  let ?e = "\<lambda>b. [hex_char (b div 16), hex_char (b mod 16)]"
  have len: "length (concat (map ?e xs)) = 2 * length xs" for xs :: "nat list" by (induction xs) simp_all
  have "host_is_letter_or_digit (hex_char (b div 16))" "host_is_letter_or_digit (hex_char (b mod 16))" if "b < 256" for b :: nat
    using that hex_char_letter by (simp_all add: less_mult_imp_div_less)
  then have ok: "list_all host_is_letter_or_digit (concat (map ?e bs))" using assms(2) by (auto simp: list_all_iff)
  have inj: "a = b" if "a < 16" "b < 16" "hex_char a = hex_char b" for a b
  proof -
    have "list_all (\<lambda>a. list_all (\<lambda>b. hex_char a = hex_char b \<longrightarrow> a = b) [0..<16]) [0..<16]" by code_simp
    then show ?thesis using that by (simp add: list_all_iff)
  qed
  have same: "list_all (\<lambda>b. b < 256) xs \<Longrightarrow> list_all (\<lambda>b. b < 256) ys \<Longrightarrow> length xs = length ys \<Longrightarrow>
      concat (map ?e xs) = concat (map ?e ys) \<Longrightarrow> xs = ys" for xs ys :: "nat list"
  proof (induction xs arbitrary: ys)
    case (Cons x xs)
    then obtain y ys' where ys: "ys = y # ys'" by (cases ys) auto
    with Cons.prems have lt: "x < 256" "y < 256" by simp_all
    have "x div 16 = y div 16"
      by (rule inj) (use Cons.prems(4) ys lt in \<open>simp_all add: less_mult_imp_div_less\<close>)
    moreover have "x mod 16 = y mod 16"
      by (rule inj) (use Cons.prems(4) ys in simp_all)
    ultimately have "x = y" by (metis div_mult_mod_eq)
    then show ?case using Cons ys by simp
  qed simp
  have "fpm_http_request_id_generate (Some xs) = Some (concat (map ?e xs))" if "length xs = FPM_HTTP_REQUEST_ID_RAW_BYTES" for xs
    using that by (simp add: fpm_http_request_id_generate_def FPM_HTTP_REQUEST_ID_RAW_BYTES_def)
  note gen = this [OF assms(1)] this [OF assms(3)]
  have l32: "length (concat (map ?e bs)) = 32" using len [of bs] assms(1) by (simp only: FPM_HTTP_REQUEST_ID_RAW_BYTES_def)
  have "fpm_http_request_id_valid (Some (concat (map ?e bs)))"
    using ok l32 unfolding fpm_http_request_id_valid_def FPM_HTTP_REQUEST_ID_MAX_def
    by (cases "bs = []") (simp_all add: list_all_iff del: length_concat)
  moreover have "bs = cs" if "concat (map ?e bs) = concat (map ?e cs)"
    by (rule same [OF assms(2,4) _ that]) (simp add: assms(1,3))
  ultimately show ?thesis unfolding gen using l32 by blast
qed

theorem generated_request_id_valid_witness:
  "fpm_http_request_id_valid (fpm_http_request_id_generate (Some (replicate 16 171))) \<and>
    (\<exists>s. fpm_http_request_id_generate (Some (replicate 16 171)) = Some s \<and> length s = 32) \<and>
    fpm_http_request_id_generate (Some (replicate 16 171)) \<noteq> fpm_http_request_id_generate (Some (replicate 16 7))"
proof -
  have "replicate 16 171 \<noteq> replicate 16 (7 :: nat)" by simp
  moreover have "length (replicate 16 (171 :: nat)) = FPM_HTTP_REQUEST_ID_RAW_BYTES"
    "length (replicate 16 (7 :: nat)) = FPM_HTTP_REQUEST_ID_RAW_BYTES"
    "list_all (\<lambda>b. b < 256) (replicate 16 (171 :: nat))" "list_all (\<lambda>b. b < 256) (replicate 16 (7 :: nat))"
    by (simp_all add: FPM_HTTP_REQUEST_ID_RAW_BYTES_def list_all_iff)
  ultimately show ?thesis using generated_request_id_valid by blast
qed

section \<open>The host name of a request\<close>

lemma of_char_ascii_lower:
  "(of_char (ascii_lower c) :: nat) = (let k = of_char c in if 65 \<le> k \<and> k \<le> 90 then k + 32 else k)"
  by (simp add: ascii_lower_def less_eq_char_def Let_def)

lemma char_by_code: "c = d \<longleftrightarrow> (of_char c :: nat) = of_char d"
  by simp

lemma host_letter_code:
  "host_is_letter_or_digit c \<longleftrightarrow> (let k = of_char c :: nat in 97 \<le> k \<and> k \<le> 122 \<or> 65 \<le> k \<and> k \<le> 90 \<or> 48 \<le> k \<and> k \<le> 57)"
  by (simp add: host_is_letter_or_digit_def isdigit_def less_eq_char_def Let_def)

lemma lower_host_char:
  "ascii_lower c = CHR ''.'' \<longleftrightarrow> c = CHR ''.''" "ascii_lower c = CHR ''-'' \<longleftrightarrow> c = CHR ''-''"
  "host_is_letter_or_digit (ascii_lower c) = host_is_letter_or_digit c"
  "host_is_letter_or_digit c \<Longrightarrow> (CHR ''a'' \<le> ascii_lower c \<and> ascii_lower c \<le> CHR ''z'') \<or> isdigit (ascii_lower c)"
  "host_is_letter_or_digit c \<or> c = CHR ''-'' \<or> c = CHR ''.'' \<Longrightarrow> \<not> is_blank c \<and> c \<noteq> CHR '':'' \<and> c \<noteq> CHR ''[''"
  by (auto simp: host_letter_code of_char_ascii_lower Let_def is_blank_def isdigit_def less_eq_char_def
      char_by_code [of "ascii_lower c"] char_by_code [of c] simp del: of_char_eq_iff split: if_splits)

lemma host_scan_lower: "host_scan prev k s \<Longrightarrow> prev' = CHR ''-'' \<longleftrightarrow> prev = CHR ''-'' \<Longrightarrow> host_scan prev' k (map ascii_lower s)"
proof (induction prev k s arbitrary: prev' rule: host_scan.induct)
  case (2 prev k c s)
  have "host_scan (ascii_lower c) j (map ascii_lower s)" if "host_scan c j s" "c = CHR ''.'' \<and> j = 0 \<or> c \<noteq> CHR ''.'' \<and> j = k + 1" for j
    using 2 that lower_host_char [of c] by (auto split: if_splits)
  then show ?case using "2.prems" lower_host_char [of c] by (auto split: if_splits)
qed simp

lemma valid_name_lower: "fpm_http_host_valid_name s \<Longrightarrow> fpm_http_host_valid_name (map ascii_lower s)"
  using host_scan_lower [of NUL 0 s NUL] by (auto simp: fpm_http_host_valid_name_def split: if_splits)

lemma valid_name_chars: "fpm_http_host_valid_name s \<Longrightarrow> c \<in> set s \<Longrightarrow> host_is_letter_or_digit c \<or> c = CHR ''-'' \<or> c = CHR ''.''"
  unfolding host_valid_name_grammar by (rule host_grammar_chars)

lemma parse_valid_name:
  assumes "fpm_http_host_valid_name s" "length s < n"
  shows "fpm_http_host_parse s n = Some (map ascii_lower s)"
proof -
  have c: "\<not> is_blank c \<and> c \<noteq> CHR '':'' \<and> c \<noteq> CHR ''[''" if "c \<in> set s" for c
    using lower_host_char(5) [of c] valid_name_chars [OF assms(1) that] by blast
  have n: "s \<noteq> []" using assms(1) by (auto simp: fpm_http_host_valid_name_def)
  have "dropWhile is_blank s = s" using c n by (cases s) auto
  moreover have "dropWhile is_blank (rev s) = rev s" using c n by (cases s rule: rev_cases) auto
  ultimately have t: "trim_blank s = s" by (simp add: trim_blank_def trim_left_def trim_right_def)
  have w: "takeWhile (\<lambda>c. c \<noteq> CHR '':'') s = s" "dropWhile (\<lambda>c. c \<noteq> CHR '':'') s = []"
    using c by (auto simp: takeWhile_eq_all_conv dropWhile_eq_Nil_conv)
  have "hd s \<noteq> CHR ''[''" using c n by (cases s) auto
  moreover have "host_fold = ascii_lower" by (simp add: fun_eq_iff host_fold_def)
  ultimately show ?thesis using assms n unfolding fpm_http_host_parse_def Let_def t w by simp
qed

lemma host_parse_valid: "fpm_http_host_parse v n = Some h \<Longrightarrow> \<exists>s. fpm_http_host_valid_name s \<and> length s < n \<and> h = map ascii_lower s"
  by (auto simp: fpm_http_host_parse_def Let_def host_fold_def split: if_splits)

text \<open>
  C38. The type of a routing key: whatever the target and the headers of a request are,
  the host name the gateway derives from them is a valid name that fits the buffer, made
  of lower-case letters, digits, hyphens and dots only, and is its own canonical form:
  parsing it again gives the same name.
\<close>

theorem request_host_type:
  assumes "fpm_http_host_of_request uri headers n = Some h"
  shows "fpm_http_host_valid_name h \<and> length h < n \<and>
    list_all (\<lambda>c. CHR ''a'' \<le> c \<and> c \<le> CHR ''z'' \<or> isdigit c \<or> c = CHR ''-'' \<or> c = CHR ''.'') h \<and>
    fpm_http_host_parse h n = Some h"
proof -
  obtain v where "fpm_http_host_parse v n = Some h"
    using assms by (auto simp: fpm_http_host_of_request_def split: authority.splits list.splits)
  then obtain s where s: "fpm_http_host_valid_name s" "length s < n" "h = map ascii_lower s" using host_parse_valid by blast
  have h: "fpm_http_host_valid_name h" "length h < n" using valid_name_lower s by simp_all
  have "map ascii_lower h = h" by (simp add: s(3) o_def)
  then have "fpm_http_host_parse h n = Some h" using parse_valid_name [OF h] by simp
  moreover have "CHR ''a'' \<le> ascii_lower c \<and> ascii_lower c \<le> CHR ''z'' \<or> isdigit (ascii_lower c) \<or>
      ascii_lower c = CHR ''-'' \<or> ascii_lower c = CHR ''.''" if "c \<in> set s" for c
    using valid_name_chars [OF s(1) that] lower_host_char [of c] by auto
  ultimately show ?thesis using h by (auto simp: s(3) list_all_iff)
qed

theorem request_host_type_witness:
  "fpm_http_host_valid_name ''www.example.org'' \<and> length ''www.example.org'' < (254::nat) \<and>
   list_all (\<lambda>c. CHR ''a'' \<le> c \<and> c \<le> CHR ''z'' \<or> isdigit c \<or> c = CHR ''-'' \<or> c = CHR ''.'') ''www.example.org'' \<and>
   fpm_http_host_parse ''www.example.org'' 254 = Some ''www.example.org''"
proof -
  have "fpm_http_host_of_request (Some ''/x'') [(''host'', '' WWW.Example.ORG:8080'')] 254 = Some ''www.example.org''" by code_simp
  from request_host_type [OF this] show ?thesis .
qed

end
