(* ===== verification/Http_Client.thy ===== *)
theory Http_Client
  imports Http_Upstream Http_Request
begin

text \<open>
  The gateway's HTTP/1.1 transport (\<open>fpm_http_client.c\<close>), response side: the parser that
  receives a target's answer in pieces of any size: status line, header block, and a body
  framed by its length, by chunks or by the end of the connection. The reply goes out
  through theory \<open>Http_Reply\<close>. The start of a WebSocket relay succeeds. The request side
  is theory \<open>Http_Client_Request\<close>.
\<close>

abbreviation crlf :: bytes where "crlf \<equiv> [CR, LF]"

definition fpm_http_http_header_dropped :: "string \<Rightarrow> bool" where
  "fpm_http_http_header_dropped key \<longleftrightarrow>
     strcaseeq key ''Connection'' \<or> strcaseeq key ''Keep-Alive'' \<or> strcaseeq key ''Transfer-Encoding'' \<or>
     strcaseeq key ''Upgrade'' \<or> strcaseeq key ''Trailer'' \<or> strncaseeq key ''Proxy-'' 6"

section \<open>The head of an answer\<close>

definition FPM_HTTP_HTTP_MAX_HEAD :: nat where "FPM_HTTP_HTTP_MAX_HEAD = 256 * 1024"

text \<open>Whether a token is among the values separated by commas and blanks.\<close>

definition fpm_http_http_token_in :: "bytes \<Rightarrow> string \<Rightarrow> bool" where
  "fpm_http_http_token_in value token \<longleftrightarrow>
     (\<exists>t \<in> set (split_on (CHR '','') (map (\<lambda>x. if is_blank x then CHR '','' else x) value)). strcaseeq t token)"

definition fpm_http_http_value_ulong :: "bytes \<Rightarrow> nat" where
  "fpm_http_http_value_ulong v = foldl (\<lambda>n d. (n * 10 + digit_val d) mod 2 ^ 64) 0 (takeWhile isdigit v)"

text \<open>The conversion to \<open>int\<close> keeps the low 32 bits.\<close>

definition int_cast :: "nat \<Rightarrow> int" where
  "int_cast n = (let w = int (n mod 2 ^ 32) in if w < 2 ^ 31 then w else w - 2 ^ 32)"

fun content_length_loop :: "nat \<Rightarrow> bytes \<Rightarrow> nat option" where
  "content_length_loop n [] = Some n"
| "content_length_loop n (d # v) =
     (if \<not> isdigit d then None
      else if n > (SIZE_MAX - digit_val d) div 10 then None
      else content_length_loop (n * 10 + digit_val d) v)"

definition fpm_http_http_content_length :: "bytes \<Rightarrow> nat option" where
  "fpm_http_http_content_length v = (if v = [] then None else content_length_loop 0 v)"

definition fpm_http_http_split_header :: "bytes \<Rightarrow> (bytes \<times> bytes) option" where
  "fpm_http_http_split_header l =
     map_option (\<lambda>k. (take k l, trim_blank (drop (k + 1) l))) (find_char (CHR '':'') l)"

record head_info =
  i_code :: int
  i_length :: "nat option"
  i_chunked :: bool
  i_close :: bool

definition status_code :: "bytes \<Rightarrow> int" where
  "status_code l =
     (case find_char (CHR '' '') l of
        None \<Rightarrow> 200
      | Some sp \<Rightarrow> int_cast (fpm_http_http_value_ulong (takeWhile (\<lambda>x. x \<noteq> CHR '' '') (drop (sp + 1) l))))"

definition head_line :: "bytes \<Rightarrow> head_info \<Rightarrow> head_info option" where
  "head_line l h =
     (case fpm_http_http_split_header l of
        None \<Rightarrow> Some h
      | Some (key, value) \<Rightarrow>
          if strcaseeq key ''Content-Length'' then
            (case fpm_http_http_content_length value of
               None \<Rightarrow> None
             | Some n \<Rightarrow> if i_length h \<noteq> None \<and> i_length h \<noteq> Some n then None else Some (h\<lparr>i_length := Some n\<rparr>))
          else if strcaseeq key ''Transfer-Encoding'' then
            Some (h\<lparr>i_chunked := fpm_http_http_token_in value ''chunked''\<rparr>)
          else if strcaseeq key ''Connection'' then Some (h\<lparr>i_close := fpm_http_http_token_in value ''close''\<rparr>)
          else Some h)"

fun head_lines :: "bytes list \<Rightarrow> head_info \<Rightarrow> head_info option" where
  "head_lines [] h = Some h"
| "head_lines (l # ls) h = (case head_line l h of None \<Rightarrow> None | Some h \<Rightarrow> head_lines ls h)"

definition head_scan_lines :: "bytes list \<Rightarrow> head_info option" where
  "head_scan_lines ls =
     (let h = \<lparr>i_code = 200, i_length = None, i_chunked = False, i_close = False\<rparr> in
      case ls of [] \<Rightarrow> Some h | l # ls \<Rightarrow> head_lines ls (h\<lparr>i_code := status_code l\<rparr>))"

text \<open>
  The lines forwarded to the client. A key is used as a C string here, so it ends at a
  NUL byte.
\<close>

fun forward_lines :: "bool \<Rightarrow> bool \<Rightarrow> bytes list \<Rightarrow> bytes" where
  "forward_lines chunked forwarded [] = []"
| "forward_lines chunked forwarded (l # ls) =
     (case fpm_http_http_split_header l of
        None \<Rightarrow> forward_lines chunked forwarded ls
      | Some (key, value) \<Rightarrow>
          if length key > FPM_HTTP_HEADER_NAME_MAX then forward_lines chunked forwarded ls
          else
            let keybuf = c_str key; len = strcaseeq keybuf ''Content-Length'' in
            if len \<and> (chunked \<or> forwarded) then forward_lines chunked forwarded ls
            else (if fpm_http_http_header_dropped keybuf then [] else keybuf @ '': '' @ value @ crlf) @
                 forward_lines chunked (forwarded \<or> len) ls)"

definition cgi_block :: "head_info \<Rightarrow> bytes list \<Rightarrow> bytes" where
  "cgi_block h ls = ''Status: '' @ dec_int (i_code h) @ crlf @ forward_lines (i_chunked h) False (tl ls)"

section \<open>The parser of an answer\<close>

datatype body_mode = BODY_CL | BODY_CHUNK_SIZE | BODY_CHUNK_DATA | BODY_CHUNK_CRLF | BODY_TRAILERS | BODY_EOF

record http_state =
  head :: bytes
  head_scan :: nat
  head_done :: bool
  body :: body_mode
  remaining :: nat
  line :: bytes
  expect_eof :: bool

definition fpm_http_http_state_reset :: http_state where
  "fpm_http_http_state_reset =
     \<lparr>head = [], head_scan = 0, head_done = False, body = BODY_CL, remaining = 0, line = [], expect_eof = False\<rparr>"

text \<open>The answers of \<open>fpm_http_http_head_done()\<close>: -1, 1, 2 and 0.\<close>

datatype head_answer = Head_Invalid | Head_Interim | Head_Switch | Head_Started http_state reply

definition framing :: "head_info \<Rightarrow> bool \<Rightarrow> http_state \<Rightarrow> http_state" where
  "framing h no_body st =
     (let st = (if no_body then st\<lparr>body := BODY_CL, remaining := 0\<rparr>
                else if i_chunked h then st\<lparr>body := BODY_CHUNK_SIZE, remaining := 0\<rparr>
                else case i_length h of
                       Some n \<Rightarrow> st\<lparr>body := BODY_CL, remaining := n\<rparr>
                     | None \<Rightarrow> st\<lparr>body := BODY_EOF, expect_eof := True\<rparr>)
      in if i_close h then st\<lparr>expect_eof := True\<rparr> else st)"

definition fpm_http_http_head_done :: "reply_env \<Rightarrow> nat \<Rightarrow> http_state \<Rightarrow> reply \<Rightarrow> head_answer" where
  "fpm_http_http_head_done e head_len st c =
     (let ls = block_lines (take head_len (head st)) in
      case head_scan_lines ls of
        None \<Rightarrow> Head_Invalid
      | Some h \<Rightarrow>
          if i_code h = 101 \<and> upgrading c then Head_Switch
          else if 100 \<le> i_code h \<and> i_code h < 200 then Head_Interim
          else
            let no_body = (i_code h < 200 \<or> i_code h = 204 \<or> i_code h = 304 \<or> head_request c);
                block = cgi_block h ls
            in Head_Started (framing h no_body st)
                 (fpm_http_start_reply e (length block) (length block) (c\<lparr>cgi_headers := Some block\<rparr>)))"

subsection \<open>The body\<close>

definition hex_val :: "char \<Rightarrow> nat option" where
  "hex_val x =
     (if isdigit x then Some (digit_val x)
      else if CHR ''a'' \<le> x \<and> x \<le> CHR ''f'' then Some (of_char x - 87)
      else if CHR ''A'' \<le> x \<and> x \<le> CHR ''F'' then Some (of_char x - 55)
      else None)"

fun size_digits :: "nat \<Rightarrow> bytes \<Rightarrow> (nat \<times> bytes) option" where
  "size_digits n [] = Some (n, [])"
| "size_digits n (x # s) =
     (case hex_val x of
        None \<Rightarrow> Some (n, x # s)
      | Some d \<Rightarrow> if n > SIZE_MAX div 16 then None else size_digits (n * 16 + d) s)"

definition size_ext :: "bytes \<Rightarrow> bool" where
  "size_ext r \<longleftrightarrow> r = [] \<or> hd r = CHR '';'' \<or> hd r = CR \<or> is_blank (hd r)"

definition chunk_size :: "bytes \<Rightarrow> nat option" where
  "chunk_size l =
     (case size_digits 0 l of
        None \<Rightarrow> None
      | Some (n, r) \<Rightarrow> if length r = length l \<or> \<not> size_ext r then None else Some n)"

definition LINE_MAX :: nat where "LINE_MAX = 16384"

text \<open>The answers of \<open>fpm_http_http_body()\<close>: 0, 1 and -1.\<close>

datatype body_answer = Body_More | Body_Complete | Body_Error

text \<open>One turn of the body's loop; no answer means another turn.\<close>

definition body_turn ::
  "reply_env \<Rightarrow> bytes \<Rightarrow> http_state \<Rightarrow> reply \<Rightarrow> body_answer option \<times> bytes \<times> http_state \<times> reply" where
  "body_turn e buf st c =
     (case body st of
        BODY_CL \<Rightarrow>
          let n = min (remaining st) (length buf); c = (if n > 0 then fpm_http_stdout e (take n buf) c else c);
              st = st\<lparr>remaining := remaining st - n\<rparr>
          in (Some (if remaining st = 0 then Body_Complete else Body_More), drop n buf, st, c)
      | BODY_CHUNK_SIZE \<Rightarrow>
          (case find_char LF buf of
             None \<Rightarrow>
               let st = st\<lparr>line := line st @ buf\<rparr> in
               if length (line st) > LINE_MAX then (Some Body_Error, buf, st, c) else (Some Body_More, [], st, c)
           | Some k \<Rightarrow>
               (case chunk_size (line st @ take k buf) of
                  None \<Rightarrow> (Some Body_Error, buf, st, c)
                | Some n \<Rightarrow>
                    (None, drop (k + 1) buf,
                     st\<lparr>line := [], remaining := n, body := if n > 0 then BODY_CHUNK_DATA else BODY_TRAILERS\<rparr>, c)))
      | BODY_CHUNK_DATA \<Rightarrow>
          let n = min (remaining st) (length buf); c = (if n > 0 then fpm_http_stdout e (take n buf) c else c);
              st = st\<lparr>remaining := remaining st - n\<rparr>
          in if remaining st = 0 then (None, drop n buf, st\<lparr>body := BODY_CHUNK_CRLF\<rparr>, c)
             else (Some Body_More, drop n buf, st, c)
      | BODY_CHUNK_CRLF \<Rightarrow>
          if line st \<noteq> [] then
            (if hd buf \<noteq> LF then (Some Body_Error, buf, st\<lparr>line := []\<rparr>, c)
             else (None, tl buf, st\<lparr>line := [], body := BODY_CHUNK_SIZE\<rparr>, c))
          else if length buf < 2 then
            (if hd buf = CR then (Some Body_More, tl buf, st\<lparr>line := [CR]\<rparr>, c) else (Some Body_Error, buf, st, c))
          else if take 2 buf = [CR, LF] then (None, drop 2 buf, st\<lparr>body := BODY_CHUNK_SIZE\<rparr>, c)
          else (Some Body_Error, buf, st, c)
      | BODY_TRAILERS \<Rightarrow>
          let piece = (case find_char LF buf of Some k \<Rightarrow> k | None \<Rightarrow> length buf); l = line st @ take piece buf in
          if length l > LINE_MAX then (Some Body_Error, buf, st\<lparr>line := l\<rparr>, c)
          else if find_char LF buf = None then (Some Body_More, [], st\<lparr>line := l\<rparr>, c)
          else if l = [] \<or> l = [CR] then (Some Body_Complete, drop (piece + 1) buf, st\<lparr>line := []\<rparr>, c)
          else (None, drop (piece + 1) buf, st\<lparr>line := []\<rparr>, c)
      | BODY_EOF \<Rightarrow> (Some Body_More, [], st, fpm_http_stdout e buf c))"

lemma body_turn_shrinks:
  assumes "body_turn e buf st c = (None, rest, st', c')" "buf \<noteq> []"
  shows "length rest < length buf \<or> length rest = length buf \<and> body st = BODY_CHUNK_DATA \<and> body st' = BODY_CHUNK_CRLF"
  using assms
  by (auto simp: body_turn_def Let_def split: body_mode.splits option.splits if_splits)

function fpm_http_http_body ::
  "reply_env \<Rightarrow> bytes \<Rightarrow> http_state \<Rightarrow> reply \<Rightarrow> body_answer \<times> bytes \<times> http_state \<times> reply" where
  "fpm_http_http_body e buf st c =
     (if buf = [] then (Body_More, [], st, c)
      else case body_turn e buf st c of
        (Some a, rest, st', c') \<Rightarrow> (a, rest, st', c')
      | (None, rest, st', c') \<Rightarrow> fpm_http_http_body e rest st' c')"
  by pat_completeness auto

termination
proof (relation "measure (\<lambda>(e, buf, st, c). 2 * length buf + (if body st = BODY_CHUNK_DATA then 1 else 0))", goal_cases)
  case (2 e buf st c a rest' rest st' c' c'')
  then show ?case using body_turn_shrinks [of e buf st c rest c' c''] by auto
qed simp

declare fpm_http_http_body.simps [simp del]

subsection \<open>The connection\<close>

record http_upstream =
  base :: upstream
  http :: "http_state option"
  switched :: "(bytes \<times> bytes) option"

definition fpm_http_http_drop :: "http_upstream \<Rightarrow> http_upstream" where
  "fpm_http_http_drop up = up\<lparr>base := fpm_http_upstream_drop (base up), http := None\<rparr>"

text \<open>\<open>fpm_http_upstream_fail()\<close> with this transport's drop.\<close>

definition http_fail :: "upstream_env \<Rightarrow> http_upstream \<Rightarrow> http_upstream" where
  "http_fail e up = up\<lparr>base := fpm_http_upstream_fail e (base up), http := None\<rparr>"

definition fpm_http_http_leftover :: "http_upstream \<Rightarrow> http_upstream" where
  "fpm_http_http_leftover up = up\<lparr>http := map_option (\<lambda>st. st\<lparr>expect_eof := True\<rparr>) (http up)\<rparr>"

text \<open>A request that fails on its first write takes the parser state with it.\<close>

definition fpm_http_http_complete :: "upstream_env \<Rightarrow> http_upstream \<Rightarrow> http_upstream" where
  "fpm_http_http_complete e up =
     (let eof = (case http up of Some st \<Rightarrow> expect_eof st | None \<Rightarrow> True);
          up = up\<lparr>http := map_option (\<lambda>_. fpm_http_http_state_reset) (http up)\<rparr>
      in
      if eof then
        (case current (base up) of
           Some c \<Rightarrow> fpm_http_http_drop
             (up\<lparr>base := (base up)\<lparr>current := None, served := served (base up) @ [fpm_http_finish (renv e) c]\<rparr>\<rparr>)
         | None \<Rightarrow> fpm_http_http_drop up)
      else
        let b = fpm_http_request_done e (base up) in up\<lparr>base := b, http := if dead b then None else http up\<rparr>)"

fun find_blank_line :: "nat \<Rightarrow> bytes \<Rightarrow> nat option" where
  "find_blank_line i [] = None"
| "find_blank_line i (x # s) =
     (if take 4 (x # s) = [CR, LF, CR, LF] then Some (i + 2) else find_blank_line (i + 1) s)"

text \<open>
  What the bytes of a head lead to: more bytes are needed, the head is too long or
  invalid, the protocol switches (with the head and the bytes behind it), or the reply
  is started and the bytes behind the head belong to its body.
\<close>

datatype head_result = Head_Wait http_state | Head_Fail | Head_Relay bytes bytes | Head_Ready http_state reply bytes

function head_loop :: "reply_env \<Rightarrow> http_state \<Rightarrow> reply \<Rightarrow> head_result" where
  "head_loop e st c =
     (let from = (if head_scan st > 3 then head_scan st - 3 else 0); st1 = st\<lparr>head_scan := length (head st)\<rparr> in
      case find_blank_line from (drop from (head st)) of
        None \<Rightarrow> if length (head st) > FPM_HTTP_HTTP_MAX_HEAD then Head_Fail else Head_Wait st1
      | Some head_len \<Rightarrow>
          let tail = drop (head_len + 2) (head st) in
          (case fpm_http_http_head_done e head_len st1 c of
             Head_Invalid \<Rightarrow> Head_Fail
           | Head_Switch \<Rightarrow> Head_Relay (take (head_len + 2) (head st)) tail
           | Head_Interim \<Rightarrow>
               let st2 = st1\<lparr>head := tail, head_scan := 0, head_done := False\<rparr> in
               if tail \<noteq> [] then head_loop e st2 c else Head_Wait st2
           | Head_Started st2 c2 \<Rightarrow> Head_Ready (st2\<lparr>head_done := True, head := []\<rparr>) c2 tail))"
  by pat_completeness auto

termination
  by (relation "measure (\<lambda>(e, st, c). length (head st))") (auto simp: gr0_conv_Suc)

declare head_loop.simps [simp del]

definition after_body ::
  "upstream_env \<Rightarrow> http_upstream \<Rightarrow> body_answer \<times> bytes \<times> http_state \<times> reply \<Rightarrow> http_upstream \<times> bytes" where
  "after_body e up r =
     (case r of (a, rest, st, c) \<Rightarrow>
        let up = up\<lparr>base := (base up)\<lparr>current := Some c\<rparr>, http := Some st\<rparr> in
        case a of
          Body_Error \<Rightarrow> (http_fail e up, rest)
        | Body_More \<Rightarrow> (up, rest)
        | Body_Complete \<Rightarrow> (fpm_http_http_complete e (if rest \<noteq> [] then fpm_http_http_leftover up else up), rest))"

definition http_turn :: "upstream_env \<Rightarrow> bytes \<Rightarrow> http_upstream \<Rightarrow> http_upstream \<times> bytes" where
  "http_turn e buf up =
     (case (current (base up), http up) of
        (Some c, Some st) \<Rightarrow>
          if head_done st then after_body e up (fpm_http_http_body (renv e) buf st c)
          else
            (case head_loop (renv e) (st\<lparr>head := head st @ buf\<rparr>) c of
               Head_Wait st' \<Rightarrow> (up\<lparr>http := Some st'\<rparr>, [])
             | Head_Fail \<Rightarrow> (http_fail e up, [])
             | Head_Relay h tail \<Rightarrow>
                 (up\<lparr>base := (base up)\<lparr>current := None, dead := True\<rparr>, http := None, switched := Some (h, tail)\<rparr>, [])
             | Head_Ready st' c' tail \<Rightarrow>
                 let up = up\<lparr>base := (base up)\<lparr>current := Some c'\<rparr>, http := Some st'\<rparr> in
                 if tail = [] then
                   (if body st' = BODY_CL \<and> remaining st' = 0 then fpm_http_http_complete e up else up, [])
                 else (fst (after_body e up (fpm_http_http_body (renv e) tail st' c')), []))
      | _ \<Rightarrow> (http_fail e up, buf))"

text \<open>
  A turn that leaves bytes has dropped the connection or taken a byte, so the number of
  bytes bounds the turns.
\<close>

fun http_loop :: "nat \<Rightarrow> upstream_env \<Rightarrow> bytes \<Rightarrow> http_upstream \<Rightarrow> http_upstream" where
  "http_loop 0 e buf up = up"
| "http_loop (Suc k) e buf up =
     (if buf = [] \<or> dead (base up) then up
      else let (up, rest) = http_turn e buf up in http_loop k e rest up)"

definition fpm_http_http_data :: "upstream_env \<Rightarrow> bytes \<Rightarrow> http_upstream \<Rightarrow> http_upstream" where
  "fpm_http_http_data e buf up = http_loop (length buf) e buf up"

definition fpm_http_http_readcb :: "upstream_env \<Rightarrow> read_event \<Rightarrow> http_upstream \<Rightarrow> http_upstream" where
  "fpm_http_http_readcb e ev up =
     (case ev of
        Timed_Out \<Rightarrow> if busy (base up) then up else up\<lparr>base := fpm_http_upstream_drop (base up)\<rparr>
      | Read buf \<Rightarrow> fpm_http_http_data e buf up
      | Eof \<Rightarrow>
          (case (current (base up), http up) of
             (Some c, Some st) \<Rightarrow>
               if busy (base up) \<and> head_done st \<and> body st = BODY_EOF then fpm_http_http_complete e up else http_fail e up
           | _ \<Rightarrow> http_fail e up)
      | Read_Error \<Rightarrow> http_fail e up)"

section \<open>Chunked bodies, byte by byte\<close>

record ck =
  k_mode :: body_mode
  k_rem :: nat
  k_line :: bytes
  k_out :: bytes
  k_ans :: body_answer
  k_long :: bool

definition ck_byte :: "char \<Rightarrow> ck \<Rightarrow> ck" where
  "ck_byte x s =
     (if k_ans s \<noteq> Body_More then s
      else case k_mode s of
        BODY_CHUNK_SIZE \<Rightarrow>
          if x = LF then
            (case chunk_size (k_line s) of
               None \<Rightarrow> s\<lparr>k_ans := Body_Error\<rparr>
             | Some n \<Rightarrow> s\<lparr>k_mode := if n > 0 then BODY_CHUNK_DATA else BODY_TRAILERS, k_rem := n, k_line := []\<rparr>)
          else s\<lparr>k_line := k_line s @ [x], k_long := (k_long s \<or> length (k_line s) + 1 > LINE_MAX)\<rparr>
      | BODY_CHUNK_DATA \<Rightarrow>
          s\<lparr>k_mode := if k_rem s = 1 then BODY_CHUNK_CRLF else BODY_CHUNK_DATA, k_rem := k_rem s - 1, k_out := k_out s @ [x]\<rparr>
      | BODY_CHUNK_CRLF \<Rightarrow>
          if k_line s = [] then (if x = CR then s\<lparr>k_line := [CR]\<rparr> else s\<lparr>k_ans := Body_Error\<rparr>)
          else if x = LF then s\<lparr>k_mode := BODY_CHUNK_SIZE, k_line := []\<rparr> else s\<lparr>k_ans := Body_Error\<rparr>
      | BODY_TRAILERS \<Rightarrow>
          if x = LF then
            s\<lparr>k_ans := if k_line s = [] \<or> k_line s = [CR] then Body_Complete else Body_More, k_line := []\<rparr>
          else if length (k_line s) + 1 > LINE_MAX then s\<lparr>k_ans := Body_Error\<rparr>
          else s\<lparr>k_line := k_line s @ [x]\<rparr>
      | _ \<Rightarrow> s\<lparr>k_ans := Body_Error\<rparr>)"

lemma ck_steps:
  assumes "k_ans s = Body_More"
  shows "k_mode s = BODY_CHUNK_SIZE \<Longrightarrow> x \<noteq> LF \<Longrightarrow>
      ck_byte x s = s\<lparr>k_line := k_line s @ [x], k_long := (k_long s \<or> length (k_line s) + 1 > LINE_MAX)\<rparr>"
    "k_mode s = BODY_CHUNK_SIZE \<Longrightarrow> ck_byte LF s =
      (case chunk_size (k_line s) of
         None \<Rightarrow> s\<lparr>k_ans := Body_Error\<rparr>
       | Some n \<Rightarrow> s\<lparr>k_mode := if n > 0 then BODY_CHUNK_DATA else BODY_TRAILERS, k_rem := n, k_line := []\<rparr>)"
    "k_mode s = BODY_CHUNK_CRLF \<Longrightarrow> ck_byte x s =
      (if k_line s = [] then (if x = CR then s\<lparr>k_line := [CR]\<rparr> else s\<lparr>k_ans := Body_Error\<rparr>)
       else if x = LF then s\<lparr>k_mode := BODY_CHUNK_SIZE, k_line := []\<rparr> else s\<lparr>k_ans := Body_Error\<rparr>)"
    "k_mode s = BODY_TRAILERS \<Longrightarrow> x \<noteq> LF \<Longrightarrow> ck_byte x s =
      (if length (k_line s) + 1 > LINE_MAX then s\<lparr>k_ans := Body_Error\<rparr> else s\<lparr>k_line := k_line s @ [x]\<rparr>)"
    "k_mode s = BODY_TRAILERS \<Longrightarrow> ck_byte LF s =
      s\<lparr>k_ans := if k_line s = [] \<or> k_line s = [CR] then Body_Complete else Body_More, k_line := []\<rparr>"
  using assms by (simp_all add: ck_byte_def split: option.split)

lemma ck_over: "k_ans s \<noteq> Body_More \<Longrightarrow> fold ck_byte xs s = s"
  by (induction xs) (simp_all add: ck_byte_def)

lemma ck_size_text:
  assumes "LF \<notin> set xs" "k_ans s = Body_More" "k_mode s = BODY_CHUNK_SIZE" "xs \<noteq> []"
  shows "fold ck_byte xs s = s\<lparr>k_line := k_line s @ xs, k_long := (k_long s \<or> length (k_line s @ xs) > LINE_MAX)\<rparr>"
  using assms
proof (induction xs arbitrary: s)
  case (Cons x xs)
  moreover have "LINE_MAX < Suc (length (k_line s)) \<or> LINE_MAX < Suc (length (k_line s) + length xs) \<longleftrightarrow>
      LINE_MAX < Suc (length (k_line s) + length xs)" by auto
  ultimately show ?case by (cases "xs = []") (auto simp: ck_steps(1))
qed simp

lemma ck_data:
  assumes "k_ans s = Body_More" "k_mode s = BODY_CHUNK_DATA" "0 < length xs" "length xs \<le> k_rem s"
  shows "fold ck_byte xs s =
    s\<lparr>k_mode := if k_rem s = length xs then BODY_CHUNK_CRLF else BODY_CHUNK_DATA, k_rem := k_rem s - length xs,
      k_out := k_out s @ xs\<rparr>"
  using assms
proof (induction xs arbitrary: s)
  case (Cons x xs)
  have one: "ck_byte x s = s\<lparr>k_mode := if k_rem s = 1 then BODY_CHUNK_CRLF else BODY_CHUNK_DATA, k_rem := k_rem s - 1,
      k_out := k_out s @ [x]\<rparr>"
    using Cons.prems by (auto simp: ck_byte_def)
  show ?case
  proof (cases "xs = []")
    case True
    then show ?thesis by (simp add: one)
  next
    case False
    then have "k_rem s \<noteq> 1" using Cons.prems by (cases xs) auto
    moreover have "k_rem s - Suc 0 = length xs \<longleftrightarrow> k_rem s = Suc (length xs)" using Cons.prems by auto
    ultimately show ?thesis using Cons.IH [of "ck_byte x s"] Cons.prems False by (auto simp: one)
  qed
qed simp

lemma ck_trailer_text:
  assumes "LF \<notin> set xs" "k_ans s = Body_More" "k_mode s = BODY_TRAILERS"
  shows "length (k_line s @ xs) \<le> LINE_MAX \<Longrightarrow> fold ck_byte xs s = s\<lparr>k_line := k_line s @ xs\<rparr>"
    "length (k_line s @ xs) > LINE_MAX \<Longrightarrow> xs \<noteq> [] \<Longrightarrow> k_ans (fold ck_byte xs s) = Body_Error"
proof -
  show "length (k_line s @ xs) \<le> LINE_MAX \<Longrightarrow> fold ck_byte xs s = s\<lparr>k_line := k_line s @ xs\<rparr>"
    using assms
  proof (induction xs arbitrary: s)
    case (Cons x xs)
    then have "ck_byte x s = s\<lparr>k_line := k_line s @ [x]\<rparr>" by (auto simp: ck_steps(4))
    then show ?case using Cons.IH [of "ck_byte x s"] Cons.prems by simp
  qed simp
  show "length (k_line s @ xs) > LINE_MAX \<Longrightarrow> xs \<noteq> [] \<Longrightarrow> k_ans (fold ck_byte xs s) = Body_Error"
    using assms
  proof (induction xs arbitrary: s)
    case (Cons x xs)
    show ?case
    proof (cases "length (k_line s) + 1 > LINE_MAX")
      case True
      then have "ck_byte x s = s\<lparr>k_ans := Body_Error\<rparr>" using Cons.prems by (auto simp: ck_byte_def)
      then show ?thesis by (simp add: ck_over)
    next
      case False
      then have "ck_byte x s = s\<lparr>k_line := k_line s @ [x]\<rparr>" "xs \<noteq> []" using Cons.prems by (auto simp: ck_byte_def)
      then show ?thesis using Cons.IH [of "ck_byte x s"] Cons.prems by simp
    qed
  qed simp
qed

text \<open>The parser and the byte-wise reading agree on the state.\<close>

definition ck_match :: "ck \<Rightarrow> http_state \<Rightarrow> bool" where
  "ck_match s st \<longleftrightarrow> k_mode s = body st \<and> k_rem s = remaining st \<and> k_line s = line st \<and> k_ans s = Body_More \<and>
     (body st = BODY_CHUNK_SIZE \<or> body st = BODY_CHUNK_DATA \<and> 0 < remaining st \<and> line st = [] \<or>
      body st = BODY_CHUNK_CRLF \<and> (line st = [] \<or> line st = [CR]) \<or> body st = BODY_TRAILERS \<and> length (line st) \<le> LINE_MAX)"

text \<open>The reply received the bytes \<open>d\<close> in some pieces.\<close>

definition delivered :: "reply_env \<Rightarrow> reply \<Rightarrow> bytes \<Rightarrow> reply \<Rightarrow> bool" where
  "delivered e c d c' \<longleftrightarrow> (\<exists>ds. [] \<notin> set ds \<and> concat ds = d \<and> c' = fold (fpm_http_stdout e) ds c)"

lemma delivered_simps: "delivered e c [] c" "d \<noteq> [] \<Longrightarrow> delivered e c d (fpm_http_stdout e d c)"
  unfolding delivered_def by (rule exI [of _ "[]"], simp) (rule exI [of _ "[d]"], simp)

lemma delivered_trans: "delivered e c d c1 \<Longrightarrow> delivered e c1 d' c2 \<Longrightarrow> delivered e c (d @ d') c2"
  unfolding delivered_def by (elim exE conjE) (rule_tac x = "ds @ dsa" in exI, simp)

text \<open>What an answer of a turn or of the whole body says about the byte-wise reading.\<close>

definition agrees ::
  "reply_env \<Rightarrow> ck \<Rightarrow> reply \<Rightarrow> bytes \<Rightarrow> body_answer option \<Rightarrow> bytes \<Rightarrow> http_state \<Rightarrow> reply \<Rightarrow> bool" where
  "agrees e s c buf a rest st' c' \<longleftrightarrow>
     (if a = Some Body_Error then k_ans (fold ck_byte buf s) = Body_Error \<or> k_long (fold ck_byte buf s)
      else \<exists>u d. buf = u @ rest \<and> delivered e c d c' \<and> k_out (fold ck_byte u s) = k_out s @ d \<and>
        (if a = Some Body_Complete
         then k_ans (fold ck_byte u s) = Body_Complete \<and> k_ans (fold ck_byte (butlast u) s) = Body_More
         else ck_match (fold ck_byte u s) st' \<and> (a = Some Body_More \<longrightarrow> rest = [])))"

lemma agreesI:
  assumes "buf = u @ rest" "delivered e c d c'" "k_out (fold ck_byte u s) = k_out s @ d"
  shows "ck_match (fold ck_byte u s) st' \<Longrightarrow> agrees e s c buf None rest st' c'"
    "ck_match (fold ck_byte u s) st' \<Longrightarrow> rest = [] \<Longrightarrow> agrees e s c buf (Some Body_More) rest st' c'"
    "k_ans (fold ck_byte u s) = Body_Complete \<Longrightarrow> k_ans (fold ck_byte (butlast u) s) = Body_More \<Longrightarrow> agrees e s c buf (Some Body_Complete) rest st' c'"
  using assms unfolding agrees_def by auto

lemma find_char_split:
  assumes "find_char x s = Some k"
  shows "s = take k s @ x # drop (k + 1) s" "x \<notin> set (take k s)"
proof -
  have k: "k = length (takeWhile (\<lambda>y. y \<noteq> x) s)" "x \<in> set s" using assms by (auto simp: find_char_def split: if_splits)
  then have t: "take k s = takeWhile (\<lambda>y. y \<noteq> x) s" by (simp add: takeWhile_eq_take [symmetric])
  have "dropWhile (\<lambda>y. y \<noteq> x) s \<noteq> []" using k(2) by (simp add: dropWhile_eq_Nil_conv)
  then obtain y r where d: "dropWhile (\<lambda>y. y \<noteq> x) s = y # r" by (cases "dropWhile (\<lambda>y. y \<noteq> x) s") auto
  then have y: "y = x" using hd_dropWhile [of "\<lambda>y. y \<noteq> x" s] by simp
  have s: "s = take k s @ x # r" using takeWhile_dropWhile_id [of "\<lambda>y. y \<noteq> x" s] unfolding t d y by simp
  have "length (take k s) = k" using k(1) by (simp add: length_takeWhile_le)
  then have "drop (k + 1) s = r" by (subst s) simp
  then show "s = take k s @ x # drop (k + 1) s" using s by simp
  show "x \<notin> set (take k s)" unfolding t by (auto dest: set_takeWhileD)
qed

lemma find_char_None: "find_char x s = None \<longleftrightarrow> x \<notin> set s"
  by (simp add: find_char_def)

lemma turn_size:
  assumes "ck_match s st" "buf \<noteq> []" "body st = BODY_CHUNK_SIZE" "body_turn e buf st c = (a, rest, st', c')"
  shows "agrees e s c buf a rest st' c'"
proof (cases "find_char LF buf")
  case None
  then have "LF \<notin> set buf" by (simp add: find_char_None)
  then have f: "fold ck_byte buf s = s\<lparr>k_line := k_line s @ buf, k_long := (k_long s \<or> length (k_line s @ buf) > LINE_MAX)\<rparr>"
    using assms(1-3) by (intro ck_size_text) (auto simp: ck_match_def)
  show ?thesis
  proof (cases "length (line st @ buf) > LINE_MAX")
    case True
    then have "a = Some Body_Error" using assms(3, 4) None by (auto simp: body_turn_def)
    moreover have "k_long (fold ck_byte buf s)" using True assms(1) by (simp add: f ck_match_def)
    ultimately show ?thesis by (simp add: agrees_def)
  next
    case False
    then have "a = Some Body_More" "rest = []" "st' = st\<lparr>line := line st @ buf\<rparr>" "c' = c"
      using assms(3, 4) None by (auto simp: body_turn_def)
    then show ?thesis using assms(1, 3) delivered_simps(1)
      by (auto simp: agrees_def f ck_match_def intro!: exI [of _ buf] exI [of _ "[]"])
  qed
next
  case (Some k)
  note b = find_char_split [OF Some]
  let ?l = "line st @ take k buf"
  define s1 where "s1 = fold ck_byte (take k buf) s"
  have s1: "k_line s1 = ?l" "k_mode s1 = BODY_CHUNK_SIZE" "k_ans s1 = Body_More" "k_out s1 = k_out s"
    using ck_size_text [OF b(2), of s] assms(1, 3) by (cases "take k buf = []"; auto simp: s1_def ck_match_def)+
  have f: "fold ck_byte (take k buf @ [LF]) s = ck_byte LF s1" by (simp add: s1_def)
  show ?thesis
  proof (cases "chunk_size ?l")
    case None
    then have "k_ans (ck_byte LF s1) = Body_Error" using ck_steps(2) [OF s1(3, 2)] by (simp add: s1)
    moreover have "fold ck_byte buf s = fold ck_byte (drop (k + 1) buf) (ck_byte LF s1)"
      by (subst b(1)) (simp add: s1_def)
    ultimately have "k_ans (fold ck_byte buf s) = Body_Error" by (simp add: ck_over)
    then show ?thesis using assms(3, 4) Some None by (auto simp: body_turn_def agrees_def)
  next
    case n: (Some n)
    let ?m = "if n > 0 then BODY_CHUNK_DATA else BODY_TRAILERS"
    have r: "a = None" "rest = drop (k + 1) buf" "c' = c" "st' = st\<lparr>line := [], remaining := n, body := ?m\<rparr>"
      using assms(3, 4) Some n by (auto simp: body_turn_def)
    have u: "fold ck_byte (take k buf @ [LF]) s = s1\<lparr>k_mode := ?m, k_rem := n, k_line := []\<rparr>"
      unfolding f using ck_steps(2) [OF s1(3, 2)] n by (simp add: s1)
    have "buf = (take k buf @ [LF]) @ rest" using b(1) by (simp add: r)
    moreover have "k_out (fold ck_byte (take k buf @ [LF]) s) = k_out s @ []" unfolding u using s1(4) by simp
    moreover have "ck_match (fold ck_byte (take k buf @ [LF]) s) st'" unfolding u r(4) using s1 by (simp add: ck_match_def)
    ultimately show ?thesis unfolding r(1, 3) by (rule agreesI(1) [OF _ delivered_simps(1)])
  qed
qed

lemma turn_data:
  assumes "ck_match s st" "buf \<noteq> []" "body st = BODY_CHUNK_DATA" "body_turn e buf st c = (a, rest, st', c')"
  shows "agrees e s c buf a rest st' c'"
proof -
  define n where "n = min (remaining st) (length buf)"
  have m: "k_ans s = Body_More" "k_mode s = BODY_CHUNK_DATA" "k_rem s = remaining st" "0 < remaining st" "k_line s = line st" "line st = []"
    using assms(1, 3) by (auto simp: ck_match_def)
  have n: "0 < length (take n buf)" "length (take n buf) \<le> k_rem s" "length (take n buf) = n" "0 < n"
    using m assms(2) by (auto simp: n_def)
  note f = ck_data [OF m(1, 2) n(1, 2)]
  have t: "body_turn e buf st c =
      (if remaining st - n = 0
       then (None, drop n buf, st\<lparr>remaining := 0, body := BODY_CHUNK_CRLF\<rparr>, fpm_http_stdout e (take n buf) c)
       else (Some Body_More, drop n buf, st\<lparr>remaining := remaining st - n\<rparr>, fpm_http_stdout e (take n buf) c))"
    using assms(3) n(4) by (simp add: body_turn_def Let_def n_def [symmetric])
  have d: "delivered e c (take n buf) (fpm_http_stdout e (take n buf) c)" using n by (intro delivered_simps(2)) auto
  have b: "buf = take n buf @ drop n buf" by simp
  show ?thesis
  proof (cases "remaining st - n = 0")
    case True
    then have "a = None" "rest = drop n buf" "st' = st\<lparr>remaining := 0, body := BODY_CHUNK_CRLF\<rparr>"
        "c' = fpm_http_stdout e (take n buf) c" using assms(4) t by auto
    moreover have "ck_match (fold ck_byte (take n buf) s) st'" "k_out (fold ck_byte (take n buf) s) = k_out s @ take n buf"
      unfolding f using n(2, 3) m True calculation(3) by (auto simp: ck_match_def)
    ultimately show ?thesis using agreesI(1) [OF b d] by simp
  next
    case False
    then have "a = Some Body_More" "rest = []" "st' = st\<lparr>remaining := remaining st - n\<rparr>"
        "c' = fpm_http_stdout e (take n buf) c" using assms(4) t by (auto simp: n_def)
    moreover have "ck_match (fold ck_byte (take n buf) s) st'" "k_out (fold ck_byte (take n buf) s) = k_out s @ take n buf"
      unfolding f using n(2, 3) m False calculation(3) assms(3) by (auto simp: ck_match_def)
    moreover have "buf = take n buf @ []" using False by (simp add: n_def)
    ultimately show ?thesis using agreesI(2) [OF _ d] by simp
  qed
qed

lemma turn_crlf:
  assumes "ck_match s st" "buf \<noteq> []" "body st = BODY_CHUNK_CRLF" "body_turn e buf st c = (a, rest, st', c')"
  shows "agrees e s c buf a rest st' c'"
proof -
  have m: "k_ans s = Body_More" "k_mode s = BODY_CHUNK_CRLF" "k_line s = line st" "line st = [] \<or> line st = [CR]"
    using assms(1, 3) by (auto simp: ck_match_def)
  obtain x buf' where b: "buf = x # buf'" using assms(2) by (cases buf) auto
  note x = ck_steps(3) [OF m(1, 2), of x]
  have err: "a = Some Body_Error \<Longrightarrow> k_ans (ck_byte x s) = Body_Error \<Longrightarrow> ?thesis"
    by (simp add: agrees_def b ck_over)
  show ?thesis
  proof (cases "line st = []")
    case False
    show ?thesis
    proof (cases "x = LF")
      case xl: True
      then have "a = None" "rest = buf'" "st' = st\<lparr>line := [], body := BODY_CHUNK_SIZE\<rparr>" "c' = c"
        using assms(3, 4) False by (auto simp: body_turn_def b)
      moreover have "ck_byte x s = s\<lparr>k_mode := BODY_CHUNK_SIZE, k_line := []\<rparr>" using x m(3) False xl by simp
      ultimately show ?thesis
        using agreesI(1) [of buf "[x]" buf' e c "[]" c s st'] delivered_simps(1) assms(1) by (simp add: b ck_match_def)
    next
      case xl: False
      then show ?thesis using err x m(3) False assms(3, 4) by (auto simp: body_turn_def b)
    qed
  next
    case True
    consider (err) "x \<noteq> CR" | (half) "x = CR" "buf' = []" | (both) z where "x = CR" "buf' = LF # z" | (bad) y z where "x = CR" "buf' = y # z" "y \<noteq> LF"
      by (cases buf') auto
    then show ?thesis
    proof cases
      case err
      then show ?thesis using \<open>a = Some Body_Error \<Longrightarrow> _ \<Longrightarrow> _\<close> x m(3) True assms(3, 4)
        by (cases buf') (auto simp: body_turn_def b split: if_splits)
    next
      case half
      then have "a = Some Body_More" "rest = []" "st' = st\<lparr>line := [CR]\<rparr>" "c' = c"
        using assms(3, 4) True by (auto simp: body_turn_def b)
      then show ?thesis using agreesI(2) [of buf "[x]" "[]" e c "[]" c s st'] delivered_simps(1) assms(1, 3) x True m half
        by (simp add: b ck_match_def)
    next
      case both
      then have "a = None" "rest = z" "st' = st\<lparr>body := BODY_CHUNK_SIZE\<rparr>" "c' = c"
        using assms(3, 4) True by (auto simp: body_turn_def b)
      moreover have "fold ck_byte [CR, LF] s = s\<lparr>k_mode := BODY_CHUNK_SIZE, k_line := []\<rparr>"
        using x m True both ck_steps(3) [of "s\<lparr>k_line := [CR]\<rparr>" LF] by simp
      ultimately show ?thesis using agreesI(1) [of buf "[CR, LF]" z e c "[]" c s st'] delivered_simps(1) assms(1, 3) True m both
        by (simp add: b ck_match_def)
    next
      case bad
      then have "a = Some Body_Error" using assms(3, 4) True by (auto simp: body_turn_def b)
      moreover have "ck_byte y (ck_byte x s) = s\<lparr>k_line := [CR], k_ans := Body_Error\<rparr>"
        using x m True bad ck_steps(3) [of "s\<lparr>k_line := [CR]\<rparr>" y] by simp
      ultimately show ?thesis by (simp add: agrees_def b bad(2) ck_over)
    qed
  qed
qed

lemma turn_trailers:
  assumes "ck_match s st" "buf \<noteq> []" "body st = BODY_TRAILERS" "body_turn e buf st c = (a, rest, st', c')"
  shows "agrees e s c buf a rest st' c'"
proof -
  have m: "k_ans s = Body_More" "k_mode s = BODY_TRAILERS" "k_line s = line st" "k_rem s = remaining st" "length (line st) \<le> LINE_MAX"
    using assms(1, 3) by (auto simp: ck_match_def)
  define k where "k = (case find_char LF buf of Some k \<Rightarrow> k | None \<Rightarrow> length buf)"
  let ?l = "line st @ take k buf"
  have l: "LF \<notin> set (take k buf)"
  proof (cases "find_char LF buf")
    case None
    then show ?thesis using find_char_None [of LF buf] by (auto dest: in_set_takeD)
  next
    case (Some k')
    then show ?thesis using find_char_split(2) [OF Some] by (simp add: k_def)
  qed
  note t = ck_trailer_text [OF l m(1, 2)]
  show ?thesis
  proof (cases "length ?l > LINE_MAX")
    case True
    then have a: "a = Some Body_Error" using assms(3, 4) by (auto simp: body_turn_def k_def [symmetric] Let_def)
    have "k_ans (fold ck_byte buf s) = Body_Error"
    proof -
      have "take k buf \<noteq> []" using True m(5) by auto
      then have "k_ans (fold ck_byte (take k buf) s) = Body_Error" using t(2) True m(3) by simp
      then have "k_ans (fold ck_byte (take k buf @ drop k buf) s) = Body_Error" 
        unfolding fold_append o_apply by (subst ck_over) simp_all
      then show ?thesis by simp
    qed
    then show ?thesis by (simp add: agrees_def a)
  next
    case False
    then have f: "fold ck_byte (take k buf) s = s\<lparr>k_line := ?l\<rparr>" using t(1) m(3) by simp
    show ?thesis
    proof (cases "find_char LF buf")
      case None
      then have r: "a = Some Body_More" "rest = []" "st' = st\<lparr>line := ?l\<rparr>" "c' = c" "buf = take k buf @ []"
        using assms(3, 4) False by (auto simp: body_turn_def k_def Let_def)
      show ?thesis unfolding r(1, 2, 4)
        by (rule agreesI(2) [OF r(5) delivered_simps(1)]) (use f r(3) m assms(3) False in \<open>simp_all add: ck_match_def\<close>)
    next
      case (Some k')
      then have k: "k' = k" by (simp add: k_def)
      have b: "buf = (take k buf @ [LF]) @ drop (k + 1) buf" using find_char_split(1) [OF Some] by (simp add: k)
      have u: "fold ck_byte (take k buf @ [LF]) s =
          s\<lparr>k_line := [], k_ans := if ?l = [] \<or> ?l = [CR] then Body_Complete else Body_More\<rparr>"
        using ck_steps(5) [of "s\<lparr>k_line := ?l\<rparr>"] m by (simp add: f)
      have r: "(a, rest, st', c') = (if ?l = [] \<or> ?l = [CR] then Some Body_Complete else None, drop (k + 1) buf, st\<lparr>line := []\<rparr>, c)"
        using assms(3, 4) False Some by (auto simp: body_turn_def k_def Let_def)
      show ?thesis
      proof (cases "?l = [] \<or> ?l = [CR]")
        case True
        then show ?thesis using agreesI(3) [OF b delivered_simps(1), of s e c st'] u r f m(1) by simp
      next
        case False
        then show ?thesis using agreesI(1) [OF b delivered_simps(1), of s st' e c] u r m assms(3) by (auto simp: ck_match_def)
      qed
    qed
  qed
qed

lemma turn_agrees:
  assumes "ck_match s st" "buf \<noteq> []" "body_turn e buf st c = (a, rest, st', c')"
  shows "agrees e s c buf a rest st' c'"
proof -
  have "body st \<in> {BODY_CHUNK_SIZE, BODY_CHUNK_DATA, BODY_CHUNK_CRLF, BODY_TRAILERS}"
    using assms(1) by (auto simp: ck_match_def)
  then show ?thesis
    using turn_size [OF assms(1, 2) _ assms(3)] turn_data [OF assms(1, 2) _ assms(3)] turn_crlf [OF assms(1, 2) _ assms(3)]
      turn_trailers [OF assms(1, 2) _ assms(3)] by auto
qed

lemma agrees_then:
  assumes "agrees e s c buf None rest st1 c1"
    and "\<And>s1. ck_match s1 st1 \<Longrightarrow> agrees e s1 c1 rest (Some a) rest' st' c'"
  shows "agrees e s c buf (Some a) rest' st' c'"
proof -
  obtain u d where u: "buf = u @ rest" "delivered e c d c1" "k_out (fold ck_byte u s) = k_out s @ d"
      "ck_match (fold ck_byte u s) st1"
    using assms(1) by (auto simp: agrees_def)
  let ?s = "fold ck_byte u s"
  have n: "agrees e ?s c1 rest (Some a) rest' st' c'" using assms(2) u(4) .
  show ?thesis
  proof (cases "a = Body_Error")
    case True
    then show ?thesis using n by (simp add: agrees_def u(1))
  next
    case False
    then obtain v d' where v: "rest = v @ rest'" "delivered e c1 d' c'" "k_out (fold ck_byte v ?s) = k_out ?s @ d'"
        "if a = Body_Complete
         then k_ans (fold ck_byte v ?s) = Body_Complete \<and> k_ans (fold ck_byte (butlast v) ?s) = Body_More
         else ck_match (fold ck_byte v ?s) st' \<and> (a = Body_More \<longrightarrow> rest' = [])"
      using n unfolding agrees_def by auto
    have "buf = (u @ v) @ rest'" "delivered e c (d @ d') c'" "k_out (fold ck_byte (u @ v) s) = k_out s @ d @ d'"
      using u v delivered_trans by auto
    moreover have "butlast (u @ v) = u @ butlast v" if "a = Body_Complete"
      using that v(4) u(4) by (cases "v = []") (auto simp: butlast_append ck_match_def)
    ultimately show ?thesis using v(4) False unfolding agrees_def
      by (auto intro!: exI [of _ "u @ v"] exI [of _ "d @ d'"])
  qed
qed

lemma body_agrees:
  assumes "ck_match s st" "fpm_http_http_body e buf st c = (a, rest, st', c')"
  shows "agrees e s c buf (Some a) rest st' c'"
  using assms
proof (induction e buf st c arbitrary: s rule: fpm_http_http_body.induct)
  case (1 e buf st c)
  show ?case
  proof (cases "buf = []")
    case True
    then show ?thesis using "1.prems" agreesI(2) [of buf "[]" "[]" e c "[]" c s st] delivered_simps(1)
      by (simp add: fpm_http_http_body.simps)
  next
    case False
    obtain b r st1 c1 where t: "body_turn e buf st c = (b, r, st1, c1)" by (cases "body_turn e buf st c") auto
    note g = turn_agrees [OF "1.prems"(1) False t]
    show ?thesis
    proof (cases b)
      case None
      then have "fpm_http_http_body e r st1 c1 = (a, rest, st', c')"
        using "1.prems"(2) False t by (simp add: fpm_http_http_body.simps [of e buf])
      then show ?thesis using agrees_then [OF g [unfolded None]] "1.IH" [OF False t [symmetric] _ refl refl] None by auto
    next
      case (Some b')
      then show ?thesis using "1.prems"(2) False t g by (simp add: fpm_http_http_body.simps [of e buf])
    qed
  qed
qed

section \<open>The grammar of a chunked body\<close>

text \<open>The pieces of a body as the connection delivers them, until the parser answers.\<close>

fun feed :: "reply_env \<Rightarrow> bytes list \<Rightarrow> http_state \<Rightarrow> reply \<Rightarrow> body_answer \<times> bytes \<times> http_state \<times> reply" where
  "feed e [] st c = (Body_More, [], st, c)"
| "feed e (p # ps) st c =
     (case fpm_http_http_body e p st c of
        (Body_More, rest, st', c') \<Rightarrow> feed e ps st' c'
      | (a, rest, st', c') \<Rightarrow> (a, rest @ concat ps, st', c'))"

inductive trailer :: "bytes \<Rightarrow> bool" where
  blank: "l = [] \<or> l = [CR] \<Longrightarrow> trailer (l @ [LF])"
| field: "LF \<notin> set l \<Longrightarrow> l \<noteq> [] \<Longrightarrow> l \<noteq> [CR] \<Longrightarrow> length l \<le> LINE_MAX \<Longrightarrow> trailer t \<Longrightarrow> trailer (l @ LF # t)"

text \<open>
  A body and its payload: size lines, each followed by as many bytes and a line end, then
  the size zero and the trailer section. The flag asks that size lines are not longer
  than the parser accumulates.
\<close>

inductive chunked :: "bool \<Rightarrow> bytes \<Rightarrow> bytes \<Rightarrow> bool" for short :: bool where
  last: "LF \<notin> set l \<Longrightarrow> chunk_size l = Some 0 \<Longrightarrow> (if short then length l \<le> LINE_MAX else True) \<Longrightarrow> trailer t \<Longrightarrow>
    chunked short (l @ LF # t) []"
| more: "LF \<notin> set l \<Longrightarrow> chunk_size l = Some (length data) \<Longrightarrow> data \<noteq> [] \<Longrightarrow>
    (if short then length l \<le> LINE_MAX else True) \<Longrightarrow> chunked short s d \<Longrightarrow>
    chunked short (l @ LF # data @ CR # LF # s) (data @ d)"

lemma crlf_distinct [simp]: "CR \<noteq> LF" "LF \<noteq> CR"
  by (simp_all add: CR_def LF_def)

lemma k_long_mono: "k_long s \<Longrightarrow> k_long (fold ck_byte xs s)"
proof (induction xs arbitrary: s)
  case (Cons x xs)
  have "k_long (ck_byte x s)" using Cons.prems by (auto simp: ck_byte_def split: body_mode.split option.split)
  then show ?case using Cons.IH by simp
qed simp

lemma feed_agrees:
  assumes "ck_match s st" "feed e ps st c = (a, rest, st', c')"
  shows "agrees e s c (concat ps) (Some a) rest st' c'"
  using assms
proof (induction ps arbitrary: s st c)
  case Nil
  then show ?case using agreesI(2) [of "[]" "[]" "[]" e c "[]" c s st] delivered_simps(1) by simp
next
  case (Cons p ps)
  obtain b r st1 c1 where t: "fpm_http_http_body e p st c = (b, r, st1, c1)" by (cases "fpm_http_http_body e p st c") auto
  note g = body_agrees [OF Cons.prems(1) t]
  show ?case
  proof (cases b)
    case Body_More
    then have f: "feed e ps st1 c1 = (a, rest, st', c')" using Cons.prems(2) t by simp
    have "agrees e s c (p @ concat ps) None (concat ps) st1 c1"
      using g unfolding agrees_def Body_More by auto
    from agrees_then [OF this Cons.IH [OF _ f]] show ?thesis by simp
  next
    case Body_Complete
    then have "a = Body_Complete" "rest = r @ concat ps" "st' = st1" "c' = c1" using Cons.prems(2) t by auto
    then show ?thesis using g unfolding agrees_def Body_Complete by auto
  next
    case Body_Error
    then have a: "a = Body_Error" using Cons.prems(2) t by auto
    have "k_ans (fold ck_byte p s) = Body_Error \<or> k_long (fold ck_byte p s)"
      using g unfolding agrees_def Body_Error by simp
    then have "k_ans (fold ck_byte (p @ concat ps) s) = Body_Error \<or> k_long (fold ck_byte (p @ concat ps) s)"
      using k_long_mono [of "fold ck_byte p s" "concat ps"] ck_over [of "fold ck_byte p s" "concat ps"] by auto
    then show ?thesis by (simp add: agrees_def a)
  qed
qed

lemma trailer_reads:
  "trailer t \<Longrightarrow> k_mode z = BODY_TRAILERS \<Longrightarrow> k_line z = [] \<Longrightarrow> k_ans z = Body_More \<Longrightarrow>
   k_ans (fold ck_byte t z) = Body_Complete \<and> k_out (fold ck_byte t z) = k_out z \<and> k_long (fold ck_byte t z) = k_long z \<and>
   t \<noteq> [] \<and> k_ans (fold ck_byte (butlast t) z) = Body_More"
proof (induction t arbitrary: z rule: trailer.induct)
  case (blank l)
  then show ?case using ck_trailer_text(1) [of l z] ck_steps(5) [of "z\<lparr>k_line := l\<rparr>"] ck_steps(5) [of z]
    by (auto simp: LINE_MAX_def)
next
  case (field l t)
  have "fold ck_byte (l @ [LF]) z = z\<lparr>k_ans := Body_More, k_line := []\<rparr>"
    using ck_trailer_text(1) [of l z] ck_steps(5) [of "z\<lparr>k_line := l\<rparr>"] field.hyps field.prems by simp
  then show ?case using field.IH [of "z\<lparr>k_ans := Body_More, k_line := []\<rparr>"] field.prems by (simp add: butlast_append)
qed

lemma size_line_reads:
  assumes "LF \<notin> set l" "chunk_size l = Some n" "k_mode z = BODY_CHUNK_SIZE" "k_line z = []" "k_ans z = Body_More"
  shows "\<exists>g. fold ck_byte (l @ [LF]) z = z\<lparr>k_long := g, k_mode := if n > 0 then BODY_CHUNK_DATA else BODY_TRAILERS,
    k_rem := n, k_line := []\<rparr> \<and> (length l \<le> LINE_MAX \<longrightarrow> g = k_long z)"
proof (cases "l = []")
  case True
  then show ?thesis using assms(2) by (simp add: chunk_size_def)
next
  case False
  then show ?thesis
    using ck_size_text [OF assms(1, 5, 3)] ck_steps(2) [of "z\<lparr>k_line := l, k_long := _\<rparr>"] assms
    by (intro exI [of _ "k_long z \<or> LINE_MAX < length l"]) auto
qed

lemma chunked_reads:
  assumes "chunked b s d" "k_mode z = BODY_CHUNK_SIZE" "k_line z = []" "k_ans z = Body_More"
  shows "k_ans (fold ck_byte s z) = Body_Complete \<and> k_out (fold ck_byte s z) = k_out z @ d \<and>
    (b \<longrightarrow> k_long (fold ck_byte s z) = k_long z) \<and> s \<noteq> [] \<and> k_ans (fold ck_byte (butlast s) z) = Body_More"
  using assms
proof (induction s d arbitrary: z rule: chunked.induct)
  case (last l t)
  then obtain g where g: "fold ck_byte (l @ [LF]) z = z\<lparr>k_long := g, k_mode := BODY_TRAILERS, k_rem := 0, k_line := []\<rparr>"
      "b \<longrightarrow> g = k_long z"
    using size_line_reads [of l 0 z] by (auto split: if_splits)
  then show ?case using trailer_reads [OF last.hyps(4), of "z\<lparr>k_long := g, k_mode := BODY_TRAILERS, k_rem := 0, k_line := []\<rparr>"]
      last.prems by (cases b) (simp_all add: butlast_append)
next
  case (more l data s d)
  obtain g where g: "fold ck_byte (l @ [LF]) z =
      z\<lparr>k_long := g, k_mode := BODY_CHUNK_DATA, k_rem := length data, k_line := []\<rparr>" "b \<longrightarrow> g = k_long z"
    using size_line_reads [of l "length data" z] more by (auto split: if_splits)
  let ?y = "z\<lparr>k_long := g, k_mode := BODY_CHUNK_SIZE, k_rem := 0, k_line := [], k_out := k_out z @ data\<rparr>"
  have y: "fold ck_byte (data @ [CR, LF]) (fold ck_byte (l @ [LF]) z) = ?y"
    using ck_data [of "fold ck_byte (l @ [LF]) z" data] more.hyps(3) more.prems g
    by (simp add: ck_steps(3))
  have ih: "k_ans (fold ck_byte s ?y) = Body_Complete" "k_out (fold ck_byte s ?y) = k_out z @ data @ d"
      "b \<longrightarrow> k_long (fold ck_byte s ?y) = g" "s \<noteq> []" "k_ans (fold ck_byte (butlast s) ?y) = Body_More"
    using more.IH [of ?y] more.prems by auto
  have "fold ck_byte ((l @ [LF]) @ (data @ [CR, LF]) @ t) z = fold ck_byte t ?y" for t
    using arg_cong [OF y, of "fold ck_byte t"] by (simp only: fold_append o_apply)
  moreover have "butlast (l @ LF # data @ CR # LF # s) = (l @ [LF]) @ (data @ [CR, LF]) @ butlast s"
      "l @ LF # data @ CR # LF # s = (l @ [LF]) @ (data @ [CR, LF]) @ s"
    using ih(4) by (simp_all add: butlast_append)
  ultimately have r: "fold ck_byte (l @ LF # data @ CR # LF # s) z = fold ck_byte s ?y"
      "fold ck_byte (butlast (l @ LF # data @ CR # LF # s)) z = fold ck_byte (butlast s) ?y"
    by metis+
  show ?case unfolding r using ih g(2) by auto
qed

lemma up_to_LF:
  assumes "LF \<in> set s"
  obtains l r where "s = l @ LF # r" "LF \<notin> set l"
  using split_list_first [OF assms] by blast

lemma trailer_sound:
  assumes "k_ans (fold ck_byte s z) = Body_Complete" "k_mode z = BODY_TRAILERS" "k_line z = []" "k_ans z = Body_More"
  shows "\<exists>t r. s = t @ r \<and> trailer t \<and> k_out (fold ck_byte s z) = k_out z"
  using assms
proof (induction "length s" arbitrary: s z rule: less_induct)
  case less
  have "LF \<in> set s"
  proof (rule ccontr)
    assume n: "LF \<notin> set s"
    show False using ck_trailer_text [OF n less.prems(4, 2)] less.prems
      by (cases "length (k_line z @ s) \<le> LINE_MAX"; cases "s = []") auto
  qed
  then obtain l r where s: "s = l @ LF # r" "LF \<notin> set l" by (rule up_to_LF)
  have l: "length l \<le> LINE_MAX"
  proof (rule ccontr)
    assume "\<not> length l \<le> LINE_MAX"
    then have "k_ans (fold ck_byte l z) = Body_Error" using ck_trailer_text(2) [OF s(2) less.prems(4, 2)] less.prems(3)
      by (cases "l = []") auto
    then show False using less.prems(1) by (simp add: s ck_over [of "fold ck_byte l z" "LF # r", simplified])
  qed
  then have f: "fold ck_byte s z = fold ck_byte r (ck_byte LF (z\<lparr>k_line := l\<rparr>))"
    using ck_trailer_text(1) [OF s(2) less.prems(4, 2)] less.prems(3) by (simp add: s)
  show ?case
  proof (cases "l = [] \<or> l = [CR]")
    case True
    then have "ck_byte LF (z\<lparr>k_line := l\<rparr>) = z\<lparr>k_line := [], k_ans := Body_Complete\<rparr>"
      using ck_steps(5) [of "z\<lparr>k_line := l\<rparr>"] less.prems by simp
    then have "k_out (fold ck_byte s z) = k_out z" by (simp add: f ck_over)
    moreover have "s = (l @ [LF]) @ r" by (simp add: s)
    ultimately show ?thesis using trailer.blank [OF True] by blast
  next
    case False
    then have b: "ck_byte LF (z\<lparr>k_line := l\<rparr>) = z\<lparr>k_line := [], k_ans := Body_More\<rparr>"
      using ck_steps(5) [of "z\<lparr>k_line := l\<rparr>"] less.prems by simp
    have "\<exists>t r'. r = t @ r' \<and> trailer t \<and> k_out (fold ck_byte r (z\<lparr>k_line := [], k_ans := Body_More\<rparr>)) =
        k_out (z\<lparr>k_line := [], k_ans := Body_More\<rparr>)"
      using less.prems(1) [unfolded f b] less.prems(2-) by (intro less.hyps) (simp_all add: s)
    then obtain t r' where t: "r = t @ r'" "trailer t" "k_out (fold ck_byte s z) = k_out z" by (auto simp: f b)
    then show ?thesis using trailer.field [OF s(2) _ _ l t(2)] False by (intro exI [of _ "l @ LF # t"] exI [of _ r']) (simp add: s)
  qed
qed

lemma data_sound:
  assumes "k_ans (fold ck_byte r z) = Body_Complete" "k_mode z = BODY_CHUNK_DATA" "k_line z = []" "k_ans z = Body_More"
    "k_rem z = n" "0 < n"
  shows "\<exists>r3. length (take n r) = n \<and> r = take n r @ CR # LF # r3 \<and>
    fold ck_byte r z = fold ck_byte r3 (z\<lparr>k_mode := BODY_CHUNK_SIZE, k_rem := 0, k_line := [], k_out := k_out z @ take n r\<rparr>)"
proof -
  have "n \<le> length r"
  proof (rule ccontr)
    assume "\<not> n \<le> length r"
    then show False using ck_data [OF assms(4, 2), of r] assms(1, 4, 5) by (cases "r = []") auto
  qed
  then have l: "length (take n r) = n" by simp
  then have c: "fold ck_byte (take n r) z = z\<lparr>k_mode := BODY_CHUNK_CRLF, k_rem := 0, k_out := k_out z @ take n r\<rparr>"
    using ck_data [OF assms(4, 2), of "take n r"] assms(5, 6) by simp
  let ?c = "z\<lparr>k_mode := BODY_CHUNK_CRLF, k_rem := 0, k_out := k_out z @ take n r\<rparr>"
  have f: "fold ck_byte r z = fold ck_byte (drop n r) ?c"
    using c fold_append [of ck_byte "take n r" "drop n r"] by simp
  note steps = ck_steps(3) [of ?c] ck_steps(3) [of "?c\<lparr>k_line := [CR]\<rparr>"]
  obtain r3 where r3: "drop n r = CR # LF # r3"
  proof (cases "drop n r")
    case Nil
    then show ?thesis using assms(1, 4) f by simp
  next
    case (Cons x r')
    then have x: "x = CR" using assms(1, 3, 4) f steps(1) [of x] by (auto simp: ck_over split: if_splits)
    show ?thesis
    proof (cases r')
      case Nil
      then show ?thesis using assms(1, 3, 4) f steps(1) Cons x by simp
    next
      case (Cons y r3)
      then have "y = LF" using assms(1, 3, 4) f steps(1) [of x] steps(2) [of y] \<open>drop n r = x # r'\<close> x
        by (auto simp: ck_over split: if_splits)
      then show ?thesis using that Cons \<open>drop n r = x # r'\<close> x by simp
    qed
  qed
  have "ck_byte LF (ck_byte CR ?c) = z\<lparr>k_mode := BODY_CHUNK_SIZE, k_rem := 0, k_line := [], k_out := k_out z @ take n r\<rparr>"
    using steps(1) [of CR] steps(2) [of LF] assms(3, 4) by simp
  then show ?thesis using l f r3 append_take_drop_id [of n r, symmetric] by (intro exI [of _ r3]) simp
qed

lemma chunked_sound:
  assumes "k_ans (fold ck_byte s z) = Body_Complete" "k_mode z = BODY_CHUNK_SIZE" "k_line z = []" "k_ans z = Body_More"
  shows "\<exists>t r d. s = t @ r \<and> chunked False t d \<and> k_out (fold ck_byte s z) = k_out z @ d"
  using assms
proof (induction "length s" arbitrary: s z rule: less_induct)
  case less
  have "LF \<in> set s"
  proof (rule ccontr)
    assume "LF \<notin> set s"
    then show False using ck_size_text [of s z] less.prems by (cases "s = []") auto
  qed
  then obtain l r where s: "s = l @ LF # r" "LF \<notin> set l" by (rule up_to_LF)
  define w where "w = fold ck_byte l z"
  have w: "k_mode w = BODY_CHUNK_SIZE" "k_line w = l" "k_ans w = Body_More"
    using ck_size_text [of l z] s(2) less.prems by (cases "l = []"; simp add: w_def)+
  obtain n where n: "chunk_size l = Some n"
    using less.prems(1) ck_steps(2) [OF w(3, 1)] by (cases "chunk_size l") (auto simp: s w_def [symmetric] w(2) ck_over)
  from size_line_reads [OF s(2) n less.prems(2-4)] obtain g where
    g: "fold ck_byte (l @ [LF]) z = z\<lparr>k_long := g, k_mode := if n > 0 then BODY_CHUNK_DATA else BODY_TRAILERS,
          k_rem := n, k_line := []\<rparr>" by blast
  let ?z = "z\<lparr>k_long := g, k_mode := if n > 0 then BODY_CHUNK_DATA else BODY_TRAILERS, k_rem := n, k_line := []\<rparr>"
  have f: "fold ck_byte s z = fold ck_byte r ?z" using g by (simp add: s)
  show ?case
  proof (cases "n = 0")
    case True
    then have "\<exists>t r'. r = t @ r' \<and> trailer t \<and> k_out (fold ck_byte r ?z) = k_out ?z"
      using less.prems by (intro trailer_sound) (simp_all add: f)
    then obtain t r' where t: "r = t @ r'" "trailer t" "k_out (fold ck_byte s z) = k_out z" by (auto simp: f)
    then show ?thesis using chunked.last [OF s(2) _ _ t(2), of False] n True
      by (intro exI [of _ "l @ LF # t"] exI [of _ r'] exI [of _ "[]"]) (simp add: s)
  next
    case False
    have "\<exists>r3. length (take n r) = n \<and> r = take n r @ CR # LF # r3 \<and>
        fold ck_byte r ?z = fold ck_byte r3 (?z\<lparr>k_mode := BODY_CHUNK_SIZE, k_rem := 0, k_line := [], k_out := k_out z @ take n r\<rparr>)"
      using data_sound [of r ?z n] less.prems False by (simp add: f)
    then obtain r3 where r3: "length (take n r) = n" "r = take n r @ CR # LF # r3"
        "fold ck_byte s z = fold ck_byte r3 (?z\<lparr>k_mode := BODY_CHUNK_SIZE, k_rem := 0, k_line := [], k_out := k_out z @ take n r\<rparr>)"
      by (auto simp: f)
    let ?y = "?z\<lparr>k_mode := BODY_CHUNK_SIZE, k_rem := 0, k_line := [], k_out := k_out z @ take n r\<rparr>"
    have "length r3 < length s" using arg_cong [OF r3(2), of length] by (simp add: s)
    moreover have "k_ans (fold ck_byte r3 ?y) = Body_Complete" using less.prems(1) r3(3) by simp
    ultimately have "\<exists>t r' d. r3 = t @ r' \<and> chunked False t d \<and> k_out (fold ck_byte r3 ?y) = k_out ?y @ d"
      using less.prems(4) by (intro less.hyps) simp_all
    then obtain t r' d where t: "r3 = t @ r'" "chunked False t d" "k_out (fold ck_byte s z) = k_out z @ take n r @ d"
      using r3(3) by auto
    have "chunked False (l @ LF # take n r @ CR # LF # t) (take n r @ d)"
      using chunked.more [OF s(2) _ _ _ t(2), of "take n r"] n r3(1) False by (cases "r = []") auto
    then show ?thesis using t r3(2)
      by (intro exI [of _ "l @ LF # take n r @ CR # LF # t"] exI [of _ r'] exI [of _ "take n r @ d"]) (simp add: s)
  qed
qed

text \<open>Two prefixes of a stream that end where the reading completes are the same.\<close>

lemma complete_prefix_unique:
  assumes "u @ r = v @ r'" "k_ans (fold ck_byte u z) = Body_Complete" "k_ans (fold ck_byte (butlast u) z) = Body_More"
    "k_ans (fold ck_byte v z) = Body_Complete" "k_ans (fold ck_byte (butlast v) z) = Body_More"
  shows "u = v" "r = r'"
proof -
  have x: "w = []" if "k_ans (fold ck_byte a z) = Body_Complete" "k_ans (fold ck_byte (butlast (a @ w)) z) = Body_More" for a w
  proof (rule ccontr)
    assume "w \<noteq> []"
    then have "k_ans (fold ck_byte (butlast (a @ w)) z) = Body_Complete"
      using that(1) by (simp add: butlast_append ck_over)
    then show False using that(2) by simp
  qed
  obtain w where "u = v @ w \<or> v = u @ w" using assms(1) by (metis append_eq_append_conv2)
  then show "u = v" using x assms(2-) by auto
  then show "r = r'" using assms(1) by simp
qed

lemma chunked_feed:
  assumes "body st = BODY_CHUNK_SIZE" "line st = []"
  shows "(chunked True s d \<and> concat ps = s @ r \<longrightarrow>
      (\<exists>st' c'. feed e ps st c = (Body_Complete, r, st', c') \<and> delivered e c d c')) \<and>
    (\<forall>rest st' c'. feed e ps st c = (Body_Complete, rest, st', c') \<longrightarrow>
      (\<exists>s d. concat ps = s @ rest \<and> chunked False s d \<and> delivered e c d c'))"
proof -
  define z where "z = \<lparr>k_mode = BODY_CHUNK_SIZE, k_rem = remaining st, k_line = [], k_out = [], k_ans = Body_More, k_long = False\<rparr>"
  have m: "ck_match z st" using assms by (simp add: z_def ck_match_def)
  have z: "k_mode z = BODY_CHUNK_SIZE" "k_line z = []" "k_ans z = Body_More" "k_out z = []" "\<not> k_long z" by (simp_all add: z_def)
  obtain a rest st' c' where f: "feed e ps st c = (a, rest, st', c')" by (cases "feed e ps st c") auto
  note g = feed_agrees [OF m f]
  have complete: "a = Body_Complete \<and> rest = r \<and> delivered e c d c'" if c: "chunked True s d" "concat ps = s @ r"
  proof -
    note k = chunked_reads [OF c(1) z(1-3)]
    have w: "k_ans (fold ck_byte (concat ps) z) = Body_Complete" "\<not> k_long (fold ck_byte (concat ps) z)"
      using k z(5) by (simp_all add: c(2) ck_over)
    then have a: "a = Body_Complete" using g by (cases a) (auto simp: agrees_def ck_match_def)
    then obtain u d' where u: "concat ps = u @ rest" "delivered e c d' c'" "k_out (fold ck_byte u z) = d'"
        "k_ans (fold ck_byte u z) = Body_Complete" "k_ans (fold ck_byte (butlast u) z) = Body_More"
      using g z(4) unfolding agrees_def by auto
    have "u = s" "rest = r" using complete_prefix_unique [of u rest s r z] u k c(2) by auto
    then show ?thesis using a u k z(4) by simp
  qed
  have sound: "\<exists>s d. concat ps = s @ rest \<and> chunked False s d \<and> delivered e c d c'" if a: "a = Body_Complete"
  proof -
    obtain u d' where u: "concat ps = u @ rest" "delivered e c d' c'" "k_out (fold ck_byte u z) = d'"
        "k_ans (fold ck_byte u z) = Body_Complete" "k_ans (fold ck_byte (butlast u) z) = Body_More"
      using g a z(4) unfolding agrees_def by auto
    obtain t r' d where t: "u = t @ r'" "chunked False t d" "d' = d" using chunked_sound [OF u(4) z(1-3)] u(3) z(4) by auto
    note k = chunked_reads [OF t(2) z(1-3)]
    have "u = t" using complete_prefix_unique(1) [of u "[]" t r' z] u k t(1) by auto
    then show ?thesis using u t by blast
  qed
  show ?thesis using complete sound f by auto
qed


lemma hex_val_hex_char: "k < 16 \<Longrightarrow> hex_val (hex_char k) = Some k"
proof -
  have "\<forall>k \<in> set [0..<16]. hex_val (hex_char k) = Some k" by code_simp
  then show "k < 16 \<Longrightarrow> hex_val (hex_char k) = Some k" by simp
qed

lemma size_digits_hex: "n \<le> SIZE_MAX \<Longrightarrow> size_digits 0 (hex n @ r) = size_digits n r"
proof (induction n arbitrary: r rule: hex.induct)
  case (1 n)
  show ?case
  proof (cases "n < 16")
    case True
    then show ?thesis by (simp add: hex.simps [of n] hex_val_hex_char)
  next
    case False
    have d: "n div 16 \<le> SIZE_MAX div 16" using "1.prems" by (rule div_le_mono)
    then have "n div 16 \<le> SIZE_MAX" by (meson div_le_dividend le_trans)
    then have "size_digits 0 (hex n @ r) = size_digits (n div 16) (hex_char (n mod 16) # r)"
      using "1.IH" [OF False] False by (simp add: hex.simps [of n])
    then show ?thesis using d by (simp add: hex_val_hex_char)
  qed
qed

text \<open>A size written in hexadecimal, with any extension, is read back.\<close>

lemma chunk_size_hex:
  assumes "n \<le> SIZE_MAX" "size_ext r"
  shows "chunk_size (hex n @ r) = Some n"
proof -
  have "size_digits n r = Some (n, r)"
    using assms(2) by (cases r) (auto simp: size_ext_def hex_val_def isdigit_def CR_def is_blank_def less_eq_char_def)
  moreover have "hex n \<noteq> []" by (subst hex.simps) simp
  ultimately show ?thesis using assms by (simp add: chunk_size_def size_digits_hex)
qed

definition sample_chunks :: "bytes list" where
  "sample_chunks = [''4;x=1'' @ [CR, LF] @ ''Wi'', ''ki'' @ [CR], [LF] @ ''0'' @ [CR, LF, CR, LF] @ ''GET'']"

definition sample_state :: http_state where
  "sample_state = fpm_http_http_state_reset\<lparr>body := BODY_CHUNK_SIZE\<rparr>"


section \<open>The parser state of a connection that ends\<close>

abbreviation state_freed :: "http_upstream \<Rightarrow> bool" where
  "state_freed up \<equiv> dead (base up) \<longrightarrow> http up = None"

lemma complete_frees: "state_freed (fpm_http_http_complete e up)"
  by (simp add: fpm_http_http_complete_def Let_def fpm_http_http_drop_def split: option.split)

lemma after_body_frees: "\<not> dead (base up) \<Longrightarrow> state_freed (fst (after_body e up r))"
  using complete_frees by (auto simp: after_body_def Let_def http_fail_def split: prod.split body_answer.split)

lemma http_turn_frees:
  assumes "\<not> dead (base up)"
  shows "state_freed (fst (http_turn e buf up))"
  using assms complete_frees after_body_frees
  by (auto simp: http_turn_def Let_def http_fail_def split: option.split head_result.split)

lemma http_loop_frees: "state_freed up \<Longrightarrow> state_freed (http_loop k e buf up)"
proof (induction k arbitrary: buf up)
  case (Suc k)
  show ?case
  proof (cases "buf = [] \<or> dead (base up)")
    case False
    then show ?thesis using Suc.IH http_turn_frees [of up e buf] by (simp add: case_prod_beta)
  qed (use Suc.prems in auto)
qed simp

text \<open>
  C39. However the bytes of an answer end a connection to an http-direct target (complete,
  malformed, failed or closed), its parser state is freed with it. The one exception is
  the idle timeout: that path drops the connection and leaves the state allocated.
\<close>

theorem only_idle_timeout_keeps_state:
  assumes "\<not> dead (base up)"
  shows "(dead (base (fpm_http_http_readcb e (Read buf) up)) \<longrightarrow> http (fpm_http_http_readcb e (Read buf) up) = None) \<and>
    (dead (base (fpm_http_http_readcb e Eof up)) \<longrightarrow> http (fpm_http_http_readcb e Eof up) = None) \<and>
    (dead (base (fpm_http_http_readcb e Read_Error up)) \<longrightarrow> http (fpm_http_http_readcb e Read_Error up) = None) \<and>
    (\<not> busy (base up) \<and> http up = Some st \<longrightarrow>
      dead (base (fpm_http_http_readcb e Timed_Out up)) \<and> http (fpm_http_http_readcb e Timed_Out up) = Some st)"
  using http_loop_frees [of up "length buf" e buf] complete_frees [of e up] assms
  by (auto simp: fpm_http_http_readcb_def fpm_http_http_data_def http_fail_def fpm_http_upstream_drop_def split: option.split)

definition sample_http :: http_upstream where
  "sample_http = \<lparr>base = sample_upstream\<lparr>busy := False, current := None\<rparr>, http = Some fpm_http_http_state_reset, switched = None\<rparr>"

theorem only_idle_timeout_keeps_state_witness:
  "dead (base (fpm_http_http_readcb sample_upstream_env Timed_Out sample_http)) \<and>
   http (fpm_http_http_readcb sample_upstream_env Timed_Out sample_http) = Some fpm_http_http_state_reset \<and>
   http (fpm_http_http_readcb sample_upstream_env Eof sample_http) = None"
proof -
  have h: "\<not> dead (base sample_http)" "\<not> busy (base sample_http)" "http sample_http = Some fpm_http_http_state_reset"
    by (simp_all add: sample_http_def sample_upstream_def)
  have "dead (base (fpm_http_http_readcb sample_upstream_env Eof sample_http))" by code_simp
  then show ?thesis using only_idle_timeout_keeps_state [OF h(1), of sample_upstream_env "[]" fpm_http_http_state_reset] h(2, 3)
    by blast
qed

text \<open>
  A header name that ends in a NUL byte is not the length header for the framing, but is
  forwarded as one.
\<close>

lemma nul_name_forwarded:
  "let ls = block_lines (''HTTP/1.1 200 OK'' @ crlf @ ''Content-Length'' @ [NUL] @ '': 5'' @ crlf) in
   \<exists>h. head_scan_lines ls = Some h \<and> i_length h = None \<and>
     cgi_block h ls = ''Status: 200'' @ crlf @ ''Content-Length: 5'' @ crlf"
proof -
  let ?ls = "block_lines (''HTTP/1.1 200 OK'' @ crlf @ ''Content-Length'' @ [NUL] @ '': 5'' @ crlf)"
  let ?h = "\<lparr>i_code = 200, i_length = None, i_chunked = False, i_close = False\<rparr>"
  have "head_scan_lines ?ls = Some ?h" "cgi_block ?h ?ls = ''Status: 200'' @ crlf @ ''Content-Length: 5'' @ crlf"
    by code_simp+
  then show ?thesis unfolding Let_def by (intro exI [of _ ?h]) simp
qed

end
