(* ===== verification/Http_Fcgi.thy ===== *)
theory Http_Fcgi
  imports Http_Acl Http_Request Fastcgi
begin

text \<open>
  The gateway's FastCGI encoder (\<open>fpm_http_fcgi.c\<close>): records, parameters that never
  straddle two records, and the request the gateway builds from what libevent parsed.
  The main lemmas compose it with the worker's decoder of theory \<open>Fastcgi\<close>.
\<close>

section \<open>Records and parameters\<close>

definition FCGI_MAX_RECORD_LEN :: nat where "FCGI_MAX_RECORD_LEN = 65528"

definition fpm_http_fcgi_record :: "bytes \<Rightarrow> nat \<Rightarrow> bytes \<Rightarrow> bytes" where
  "fpm_http_fcgi_record out ty data =
     (let len = length data; pad = (8 - len mod 8) mod 8 in
      out @ map char_of [FCGI_VERSION_1, ty, 0, 1, len div 256, len, pad, 0] @ data @ replicate pad NUL)"

text \<open>The first of four length bytes is \<open>(len >> 24) | 0x80\<close>, cut to a byte.\<close>

definition fpm_http_fcgi_len :: "bytes \<Rightarrow> nat \<Rightarrow> bytes" where
  "fpm_http_fcgi_len out len =
     (if len < 0x80 then out @ [char_of len]
      else out @ map char_of [len div 2 ^ 24 mod 128 + 128, len div 2 ^ 16, len div 2 ^ 8, len])"

text \<open>\<open>c_params\<close> is \<open>None\<close> for an unallocated string.\<close>

record fpm_http_conn =
  c_params :: "bytes option"
  c_out :: bytes
  params_oversize :: bool
  peer_addr :: string
  peer_port :: nat
  fwd :: fpm_http_forwarded_result_s
  c_remote_addr :: string
  c_remote_user :: string
  c_request_id :: "string option"

definition fpm_http_param :: "string \<Rightarrow> string \<Rightarrow> fpm_http_conn \<Rightarrow> fpm_http_conn" where
  "fpm_http_param name value c =
     (let name_len = length name; value_len = length value;
          pair_len = (if name_len < 0x80 then 1 else 4) + (if value_len < 0x80 then 1 else 4) + name_len + value_len
      in
      if pair_len > FCGI_MAX_RECORD_LEN then c\<lparr>params_oversize := True\<rparr>
      else
        let c = (case c_params c of
                   Some s \<Rightarrow>
                     if length s + pair_len > FCGI_MAX_RECORD_LEN
                     then c\<lparr>c_out := fpm_http_fcgi_record (c_out c) FCGI_PARAMS s, c_params := None\<rparr> else c
                 | None \<Rightarrow> c);
            s = (case c_params c of Some s \<Rightarrow> s | None \<Rightarrow> [])
        in c\<lparr>c_params := Some (fpm_http_fcgi_len (fpm_http_fcgi_len s name_len) value_len @ name @ value)\<rparr>)"

abbreviation fpm_http_params :: "(string \<times> string) list \<Rightarrow> fpm_http_conn \<Rightarrow> fpm_http_conn" where
  "fpm_http_params ps c \<equiv> fold (\<lambda>(n, v). fpm_http_param n v) ps c"

section \<open>The request target\<close>

text \<open>What libevent parsed from the target, and the request.\<close>

record evhttp_uri =
  u_path :: "string option"
  u_query :: "string option"
  u_host :: "string option"

datatype evhttp_cmd_type =
  EVHTTP_REQ_GET | EVHTTP_REQ_POST | EVHTTP_REQ_HEAD | EVHTTP_REQ_PUT | EVHTTP_REQ_DELETE
| EVHTTP_REQ_OPTIONS | EVHTTP_REQ_TRACE | EVHTTP_REQ_CONNECT | EVHTTP_REQ_PATCH | EVHTTP_REQ_OTHER

record evhttp_request =
  command :: evhttp_cmd_type
  r_uri :: string
  evuri :: "evhttp_uri option"
  major :: nat
  minor :: nat
  r_host :: "string option"
  input_headers :: "(string \<times> string) list"
  input_buffer :: bytes

text \<open>Whether \<open>evhttp_uri_set_path()\<close> takes the path is its first argument.\<close>

definition fpm_http_normalize_target :: "(string \<Rightarrow> bool) \<Rightarrow> evhttp_request \<Rightarrow> evhttp_request" where
  "fpm_http_normalize_target set_path_ok req =
     (case evuri req of
        None \<Rightarrow> req
      | Some u \<Rightarrow>
          if take 2 (r_uri req) \<noteq> ''//'' then req
          else
            let path = takeWhile (\<lambda>c. c \<noteq> CHR ''?'' \<and> c \<noteq> CHR ''#'') (r_uri req) in
            if set_path_ok path then req\<lparr>evuri := Some (u\<lparr>u_path := Some path, u_host := None\<rparr>)\<rparr> else req)"

definition fpm_http_request_path :: "evhttp_request \<Rightarrow> string option" where
  "fpm_http_request_path req =
     (case evuri req of
        None \<Rightarrow> None
      | Some u \<Rightarrow> if u_path u = Some [] \<and> u_host u \<noteq> None then Some ''/'' else u_path u)"

definition fpm_http_raw_path :: "evhttp_request \<Rightarrow> nat \<Rightarrow> string option" where
  "fpm_http_raw_path req path_size =
     (case fpm_http_request_path req of
        None \<Rightarrow> None
      | Some p \<Rightarrow> if length p = 0 \<or> length p \<ge> path_size then None else Some p)"

definition fpm_http_origin_form :: "evhttp_request \<Rightarrow> string" where
  "fpm_http_origin_form req =
     (case fpm_http_request_path req of
        None \<Rightarrow> r_uri req
      | Some path \<Rightarrow>
          path @ (case (case evuri req of Some u \<Rightarrow> u_query u | None \<Rightarrow> None) of
                    Some query \<Rightarrow> CHR ''?'' # query
                  | None \<Rightarrow> []))"

fun fpm_http_method_name :: "evhttp_cmd_type \<Rightarrow> string option" where
  "fpm_http_method_name EVHTTP_REQ_GET = Some ''GET''"
| "fpm_http_method_name EVHTTP_REQ_POST = Some ''POST''"
| "fpm_http_method_name EVHTTP_REQ_HEAD = Some ''HEAD''"
| "fpm_http_method_name EVHTTP_REQ_PUT = Some ''PUT''"
| "fpm_http_method_name EVHTTP_REQ_DELETE = Some ''DELETE''"
| "fpm_http_method_name EVHTTP_REQ_OPTIONS = Some ''OPTIONS''"
| "fpm_http_method_name EVHTTP_REQ_TRACE = Some ''TRACE''"
| "fpm_http_method_name EVHTTP_REQ_CONNECT = Some ''CONNECT''"
| "fpm_http_method_name EVHTTP_REQ_PATCH = Some ''PATCH''"
| "fpm_http_method_name EVHTTP_REQ_OTHER = None"

definition fpm_http_decoded_path_ok :: "bytes \<Rightarrow> bool" where
  "fpm_http_decoded_path_ok decoded \<longleftrightarrow>
     \<not> (decoded = [] \<or> hd decoded \<noteq> CHR ''/'' \<or> length decoded \<noteq> length (c_str decoded)) \<and>
     \<not> (contains_str ''/../'' decoded \<or>
        (length decoded \<ge> 3 \<and> drop (length decoded - 3) decoded = ''/..''))"

section \<open>The script of a request\<close>

text \<open>The offset of the first occurrence, as \<open>strstr()\<close> finds it.\<close>

fun find_sub :: "bytes \<Rightarrow> bytes \<Rightarrow> nat option" where
  "find_sub needle [] = (if needle = [] then Some 0 else None)"
| "find_sub needle (c # s) =
     (if take (length needle) (c # s) = needle then Some 0 else map_option Suc (find_sub needle s))"

record fpm_http_gateway =
  docroot :: string
  front_controller :: string
  front_controller_ok :: bool
  request_id_on :: bool

text \<open>
  What the build asks of its surroundings: libevent's decoder and header lookup, whether
  \<open>stat()\<close> finds no regular file, the local endpoint, whether a copy of the host can be
  allocated, and the version of PHP.
\<close>

record fcgi_env =
  uridecode :: "string \<Rightarrow> bytes option"
  find_header :: "(string \<times> string) list \<Rightarrow> string \<Rightarrow> string option"
  stat_missing :: "string \<Rightarrow> bool"
  local_addr :: string
  local_port :: string
  strdup_ok :: bool
  php_version :: string

text \<open>The file name and PATH_INFO; the hint is -1 when nothing was checked before.\<close>

definition script_of :: "fcgi_env \<Rightarrow> fpm_http_gateway \<Rightarrow> int \<Rightarrow> bytes \<Rightarrow> string \<times> string option" where
  "script_of e gw script_missing_hint decoded =
     (let path_info = map_option (\<lambda>i. i + 4) (find_sub ''.php/'' decoded);
          trailing_slash = (last decoded = CHR ''/'');
          filename = docroot gw @ (case path_info of Some i \<Rightarrow> take i decoded | None \<Rightarrow> decoded) @
                     (if trailing_slash then ''index.php'' else []);
          missing = (if path_info = None \<and> \<not> trailing_slash \<and> script_missing_hint \<ge> 0
                     then script_missing_hint \<noteq> 0 else stat_missing e filename)
      in if front_controller_ok gw \<and> missing then (docroot gw @ front_controller gw, Some decoded)
         else (filename, map_option (\<lambda>i. drop i decoded) path_info))"

section \<open>The parameters of a request\<close>

definition line_params ::
  "fcgi_env \<Rightarrow> fpm_http_gateway \<Rightarrow> evhttp_request \<Rightarrow> string \<Rightarrow> string \<times> string option \<Rightarrow> (string \<times> string) list" where
  "line_params e gw req method script =
     [(''REQUEST_METHOD'', method),
      (''SERVER_PROTOCOL'', ''HTTP/'' @ dec (major req) @ ''.'' @ dec (minor req)),
      (''GATEWAY_INTERFACE'', ''CGI/1.1''),
      (''SERVER_SOFTWARE'', ''PHP-FPM/'' @ php_version e),
      (''REQUEST_URI'', fpm_http_origin_form req),
      (''QUERY_STRING'', case (case evuri req of Some u \<Rightarrow> u_query u | None \<Rightarrow> None) of Some q \<Rightarrow> q | None \<Rightarrow> []),
      (''DOCUMENT_ROOT'', docroot gw),
      (''SCRIPT_NAME'', drop (length (docroot gw)) (fst script)),
      (''SCRIPT_FILENAME'', fst script)] @
     (case snd script of Some p \<Rightarrow> [(''PATH_INFO'', p)] | None \<Rightarrow> [])"

text \<open>The host without its port; a colon inside the brackets of an IPv6 literal is not one.\<close>

definition server_name :: "string \<Rightarrow> string" where
  "server_name host =
     (let after = rev (takeWhile (\<lambda>c. c \<noteq> CHR '':'') (rev host)) in
      if CHR '':'' \<in> set host \<and> CHR '']'' \<notin> set after then take (length host - length after - 1) host else host)"

definition peer_params :: "fpm_http_conn \<Rightarrow> (string \<times> string) list \<times> fpm_http_conn" where
  "peer_params c =
     (if peer_addr c = [] then ([], c)
      else
        let c = c\<lparr>c_remote_addr := take (FPM_HTTP_FORWARDED_ADDR_LEN - 1)
                    (if remote_addr (fwd c) \<noteq> [] then remote_addr (fwd c) else peer_addr c)\<rparr>
        in ([(''REMOTE_ADDR'', c_remote_addr c), (''REMOTE_PORT'', dec (peer_port c))], c))"

definition server_params :: "fcgi_env \<Rightarrow> fpm_http_conn \<Rightarrow> (string \<times> string) list" where
  "server_params e c =
     (let port = (if server_port (fwd c) \<noteq> [] then server_port (fwd c) else local_port e) in
      (if local_addr e \<noteq> [] then [(''SERVER_ADDR'', local_addr e)] else []) @
      (if port \<noteq> [] then [(''SERVER_PORT'', port)] else []) @
      [(''REQUEST_SCHEME'', scheme (fwd c))] @
      (if https (fwd c) then [(''HTTPS'', ''on'')] else []))"

definition auth_params :: "fcgi_env \<Rightarrow> evhttp_request \<Rightarrow> fpm_http_conn \<Rightarrow> (string \<times> string) list \<times> fpm_http_conn" where
  "auth_params e req c =
     (let (auth_type, user) = fpm_http_auth_parse (find_header e (input_headers req) ''Authorization'') in
      ((if auth_type \<noteq> [] then [(''AUTH_TYPE'', auth_type)] else []) @
       (if user \<noteq> [] then [(''REMOTE_USER'', user)] else []), c\<lparr>c_remote_user := user\<rparr>))"

fun header_params :: "bool \<Rightarrow> string option \<Rightarrow> (string \<times> string) list \<Rightarrow> (string \<times> string) list option" where
  "header_params id_on authority [] = Some []"
| "header_params id_on authority ((k, v) # hs) =
     (let v = (if strcaseeq k ''Host'' then (case authority of Some a \<Rightarrow> a | None \<Rightarrow> v) else v) in
      if id_on \<and> strcaseeq k ''X-Request-Id'' then header_params id_on authority hs
      else (case fpm_http_header_cgi_key k False FPM_HTTP_HEADER_CGI_KEY_LEN of
              Key_Refused \<Rightarrow> None
            | Key_None \<Rightarrow> header_params id_on authority hs
            | Key key \<Rightarrow> map_option (\<lambda>ps. (key, v) # ps) (header_params id_on authority hs)))"

definition host_params :: "string option \<Rightarrow> (string \<times> string) list \<Rightarrow> (string \<times> string) list" where
  "host_params authority headers =
     (case authority of
        Some a \<Rightarrow> if list_ex (\<lambda>(k, v). strcaseeq k ''Host'') headers then [] else [(''HTTP_HOST'', a)]
      | None \<Rightarrow> [])"

definition id_params :: "fpm_http_conn \<Rightarrow> (string \<times> string) list" where
  "id_params c = (case c_request_id c of Some (x # i) \<Rightarrow> [(''HTTP_X_REQUEST_ID'', x # i)] | _ \<Rightarrow> [])"

section \<open>Building the request\<close>

function stdin_records :: "bytes \<Rightarrow> bytes \<Rightarrow> bytes" where
  "stdin_records out data =
     (if data = [] then out
      else stdin_records (fpm_http_fcgi_record out FCGI_STDIN (take FCGI_MAX_RECORD_LEN data)) (drop FCGI_MAX_RECORD_LEN data))"
  by pat_completeness auto
termination
  by (relation "measure (\<lambda>(out, d). length d)") (auto simp: FCGI_MAX_RECORD_LEN_def)

declare stdin_records.simps [simp del]

definition begin_request :: bytes where
  "begin_request = map char_of [0, 1, 1, 0, 0, 0, 0, 0 :: nat]"

text \<open>The records after the parameters.\<close>

definition finish_request :: "bytes \<Rightarrow> fpm_http_conn \<Rightarrow> fpm_http_conn" where
  "finish_request body c =
     (let out = (case c_params c of Some s \<Rightarrow> fpm_http_fcgi_record (c_out c) FCGI_PARAMS s | None \<Rightarrow> c_out c);
          out = fpm_http_fcgi_record out FCGI_PARAMS [];
          out = stdin_records out body
      in c\<lparr>c_out := fpm_http_fcgi_record out FCGI_STDIN []\<rparr>)"

text \<open>All parameters, in the order of the code.\<close>

definition put_params ::
  "fcgi_env \<Rightarrow> fpm_http_gateway \<Rightarrow> evhttp_request \<Rightarrow> string \<Rightarrow> string \<times> string option \<Rightarrow> string option \<Rightarrow>
   (string \<times> string) list \<Rightarrow> fpm_http_conn \<Rightarrow> fpm_http_conn" where
  "put_params e gw req method script authority hs c =
     (let c = fpm_http_params (line_params e gw req method script) c;
          c = fpm_http_params (case r_host req of Some h \<Rightarrow> [(''SERVER_NAME'', server_name h)] | None \<Rightarrow> []) c;
          (ps, c) = peer_params c;
          c = fpm_http_params (ps @ server_params e c) c;
          (ps, c) = auth_params e req c;
          c = fpm_http_params (ps @ [(''CONTENT_LENGTH'', dec (length (input_buffer req)))]) c
      in fpm_http_params (hs @ host_params authority (input_headers req) @ id_params c) c)"

definition HTTP_BADREQUEST :: nat where "HTTP_BADREQUEST = 400"
definition FPM_HTTP_SERVICE_UNAVAIL :: nat where "FPM_HTTP_SERVICE_UNAVAIL = 503"

definition authority_of :: "evhttp_request \<Rightarrow> string option" where
  "authority_of req =
     (case fpm_http_absolute_authority (Some (r_uri req)) FPM_HTTP_AUTHORITY_MAX of Authority a \<Rightarrow> Some a | _ \<Rightarrow> None)"

definition fpm_http_build_request ::
  "fcgi_env \<Rightarrow> fpm_http_gateway \<Rightarrow> int \<Rightarrow> evhttp_request \<Rightarrow> fpm_http_conn \<Rightarrow> nat + fpm_http_conn" where
  "fpm_http_build_request e gw script_missing_hint req c =
     (case (fpm_http_method_name (command req), fpm_http_request_path req) of
        (Some method, Some path) \<Rightarrow>
          if path = [] then Inl HTTP_BADREQUEST
          else if list_ex (\<lambda>(k, v). length k > FPM_HTTP_HEADER_NAME_MAX) (input_headers req) then Inl HTTP_BADREQUEST
          else (case uridecode e path of
                  None \<Rightarrow> Inl HTTP_BADREQUEST
                | Some decoded \<Rightarrow>
                    if \<not> fpm_http_decoded_path_ok decoded then Inl HTTP_BADREQUEST
                    else if r_host req \<noteq> None \<and> \<not> strdup_ok e then Inl FPM_HTTP_SERVICE_UNAVAIL
                    else (case header_params (request_id_on gw) (authority_of req) (input_headers req) of
                            None \<Rightarrow> Inl HTTP_BADREQUEST
                          | Some hs \<Rightarrow>
                              let c = c\<lparr>c_out := fpm_http_fcgi_record (c_out c) FCGI_BEGIN_REQUEST begin_request\<rparr>;
                                  c = put_params e gw req method (script_of e gw script_missing_hint decoded) (authority_of req) hs c
                              in if params_oversize c then Inl HTTP_BADREQUEST
                                 else Inr (finish_request (input_buffer req) c)))
      | _ \<Rightarrow> Inl HTTP_BADREQUEST)"

section \<open>The pair codec\<close>

abbreviation rec :: "nat \<Rightarrow> bytes \<Rightarrow> bytes" where "rec \<equiv> fpm_http_fcgi_record []"

definition pair_enc :: "bytes \<times> bytes \<Rightarrow> bytes" where
  "pair_enc nv = fpm_http_fcgi_len (fpm_http_fcgi_len [] (length (fst nv))) (length (snd nv)) @ fst nv @ snd nv"

definition pairs_enc :: "(bytes \<times> bytes) list \<Rightarrow> bytes" where
  "pairs_enc g = concat (map pair_enc g)"

lemma pairs_enc_simps [simp]:
  "pairs_enc [] = []" "pairs_enc (p # g) = pair_enc p @ pairs_enc g" "pairs_enc (g @ h) = pairs_enc g @ pairs_enc h"
  by (simp_all add: pairs_enc_def)

lemma record_append: "fpm_http_fcgi_record out ty data = out @ rec ty data"
  by (simp add: fpm_http_fcgi_record_def Let_def)

lemma len_append: "fpm_http_fcgi_len out n = out @ fpm_http_fcgi_len [] n"
  by (simp add: fpm_http_fcgi_len_def)

lemma base_256: "(a :: nat) * 2 ^ 24 + x * 2 ^ 16 + y * 2 ^ 8 + z = ((a * 256 + x) * 256 + y) * 256 + z"
  by simp

lemma len_bytes:
  fixes n :: nat
  shows "n div 2 ^ 24 * 2 ^ 24 + n div 2 ^ 16 mod 256 * 2 ^ 16 + n div 2 ^ 8 mod 256 * 2 ^ 8 + n mod 256 = n"
proof -
  have b: "n div 2 ^ 24 = n div 256 div 256 div 256" "n div 2 ^ 16 = n div 256 div 256" "n div 2 ^ 8 = n div 256"
    by (simp_all add: div_mult2_eq [symmetric])
  show ?thesis unfolding base_256 unfolding b by (simp only: div_mult_mod_eq)
qed

lemma get_len_enc:
  assumes "n < 2 ^ 31" and "n \<ge> 128 \<Longrightarrow> r \<noteq> []"
  shows "get_len (fpm_http_fcgi_len [] n @ r) = Some (n, r)"
proof (cases "n < 128")
  case True
  then show ?thesis by (simp add: get_len_def fpm_http_fcgi_len_def)
next
  case False
  then have r: "r \<noteq> []" using assms(2) by simp
  define d where "d = n div 2 ^ 24"
  have "d < 128" using assms(1) by (simp add: d_def less_mult_imp_div_less)
  then have d: "of_char (char_of (d mod 128 + 128) :: char) = d + 128" by simp
  have e: "fpm_http_fcgi_len [] n = map char_of [d mod 128 + 128, n div 2 ^ 16, n div 2 ^ 8, n]"
    using False by (simp add: fpm_http_fcgi_len_def d_def)
  have "get_len (fpm_http_fcgi_len [] n @ r) =
      Some (d * 2 ^ 24 + n div 2 ^ 16 mod 256 * 2 ^ 16 + n div 2 ^ 8 mod 256 * 2 ^ 8 + n mod 256, r)"
    unfolding e get_len_def list.map append_Cons append_Nil list.case d Let_def using r
    by (cases r) (simp_all add: byte_at_def)
  then show ?thesis using len_bytes [of n] by (simp only: d_def)
qed

lemma get_pair_enc:
  assumes "length (fst nv) < 2 ^ 31" "length (snd nv) < 2 ^ 31"
  shows "get_pair (pair_enc nv @ r) = Some (nv, r)"
proof -
  obtain n v where nv: "nv = (n, v)" by (cases nv)
  let ?v = "fpm_http_fcgi_len [] (length v) @ n @ v @ r"
  have ne: "fpm_http_fcgi_len [] k \<noteq> []" for k by (simp add: fpm_http_fcgi_len_def)
  have e: "pair_enc nv @ r = fpm_http_fcgi_len [] (length n) @ ?v"
    unfolding pair_enc_def nv by (subst len_append) simp
  have 1: "get_len (pair_enc nv @ r) = Some (length n, ?v)"
    unfolding e by (rule get_len_enc) (use assms nv ne in simp_all)
  have 2: "get_len ?v = Some (length v, n @ v @ r)"
    by (rule get_len_enc) (use assms nv in auto)
  show ?thesis unfolding get_pair_def 1 option.case prod.case 2 by (simp add: nv)
qed

interpretation pair: codec pair_enc get_pair "\<lambda>nv. length (fst nv) < 2 ^ 31 \<and> length (snd nv) < 2 ^ 31"
  by unfold_locales (rule get_pair_enc, auto)

lemma read_header_bytes:
  assumes "a < 256" "b < 256" "p < 256" "ty < (256 :: nat)"
  shows "read_header (map char_of [FCGI_VERSION_1, ty, 0, 1, a, b, p, 0] @ r) =
    Some (\<lparr>version = 1, type_of = ty, requestId = 1, contentLength = a * 256 + b, paddingLength = p\<rparr>, r)"
  using assms by (simp add: read_header_def FCGI_VERSION_1_def)

abbreviation padding_of :: "bytes \<Rightarrow> nat" where "padding_of data \<equiv> (8 - length data mod 8) mod 8"

lemma read_header_rec:
  assumes "length data < 2 ^ 16" "ty < 256"
  shows "read_header (rec ty data @ r) =
    Some (\<lparr>version = 1, type_of = ty, requestId = 1, contentLength = length data, paddingLength = padding_of data\<rparr>,
          data @ replicate (padding_of data) NUL @ r)"
proof -
  have "length data div 256 < 256" using assms(1) by (simp add: less_mult_imp_div_less)
  moreover have "padding_of data < 256" using mod_less_divisor [of 8 "8 - length data mod 8"] by linarith
  moreover have "rec ty data @ r = map char_of [FCGI_VERSION_1, ty, 0, 1, length data div 256, length data mod 256, padding_of data, 0] @
      data @ replicate (padding_of data) NUL @ r"
    by (simp add: fpm_http_fcgi_record_def Let_def)
  ultimately show ?thesis using assms(2) read_header_bytes [of "length data div 256" "length data mod 256" "padding_of data" ty]
    by (simp only: mod_less_divisor zero_less_numeral div_mult_mod_eq)
qed

section \<open>What has been written so far\<close>

text \<open>
  After the pairs \<open>ps\<close> have been given, they are spread in order over complete PARAMS
  records and the block still open, none longer than a record.
\<close>

definition param_state :: "bytes \<Rightarrow> (bytes \<times> bytes) list \<Rightarrow> fpm_http_conn \<Rightarrow> bool" where
  "param_state out0 ps c \<longleftrightarrow>
     (\<exists>gs cur.
        c_out c = out0 @ concat (map (\<lambda>g. rec FCGI_PARAMS (pairs_enc g)) gs) \<and>
        c_params c = (if cur = [] then None else Some (pairs_enc cur)) \<and>
        concat gs @ cur = ps \<and> [] \<notin> set gs \<and>
        list_all (\<lambda>g. length (pairs_enc g) \<le> FCGI_MAX_RECORD_LEN) (gs @ [cur]))"

lemma length_pair_enc:
  "length (pair_enc (n, v)) = (if length n < 0x80 then 1 else 4) + (if length v < 0x80 then 1 else 4) + length n + length v"
  by (simp add: pair_enc_def fpm_http_fcgi_len_def)

lemma param_cases:
  "fpm_http_param n v c =
     (if length (pair_enc (n, v)) > FCGI_MAX_RECORD_LEN then c\<lparr>params_oversize := True\<rparr>
      else case c_params c of
             None \<Rightarrow> c\<lparr>c_params := Some (pair_enc (n, v))\<rparr>
           | Some s \<Rightarrow>
               if length s + length (pair_enc (n, v)) > FCGI_MAX_RECORD_LEN
               then c\<lparr>c_out := c_out c @ rec FCGI_PARAMS s, c_params := Some (pair_enc (n, v))\<rparr>
               else c\<lparr>c_params := Some (s @ pair_enc (n, v))\<rparr>)"
proof -
  have e: "fpm_http_fcgi_len (fpm_http_fcgi_len s (length n)) (length v) @ n @ v = s @ pair_enc (n, v)" for s
    unfolding pair_enc_def fst_conv snd_conv by (simp add: len_append [of s] len_append [of "s @ _"] len_append [of "fpm_http_fcgi_len [] _"])
  show ?thesis unfolding fpm_http_param_def Let_def e length_pair_enc
    by (simp add: record_append [of "c_out c"] split: option.split)
qed

lemma param_oversize_mono: "params_oversize c \<Longrightarrow> params_oversize (fpm_http_param n v c)"
  unfolding param_cases by (simp split: option.split)

lemma params_oversize_mono: "params_oversize c \<Longrightarrow> params_oversize (fpm_http_params ps c)"
  by (induction ps arbitrary: c) (auto simp: param_oversize_mono)

definition too_big :: "bytes \<times> bytes \<Rightarrow> bool" where
  "too_big nv \<longleftrightarrow> length (pair_enc nv) > FCGI_MAX_RECORD_LEN"

lemma params_oversize_iff:
  "params_oversize (fpm_http_params ps c) \<longleftrightarrow> params_oversize c \<or> list_ex too_big ps"
proof (induction ps arbitrary: c)
  case (Cons p ps)
  obtain n v where "p = (n, v)" by (cases p)
  moreover have "params_oversize (fpm_http_param n v c) \<longleftrightarrow> params_oversize c \<or> too_big (n, v)"
    unfolding param_cases too_big_def by (simp split: option.split)
  ultimately show ?case using Cons.IH by auto
qed simp

lemma param_state_step:
  assumes "param_state out0 ps c" "\<not> params_oversize (fpm_http_param n v c)"
  shows "param_state out0 (ps @ [(n, v)]) (fpm_http_param n v c)"
proof -
  let ?m = "FCGI_MAX_RECORD_LEN" let ?e = "pair_enc (n, v)"
  obtain gs cur where c: "c_out c = out0 @ concat (map (\<lambda>g. rec FCGI_PARAMS (pairs_enc g)) gs)"
      "c_params c = (if cur = [] then None else Some (pairs_enc cur))" "concat gs @ cur = ps" "[] \<notin> set gs"
      "list_all (\<lambda>g. length (pairs_enc g) \<le> ?m) (gs @ [cur])"
    using assms(1) unfolding param_state_def by blast
  have fit: "length ?e \<le> ?m"
    using assms(2) unfolding param_cases by (simp split: if_splits)
  show ?thesis
  proof (cases "cur \<noteq> [] \<and> length (pairs_enc cur) + length ?e > ?m")
    case True
    then have e: "fpm_http_param n v c = c\<lparr>c_out := c_out c @ rec FCGI_PARAMS (pairs_enc cur), c_params := Some ?e\<rparr>"
      unfolding param_cases using fit c(2) by simp
    show ?thesis unfolding param_state_def e
      by (rule exI [of _ "gs @ [cur]"], rule exI [of _ "[(n, v)]"]) (use c fit True in auto)
  next
    case False
    then have e: "fpm_http_param n v c = c\<lparr>c_params := Some (pairs_enc cur @ ?e)\<rparr>"
      unfolding param_cases using fit c(2) by auto
    show ?thesis unfolding param_state_def e
      by (rule exI [of _ gs], rule exI [of _ "cur @ [(n, v)]"]) (use c fit False in auto)
  qed
qed

lemma param_state_fold:
  "param_state out0 ps c \<Longrightarrow> \<not> params_oversize (fpm_http_params qs c) \<Longrightarrow>
   param_state out0 (ps @ qs) (fpm_http_params qs c)"
proof (induction qs arbitrary: ps c)
  case (Cons q qs)
  obtain n v where q: "q = (n, v)" by (cases q)
  have ok: "\<not> params_oversize (fpm_http_params qs (fpm_http_param n v c))" using Cons.prems(2) q by simp
  then have "\<not> params_oversize (fpm_http_param n v c)" using params_oversize_mono by blast
  from Cons.IH [OF param_state_step [OF Cons.prems(1) this] ok] show ?case using q by simp
qed simp

section \<open>The worker reads the parameters\<close>

definition set_pair :: "bytes \<times> bytes \<Rightarrow> fcgi_hash_bucket list \<Rightarrow> fcgi_hash_bucket list" where
  "set_pair nv h = fcgi_hash_set (FCGI_HASH_FUNC (fst nv) (length (fst nv))) (fst nv) (snd nv) h"

lemma hash_update_None: "hash_update hv v x h = None \<Longrightarrow> fcgi_hash_get hv v h = None"
  by (induction h) (auto split: if_splits)

lemma hash_update_Some:
  "hash_update hv v x h = Some h' \<Longrightarrow>
   fcgi_hash_get hv' v' h' = (if hv' = hv \<and> v' = v then Some x else fcgi_hash_get hv' v' h)"
  by (induction h arbitrary: h') (auto split: if_splits)

lemma hash_get_set:
  "fcgi_hash_get hv' v' (fcgi_hash_set hv v x h) = (if hv' = hv \<and> v' = v then Some x else fcgi_hash_get hv' v' h)"
  by (auto simp: fcgi_hash_set_def hash_update_Some split: option.splits)

lemma getenv_set_pair [simp]:
  "fcgi_getenv n (set_pair nv h) = (if n = fst nv then Some (snd nv) else fcgi_getenv n h)"
  by (auto simp: fcgi_getenv_def set_pair_def hash_get_set)

lemma getenv_fold:
  "fcgi_getenv n (fold set_pair ps h) = (case map_of (rev ps) n of Some v \<Rightarrow> Some v | None \<Rightarrow> fcgi_getenv n h)"
  by (induction ps arbitrary: h) (auto simp: map_add_Some_iff map_add_def split: option.splits)

lemma hash_func_prefix:
  "length n > 3 \<Longrightarrow> FCGI_HASH_FUNC (n @ r) (length n) = FCGI_HASH_FUNC n (length n)"
  by (simp add: FCGI_HASH_FUNC_def byte_at_def nth_append)

definition pair_ok :: "bytes \<times> bytes \<Rightarrow> bool" where
  "pair_ok nv \<longleftrightarrow> length (fst nv) > 3"

lemma pair_enc_nonempty [simp]: "pair_enc nv \<noteq> []"
  by (cases nv) (simp add: pair_enc_def fpm_http_fcgi_len_def)

lemma get_params_enc:
  "list_all pair_ok g \<Longrightarrow> length (pairs_enc g) < 2 ^ 31 \<Longrightarrow>
   fcgi_get_params (pairs_enc g) pad e = Some (fold set_pair g e)"
proof (induction g arbitrary: e)
  case Nil
  then show ?case by (subst fcgi_get_params.simps) simp
next
  case (Cons nv g)
  obtain n v where nv: "nv = (n, v)" by (cases nv)
  have "length n < 2 ^ 31" "length v < 2 ^ 31" using Cons.prems(2) by (simp_all add: nv length_pair_enc split: if_splits)
  then have "get_pair (pairs_enc (nv # g)) = Some ((n, v), pairs_enc g)"
    using get_pair_enc [of nv "pairs_enc g"] by (simp add: nv)
  moreover have "FCGI_HASH_FUNC (n @ v @ pairs_enc g @ pad) (length n) = FCGI_HASH_FUNC n (length n)"
    using Cons.prems(1) by (simp add: hash_func_prefix pair_ok_def nv)
  ultimately have "fcgi_get_params (pairs_enc (nv # g)) pad e = fcgi_get_params (pairs_enc g) pad (set_pair nv e)"
    by (subst fcgi_get_params.simps) (simp add: set_pair_def nv)
  then show ?case using Cons by simp
qed

lemma params_loop_record:
  assumes "type_of hdr = FCGI_PARAMS" "contentLength hdr = length data" "data \<noteq> []" "paddingLength hdr = length q"
    and "length data + length q \<le> FCGI_MAX_LENGTH" "fd req = data @ q @ r"
    and "fcgi_get_params data q (env req) = Some e" "read_header r = Some (hdr', s')"
  shows "params_loop hdr req = params_loop hdr' (req\<lparr>env := e, fd := s'\<rparr>)"
  by (subst params_loop.simps) (use assms in \<open>simp add: Let_def\<close>)

lemma padding_fits:
  assumes "length data \<le> FCGI_MAX_RECORD_LEN"
  shows "length data + padding_of data \<le> FCGI_MAX_LENGTH"
proof (cases "length data mod 8 = 0")
  case False
  then have "padding_of data \<le> 7" by simp
  moreover have "length data \<le> 65528" using assms by (simp add: FCGI_MAX_RECORD_LEN_def)
  ultimately show ?thesis by (simp add: FCGI_MAX_LENGTH_def)
qed (use assms in \<open>simp add: FCGI_MAX_RECORD_LEN_def FCGI_MAX_LENGTH_def\<close>)

definition params_from :: "fcgi_request \<Rightarrow> nat \<times> fcgi_request" where
  "params_from req = (case read_header (fd req) of
     Some (hdr, s) \<Rightarrow> params_loop hdr (req\<lparr>fd := s\<rparr>) | None \<Rightarrow> (0, req\<lparr>fd := drop 8 (fd req)\<rparr>))"

lemma read_header_params:
  assumes "length data \<le> FCGI_MAX_RECORD_LEN"
  shows "read_header (rec FCGI_PARAMS data @ r) =
    Some (\<lparr>version = 1, type_of = FCGI_PARAMS, requestId = 1, contentLength = length data, paddingLength = padding_of data\<rparr>,
          data @ replicate (padding_of data) NUL @ r)"
  by (rule read_header_rec) (use assms in \<open>simp_all add: FCGI_MAX_RECORD_LEN_def FCGI_PARAMS_def\<close>)

lemma params_from_groups:
  "[] \<notin> set gs \<Longrightarrow> list_all (\<lambda>g. length (pairs_enc g) \<le> FCGI_MAX_RECORD_LEN \<and> list_all pair_ok g) gs \<Longrightarrow>
   params_from (req\<lparr>fd := concat (map (\<lambda>g. rec FCGI_PARAMS (pairs_enc g)) gs) @ rec FCGI_PARAMS [] @ r\<rparr>) =
     (1, req\<lparr>env := fold set_pair (concat gs) (env req), fd := r\<rparr>)"
proof (induction gs arbitrary: req)
  case Nil
  have "length ([] :: bytes) \<le> FCGI_MAX_RECORD_LEN" by simp
  from read_header_params [OF this, of r] show ?case
    by (simp add: params_from_def) (subst params_loop.simps, simp)
next
  case (Cons g gs)
  let ?d = "pairs_enc g" let ?q = "replicate (padding_of ?d) NUL"
  let ?r = "concat (map (\<lambda>g. rec FCGI_PARAMS (pairs_enc g)) gs) @ rec FCGI_PARAMS [] @ r"
  have g: "length ?d \<le> FCGI_MAX_RECORD_LEN" "list_all pair_ok g" "g \<noteq> []" using Cons.prems by auto
  obtain hdr' s' where h: "read_header ?r = Some (hdr', s')"
  proof (cases gs)
    case Nil
    have "length ([] :: bytes) \<le> FCGI_MAX_RECORD_LEN" by simp
    from read_header_params [OF this, of r] show ?thesis using that Nil by simp
  next
    case (Cons g' gs')
    have "length (pairs_enc g') \<le> FCGI_MAX_RECORD_LEN" using Cons.prems Cons by simp
    from read_header_params [OF this] show ?thesis using that Cons by simp
  qed
  have "fcgi_get_params ?d ?q (env req) = Some (fold set_pair g (env req))"
    by (rule get_params_enc) (use g in \<open>simp_all add: FCGI_MAX_RECORD_LEN_def\<close>)
  moreover have "?d \<noteq> []" using g(3) by (cases g) simp_all
  ultimately have "params_from (req\<lparr>fd := rec FCGI_PARAMS ?d @ ?r\<rparr>) =
      params_loop hdr' (req\<lparr>env := fold set_pair g (env req), fd := s'\<rparr>)"
    unfolding params_from_def using read_header_params [OF g(1), of ?r] padding_fits [OF g(1)] h
    by (simp add: params_loop_record [where data = ?d and q = ?q])
  also have "\<dots> = params_from (req\<lparr>env := fold set_pair g (env req), fd := ?r\<rparr>)"
    using h by (simp add: params_from_def)
  also have "\<dots> = (1, req\<lparr>env := fold set_pair (concat (g # gs)) (env req), fd := r\<rparr>)"
    using Cons.IH [of "req\<lparr>env := fold set_pair g (env req)\<rparr>"] Cons.prems by simp
  finally show ?case by simp
qed

section \<open>The worker reads the body\<close>

lemma stdin_records_append: "stdin_records (a @ out) data = a @ stdin_records out data"
proof (induction "length data" arbitrary: out data rule: less_induct)
  case less
  show ?case
  proof (cases "data = []")
    case False
    let ?d = "take FCGI_MAX_RECORD_LEN data" and ?r = "drop FCGI_MAX_RECORD_LEN data"
    have "length ?r < length data" using False by (simp add: FCGI_MAX_RECORD_LEN_def)
    from less [OF this, of "fpm_http_fcgi_record out FCGI_STDIN ?d"]
    have "stdin_records (fpm_http_fcgi_record (a @ out) FCGI_STDIN ?d) ?r = a @ stdin_records (fpm_http_fcgi_record out FCGI_STDIN ?d) ?r"
      by (simp add: record_append [of "a @ out"] record_append [of out])
    then show ?thesis using False
      by (simp add: stdin_records.simps [of "a @ out" data] stdin_records.simps [of out data])
  qed (simp add: stdin_records.simps)
qed

abbreviation stdin_bytes :: "bytes \<Rightarrow> bytes" where "stdin_bytes \<equiv> stdin_records []"

lemma stdin_bytes_simps:
  "stdin_bytes [] = []"
  "data \<noteq> [] \<Longrightarrow> stdin_bytes data =
     rec FCGI_STDIN (take FCGI_MAX_RECORD_LEN data) @ stdin_bytes (drop FCGI_MAX_RECORD_LEN data)"
proof -
  show "stdin_bytes [] = []" by (simp add: stdin_records.simps)
  show "data \<noteq> [] \<Longrightarrow> stdin_bytes data =
     rec FCGI_STDIN (take FCGI_MAX_RECORD_LEN data) @ stdin_bytes (drop FCGI_MAX_RECORD_LEN data)"
    using stdin_records_append [of "rec FCGI_STDIN (take FCGI_MAX_RECORD_LEN data)" "[]" "drop FCGI_MAX_RECORD_LEN data"]
    by (subst stdin_records.simps) simp
qed

lemma read_header_stdin:
  assumes "length data \<le> FCGI_MAX_RECORD_LEN"
  shows "read_header (rec FCGI_STDIN data @ r) =
    Some (\<lparr>version = 1, type_of = FCGI_STDIN, requestId = 1, contentLength = length data, paddingLength = padding_of data\<rparr>,
          data @ replicate (padding_of data) NUL @ r)"
  by (rule read_header_rec) (use assms in \<open>simp_all add: FCGI_MAX_RECORD_LEN_def FCGI_STDIN_def\<close>)

lemma read_open:
  assumes "in_len req = 0" "k \<noteq> 0" "read_header (fd req) = Some (h, s)" "type_of h = FCGI_STDIN" "contentLength h \<noteq> 0"
  shows "read_loop k str req = read_loop k str (req\<lparr>in_len := contentLength h, in_pad := paddingLength h, fd := s\<rparr>)"
  unfolding read_loop.simps [of k str req]
    read_loop.simps [of k str "req\<lparr>in_len := contentLength h, in_pad := paddingLength h, fd := s\<rparr>"]
  using assms by (simp add: Let_def)

lemma read_inside:
  assumes "in_len req = length b" "b \<noteq> []" "fd req = b @ q @ r" "length q = in_pad req" "k \<noteq> 0"
  shows "read_loop k str req =
    (if k < length b then (str @ take k b, req\<lparr>in_len := length b - k, fd := drop k b @ q @ r\<rparr>)
     else read_loop (k - length b) (str @ b) (req\<lparr>in_len := 0, fd := r\<rparr>))"
  unfolding read_loop.simps [of k str req] using assms by (simp add: Let_def min_def)

definition pending :: "bytes \<Rightarrow> bytes \<Rightarrow> fcgi_request \<Rightarrow> bool" where
  "pending b r req \<longleftrightarrow>
     (\<exists>b1 b2. b = b1 @ b2 \<and> in_len req = length b1 \<and>
        fd req = (if b1 = [] then [] else b1 @ replicate (in_pad req) NUL) @ stdin_bytes b2 @ r)"

lemma pending_open:
  assumes "pending b r req" "b \<noteq> []" "k \<noteq> 0"
  shows "\<exists>req1 b1 b2. b1 \<noteq> [] \<and> b = b1 @ b2 \<and> in_len req1 = length b1 \<and>
    fd req1 = b1 @ replicate (in_pad req1) NUL @ stdin_bytes b2 @ r \<and>
    read_loop k str req = read_loop k str req1 \<and> keep req1 = keep req \<and> env req1 = env req \<and> has_env req1 = has_env req"
proof -
  obtain b1 b2 where b: "b = b1 @ b2" "in_len req = length b1"
      "fd req = (if b1 = [] then [] else b1 @ replicate (in_pad req) NUL) @ stdin_bytes b2 @ r"
    using assms(1) unfolding pending_def by blast
  show ?thesis
  proof (cases "b1 = []")
    case True
    let ?d = "take FCGI_MAX_RECORD_LEN b" and ?b2 = "drop FCGI_MAX_RECORD_LEN b"
    let ?q = "replicate (padding_of ?d) NUL"
    have d: "?d \<noteq> []" "length ?d \<le> FCGI_MAX_RECORD_LEN" using assms(2) by (simp_all add: FCGI_MAX_RECORD_LEN_def)
    have fd: "fd req = rec FCGI_STDIN ?d @ stdin_bytes ?b2 @ r"
      using b True assms(2) by (simp add: stdin_bytes_simps(2))
    note h = read_header_stdin [OF d(2), of "stdin_bytes ?b2 @ r", folded fd]
    let ?req = "req\<lparr>in_len := length ?d, in_pad := padding_of ?d, fd := ?d @ ?q @ stdin_bytes ?b2 @ r\<rparr>"
    have "read_loop k str req = read_loop k str ?req"
      using read_open [OF _ assms(3) h, of str] b(2) True d(1) by simp
    then show ?thesis by (intro exI [of _ ?req] exI [of _ ?d] exI [of _ ?b2]) (use d(1) in simp)
  next
    case False
    with b show ?thesis by (intro exI [of _ req] exI [of _ b1] exI [of _ b2]) simp
  qed
qed

lemma read_loop_pending:
  "pending b r req \<Longrightarrow> k \<le> length b \<Longrightarrow>
   \<exists>req'. read_loop k str req = (str @ take k b, req') \<and> pending (drop k b) r req' \<and>
     keep req' = keep req \<and> env req' = env req \<and> has_env req' = has_env req"
proof (induction k arbitrary: b req str rule: less_induct)
  case (less k)
  show ?case
  proof (cases "k = 0")
    case True
    then show ?thesis using less.prems by (simp add: read_loop.simps)
  next
    case False
    then have "b \<noteq> []" using less.prems(2) by auto
    from pending_open [OF less.prems(1) this False] obtain req1 b1 b2 where
      o: "b1 \<noteq> []" "b = b1 @ b2" "in_len req1 = length b1"
        "fd req1 = b1 @ replicate (in_pad req1) NUL @ stdin_bytes b2 @ r"
        "read_loop k str req = read_loop k str req1" "keep req1 = keep req" "env req1 = env req" "has_env req1 = has_env req"
      by blast
    note step = read_inside [OF o(3,1,4) _ False, of str]
    show ?thesis
    proof (cases "k < length b1")
      case True
      let ?r = "req1\<lparr>in_len := length b1 - k, fd := drop k b1 @ replicate (in_pad req1) NUL @ stdin_bytes b2 @ r\<rparr>"
      have "pending (drop k b) r ?r" unfolding pending_def
        by (rule exI [of _ "drop k b1"], rule exI [of _ b2]) (use o True in simp)
      then show ?thesis using step o(2,5-8) True by simp
    next
      case nlt: False
      let ?r = "req1\<lparr>in_len := 0, fd := stdin_bytes b2 @ r\<rparr>"
      have p: "pending b2 r ?r" unfolding pending_def by (rule exI [of _ "[]"]) simp
      have k: "k - length b1 < k" "k - length b1 \<le> length b2" using False o(1,2) less.prems(2) by simp_all
      from less.IH [OF k(1) p k(2), of "str @ b1"] show ?thesis using step o(2,5-8) nlt by simp
    qed
  qed
qed

section \<open>The request as a list of pairs\<close>

definition request_pairs ::
  "fcgi_env \<Rightarrow> fpm_http_gateway \<Rightarrow> evhttp_request \<Rightarrow> string \<Rightarrow> string \<times> string option \<Rightarrow> string option \<Rightarrow>
   (string \<times> string) list \<Rightarrow> fpm_http_conn \<Rightarrow> (string \<times> string) list" where
  "request_pairs e gw req method script authority hs c =
     line_params e gw req method script @
     (case r_host req of Some h \<Rightarrow> [(''SERVER_NAME'', server_name h)] | None \<Rightarrow> []) @
     fst (peer_params c) @ server_params e c @ fst (auth_params e req c) @
     [(''CONTENT_LENGTH'', dec (length (input_buffer req)))] @
     hs @ host_params authority (input_headers req) @ id_params c"

definition request_params ::
  "fcgi_env \<Rightarrow> fpm_http_gateway \<Rightarrow> int \<Rightarrow> evhttp_request \<Rightarrow> fpm_http_conn \<Rightarrow> (string \<times> string) list option" where
  "request_params e gw hint req c =
     (case (fpm_http_method_name (command req), Option.bind (fpm_http_request_path req) (uridecode e)) of
        (Some method, Some decoded) \<Rightarrow>
          map_option (\<lambda>hs. request_pairs e gw req method (script_of e gw hint decoded) (authority_of req) hs c)
            (header_params (request_id_on gw) (authority_of req) (input_headers req))
      | _ \<Rightarrow> None)"

definition tracks :: "bytes \<Rightarrow> (bytes \<times> bytes) list \<Rightarrow> fpm_http_conn \<Rightarrow> fpm_http_conn \<Rightarrow> bool" where
  "tracks out0 ps c0 c \<longleftrightarrow>
     (params_oversize c \<longleftrightarrow> params_oversize c0 \<or> list_ex too_big ps) \<and>
     (params_oversize c \<or> param_state out0 ps c) \<and>
     peer_addr c = peer_addr c0 \<and> peer_port c = peer_port c0 \<and> fwd c = fwd c0 \<and> c_request_id c = c_request_id c0"

lemma param_fields:
  "peer_addr (fpm_http_param n v c) = peer_addr c" "peer_port (fpm_http_param n v c) = peer_port c"
  "fwd (fpm_http_param n v c) = fwd c" "c_request_id (fpm_http_param n v c) = c_request_id c"
  by (simp_all add: param_cases split: option.split)

lemma params_fields:
  "peer_addr (fpm_http_params ps c) = peer_addr c" "peer_port (fpm_http_params ps c) = peer_port c"
  "fwd (fpm_http_params ps c) = fwd c" "c_request_id (fpm_http_params ps c) = c_request_id c"
  by (induction ps arbitrary: c) (auto simp: param_fields)

lemma tracks_params: "tracks out0 ps c0 c \<Longrightarrow> tracks out0 (ps @ qs) c0 (fpm_http_params qs c)"
  unfolding tracks_def using params_oversize_iff [of qs c] param_state_fold [of out0 ps c qs] params_fields
  by (metis list_ex_append)

lemma param_state_update [simp]:
  "param_state out0 ps (c\<lparr>c_remote_addr := x\<rparr>) = param_state out0 ps c"
  "param_state out0 ps (c\<lparr>c_remote_user := x\<rparr>) = param_state out0 ps c"
  by (simp_all add: param_state_def)

lemma tracks_peer: "tracks out0 ps c0 c \<Longrightarrow> fst (peer_params c) = fst (peer_params c0) \<and> tracks out0 ps c0 (snd (peer_params c))"
  by (auto simp: tracks_def peer_params_def Let_def)

lemma tracks_auth: "tracks out0 ps c0 c \<Longrightarrow> fst (auth_params e req c) = fst (auth_params e req c0) \<and> tracks out0 ps c0 (snd (auth_params e req c))"
  by (auto simp: tracks_def auth_params_def Let_def case_prod_beta)

lemma tracks_same: "tracks out0 ps c0 c \<Longrightarrow> server_params e c = server_params e c0 \<and> id_params c = id_params c0"
  by (simp add: tracks_def server_params_def id_params_def)

lemma put_params_tracks:
  assumes "tracks out0 [] c0 c"
  shows "tracks out0 (request_pairs e gw req method script authority hs c0) c0
    (put_params e gw req method script authority hs c)"
proof -
  define c1 where "c1 = fpm_http_params (line_params e gw req method script) c"
  define c2 where "c2 = fpm_http_params (case r_host req of Some h \<Rightarrow> [(''SERVER_NAME'', server_name h)] | None \<Rightarrow> []) c1"
  define c3 where "c3 = snd (peer_params c2)"
  define c4 where "c4 = fpm_http_params (fst (peer_params c2) @ server_params e c3) c3"
  define c5 where "c5 = snd (auth_params e req c4)"
  define c6 where "c6 = fpm_http_params (fst (auth_params e req c4) @ [(''CONTENT_LENGTH'', dec (length (input_buffer req)))]) c5"
  note t1 = tracks_params [OF assms, of "line_params e gw req method script", folded c1_def]
  note t2 = tracks_params [OF t1, of "case r_host req of Some h \<Rightarrow> [(''SERVER_NAME'', server_name h)] | None \<Rightarrow> []", folded c2_def]
  note t3 = tracks_peer [OF t2, folded c3_def]
  note t4 = tracks_params [OF t3 [THEN conjunct2], of "fst (peer_params c2) @ server_params e c3", folded c4_def]
  note t5 = tracks_auth [OF t4, of e req, folded c5_def]
  note t6 = tracks_params [OF t5 [THEN conjunct2], of "fst (auth_params e req c4) @ [(''CONTENT_LENGTH'', dec (length (input_buffer req)))]", folded c6_def]
  have p: "put_params e gw req method script authority hs c =
      fpm_http_params (hs @ host_params authority (input_headers req) @ id_params c6) c6"
    unfolding put_params_def Let_def case_prod_beta c6_def c5_def c4_def c3_def c2_def c1_def ..
  show ?thesis
    using tracks_params [OF t6, of "hs @ host_params authority (input_headers req) @ id_params c6"]
      t3 t5 tracks_same [OF t6] tracks_same [OF t3 [THEN conjunct2]]
    unfolding p request_pairs_def by simp
qed

lemma header_keys_ok: "header_params i a hs = Some ps \<Longrightarrow> list_all pair_ok ps"
proof (induction i a hs arbitrary: ps rule: header_params.induct)
  case (2 i a k v hs)
  show ?case
  proof (cases "fpm_http_header_cgi_key k False FPM_HTTP_HEADER_CGI_KEY_LEN")
    case (Key x)
    then have "length x > 3" by (auto simp: fpm_http_header_cgi_key_def split: if_splits)
    then show ?thesis using 2 Key by (auto simp: Let_def pair_ok_def split: if_splits)
  qed (use 2 in \<open>auto simp: Let_def split: if_splits\<close>)
qed simp

lemma request_pairs_ok: "list_all pair_ok hs \<Longrightarrow> list_all pair_ok (request_pairs e gw req m s a hs c)"
  by (simp add: request_pairs_def line_params_def peer_params_def server_params_def auth_params_def
      host_params_def id_params_def pair_ok_def Let_def case_prod_beta split: option.split list.split)

lemma request_params_ok: "request_params e gw hint req c = Some ps \<Longrightarrow> list_all pair_ok ps"
  by (auto simp: request_params_def intro: request_pairs_ok header_keys_ok split: option.splits)

lemma finish_out:
  "c_out (finish_request b c) =
    (case c_params c of Some s \<Rightarrow> c_out c @ rec FCGI_PARAMS s | None \<Rightarrow> c_out c) @
    rec FCGI_PARAMS [] @ stdin_bytes b @ rec FCGI_STDIN []"
proof -
  define h where "h = (case c_params c of Some s \<Rightarrow> c_out c @ rec FCGI_PARAMS s | None \<Rightarrow> c_out c)"
  have h: "h = (case c_params c of Some s \<Rightarrow> fpm_http_fcgi_record (c_out c) FCGI_PARAMS s | None \<Rightarrow> c_out c)"
    by (simp add: h_def record_append [of "c_out c"] split: option.split)
  have "stdin_records (h @ rec FCGI_PARAMS []) b = (h @ rec FCGI_PARAMS []) @ stdin_bytes b"
    using stdin_records_append [of "h @ rec FCGI_PARAMS []" "[]" b] by simp
  then show ?thesis
    unfolding finish_request_def Let_def h [symmetric] h_def [symmetric]
    by (simp add: record_append [of h] record_append [of "h @ _"])
qed

lemma build_request_stream:
  assumes "fpm_http_build_request e gw hint req c = Inr c'" "c_out c = []" "c_params c = None"
  shows "\<exists>ps gs. request_params e gw hint req c = Some ps \<and> concat gs = ps \<and> [] \<notin> set gs \<and>
    list_all (\<lambda>g. length (pairs_enc g) \<le> FCGI_MAX_RECORD_LEN \<and> list_all pair_ok g) gs \<and>
    c_out c' = rec FCGI_BEGIN_REQUEST begin_request @ concat (map (\<lambda>g. rec FCGI_PARAMS (pairs_enc g)) gs) @
      rec FCGI_PARAMS [] @ stdin_bytes (input_buffer req) @ rec FCGI_STDIN []"
proof -
  let ?a = "authority_of req" let ?out = "rec FCGI_BEGIN_REQUEST begin_request"
  obtain meth path decoded hs where m: "fpm_http_method_name (command req) = Some meth"
      "fpm_http_request_path req = Some path" "uridecode e path = Some decoded"
      "header_params (request_id_on gw) ?a (input_headers req) = Some hs"
    using assms(1) unfolding fpm_http_build_request_def by (auto split: option.splits if_splits)
  define c1 where "c1 = put_params e gw req meth (script_of e gw hint decoded) ?a hs (c\<lparr>c_out := ?out\<rparr>)"
  let ?ps = "request_pairs e gw req meth (script_of e gw hint decoded) ?a hs c"
  have r: "request_params e gw hint req c = Some ?ps" using m by (simp add: request_params_def)
  have c': "\<not> params_oversize c1" "c' = finish_request (input_buffer req) c1"
    using assms(1,2) m unfolding fpm_http_build_request_def c1_def by (auto simp: Let_def split: if_splits)
  have "param_state ?out [] (c\<lparr>c_out := ?out\<rparr>)"
    unfolding param_state_def by (rule exI [of _ "[]"], rule exI [of _ "[]"]) (simp add: assms(3))
  then have "tracks ?out [] c (c\<lparr>c_out := ?out\<rparr>)" by (simp add: tracks_def)
  from put_params_tracks [OF this] have "param_state ?out ?ps c1" using c'(1) unfolding c1_def tracks_def by blast
  then obtain gs cur where g: "c_out c1 = ?out @ concat (map (\<lambda>g. rec FCGI_PARAMS (pairs_enc g)) gs)"
      "c_params c1 = (if cur = [] then None else Some (pairs_enc cur))" "concat gs @ cur = ?ps" "[] \<notin> set gs"
      "list_all (\<lambda>g. length (pairs_enc g) \<le> FCGI_MAX_RECORD_LEN) (gs @ [cur])"
    unfolding param_state_def by blast
  let ?gs = "gs @ (if cur = [] then [] else [cur])"
  have cc: "concat ?gs = ?ps" using g(3) by (cases "cur = []") simp_all
  have "list_all pair_ok (concat ?gs)" unfolding cc by (rule request_params_ok [OF r])
  then have ok: "list_all (\<lambda>g. length (pairs_enc g) \<le> FCGI_MAX_RECORD_LEN \<and> list_all pair_ok g) ?gs"
    using g(5) by (auto simp: list_all_iff)
  have "c_out c' = ?out @ concat (map (\<lambda>g. rec FCGI_PARAMS (pairs_enc g)) ?gs) @
      rec FCGI_PARAMS [] @ stdin_bytes (input_buffer req) @ rec FCGI_STDIN []"
    unfolding c'(2) finish_out using g(1,2) by simp
  then show ?thesis using r g(3,4) ok by (intro exI [of _ ?ps] exI [of _ ?gs]) auto
qed

section \<open>The worker receives the request\<close>

lemma reset_fd [simp]:
  "(fcgi_reset (w\<lparr>fd := x\<rparr>))\<lparr>fd := s\<rparr> = (fcgi_reset w)\<lparr>fd := s\<rparr>" "fd (fcgi_reset w) = fd w"
  by (simp_all add: fcgi_reset_def)

lemma read_begin_request:
  assumes "has_env w \<or> env w = []"
  shows "\<exists>r :: fcgi_request. fcgi_read_request mgmt (w\<lparr>fd := rec FCGI_BEGIN_REQUEST begin_request @ s\<rparr>) = params_from (r\<lparr>fd := s\<rparr>) \<and>
    keep r \<and> has_env r \<and> in_len r = 0 \<and> env r = set_pair (''FCGI_ROLE'', ''RESPONDER'') []"
proof -
  let ?h = "\<lparr>version = 1, type_of = FCGI_BEGIN_REQUEST, requestId = 1, contentLength = 8, paddingLength = 0\<rparr>"
  have h: "read_header (rec FCGI_BEGIN_REQUEST begin_request @ s) = Some (?h, begin_request @ s)"
    using read_header_rec [of begin_request FCGI_BEGIN_REQUEST s] by (simp add: begin_request_def FCGI_BEGIN_REQUEST_def)
  have k: "skip_stdin (rec FCGI_BEGIN_REQUEST begin_request @ s) = Inr (?h, begin_request @ s)"
    by (subst skip_stdin.simps) (simp add: h)
  let ?w = "(fcgi_reset w)\<lparr>fd := begin_request @ s, req_id := 1\<rparr>"
  have 1: "fcgi_read_request mgmt (w\<lparr>fd := rec FCGI_BEGIN_REQUEST begin_request @ s\<rparr>) = read_begin 8 ?w"
    using k by (simp add: fcgi_read_request_def FCGI_MAX_LENGTH_def)
  have e: "env ?w = []" using assms by (auto simp: fcgi_reset_def)
  let ?r = "?w\<lparr>keep := True, fd := s, env := set_pair (''FCGI_ROLE'', ''RESPONDER'') []\<rparr>"
  have b: "begin_request = [CHR 0x00, CHR 0x01, CHR 0x01, CHR 0x00, CHR 0x00, CHR 0x00, CHR 0x00, CHR 0x00]" by code_simp
  have sp: "set_pair (''FCGI_ROLE'', ''RESPONDER'') [] = fcgi_hash_set (FCGI_HASH_FUNC ''FCGI_ROLE'' 9) ''FCGI_ROLE'' ''RESPONDER'' []"
    by (simp add: set_pair_def eval_nat_numeral)
  have "read_begin 8 ?w = params_from (?r\<lparr>fd := s\<rparr>)"
    using e unfolding read_begin_def params_from_def sp
    by (simp add: b role_name_def split: option.split)
  then show ?thesis unfolding 1 by (intro exI [of _ ?r]) (simp add: fcgi_reset_def)
qed

lemma skip_terminator:
  "fcgi_read_request mgmt (w\<lparr>fd := rec FCGI_STDIN [] @ r\<rparr>) = fcgi_read_request mgmt (w\<lparr>fd := r\<rparr>)"
proof -
  have "skip_stdin (rec FCGI_STDIN [] @ r) = skip_stdin r"
    using read_header_stdin [of "[]" r] by (subst skip_stdin.simps) simp
  then show ?thesis unfolding fcgi_read_request_def by (simp add: Let_def split: sum.split)
qed

text \<open>A worker that reads the body piece by piece.\<close>

fun reads :: "nat list \<Rightarrow> fcgi_request \<Rightarrow> bytes \<times> fcgi_request" where
  "reads [] r = ([], r)"
| "reads (k # ks) r = (let (b, r) = fcgi_read k r; (bs, r) = reads ks r in (b @ bs, r))"

lemma reads_pending:
  "pending b r req \<Longrightarrow> sum_list ks \<le> length b \<Longrightarrow>
   \<exists>req'. reads ks req = (take (sum_list ks) b, req') \<and> pending (drop (sum_list ks) b) r req'"
proof (induction ks arbitrary: b req)
  case (Cons k ks)
  from read_loop_pending [OF Cons.prems(1), of k "[]"] Cons.prems(2)
  obtain r1 where r1: "fcgi_read k req = (take k b, r1)" "pending (drop k b) r r1" by (auto simp: fcgi_read_def)
  have "sum_list ks \<le> length (drop k b)" using Cons.prems(2) by simp
  from Cons.IH [OF r1(2) this]
  obtain r2 where "reads ks r1 = (take (sum_list ks) (drop k b), r2)" "pending (drop (sum_list ks) (drop k b)) r r2"
    by blast
  then show ?case using r1(1) by (simp add: take_add add.commute)
qed (simp)


text \<open>What a request must satisfy to be forwarded.\<close>

definition forwardable :: "fcgi_env \<Rightarrow> fpm_http_gateway \<Rightarrow> int \<Rightarrow> evhttp_request \<Rightarrow> fpm_http_conn \<Rightarrow> bool" where
  "forwardable e gw hint req c \<longleftrightarrow>
     fpm_http_request_path req \<noteq> Some [] \<and>
     list_all (\<lambda>(k, v). length k \<le> FPM_HTTP_HEADER_NAME_MAX) (input_headers req) \<and>
     (case Option.bind (fpm_http_request_path req) (uridecode e) of Some d \<Rightarrow> fpm_http_decoded_path_ok d | None \<Rightarrow> False) \<and>
     (case request_params e gw hint req c of Some ps \<Rightarrow> \<not> list_ex too_big ps | None \<Rightarrow> False)"

lemma put_params_oversize:
  assumes "c_params c = None"
  shows "params_oversize (put_params e gw req m s a hs (c\<lparr>c_out := out\<rparr>)) \<longleftrightarrow>
    params_oversize c \<or> list_ex too_big (request_pairs e gw req m s a hs c)"
proof -
  have "param_state out [] (c\<lparr>c_out := out\<rparr>)"
    unfolding param_state_def by (rule exI [of _ "[]"], rule exI [of _ "[]"]) (simp add: assms)
  then have "tracks out [] c (c\<lparr>c_out := out\<rparr>)" by (simp add: tracks_def)
  from put_params_tracks [OF this] show ?thesis unfolding tracks_def by blast
qed

lemma header_params_total:
  "list_all (\<lambda>(k, v). length k \<le> FPM_HTTP_HEADER_NAME_MAX) hs \<Longrightarrow> header_params i a hs \<noteq> None"
proof (induction i a hs rule: header_params.induct)
  case (2 i a k v hs)
  have "fpm_http_header_cgi_key k False FPM_HTTP_HEADER_CGI_KEY_LEN \<noteq> Key_Refused"
    using 2(4) by (simp add: fpm_http_header_cgi_key_def FPM_HTTP_HEADER_CGI_KEY_LEN_def)
  then show ?case using 2 by (auto simp: Let_def split: cgi_key.split)
qed simp

lemma names_in_bounds:
  "list_ex (\<lambda>(k, v). length k > n) hs \<longleftrightarrow> \<not> list_all (\<lambda>(k, v). length k \<le> n) hs"
  by (induction hs) auto

lemma build_request_cases:
  assumes "c_params c = None" "\<not> params_oversize c"
  shows "case fpm_http_build_request e gw hint req c of
      Inr c' \<Rightarrow> forwardable e gw hint req c \<and> (r_host req = None \<or> strdup_ok e)
    | Inl code \<Rightarrow>
        if code = FPM_HTTP_SERVICE_UNAVAIL then r_host req \<noteq> None \<and> \<not> strdup_ok e
        else code = HTTP_BADREQUEST \<and> \<not> forwardable e gw hint req c"
proof -
  have ne: "HTTP_BADREQUEST \<noteq> FPM_HTTP_SERVICE_UNAVAIL" by (simp add: HTTP_BADREQUEST_def FPM_HTTP_SERVICE_UNAVAIL_def)
  show ?thesis
    using ne assms(2) header_params_total [of "input_headers req"]
    unfolding fpm_http_build_request_def forwardable_def request_params_def names_in_bounds
    by (auto simp: put_params_oversize [OF assms(1)] Let_def split: option.split)
qed

text \<open>
  C30. A request is forwarded exactly when it is well formed: a known method, a path, bounded
  header names, a decoded path without a climb or a NUL, and parameters that each fit
  one record. Everything else is answered 400 before a byte leaves the gateway, and
  503 means only that the copy of the host could not be allocated.
\<close>

theorem build_request_refusals:
  assumes "c_params c = None" "\<not> params_oversize c"
  shows "case fpm_http_build_request e gw hint req c of
      Inr c' \<Rightarrow> forwardable e gw hint req c \<and> (r_host req = None \<or> strdup_ok e)
    | Inl code \<Rightarrow>
        if code = FPM_HTTP_SERVICE_UNAVAIL then r_host req \<noteq> None \<and> \<not> strdup_ok e
        else code = HTTP_BADREQUEST \<and> \<not> forwardable e gw hint req c"
  by (rule build_request_cases [OF assms])

text \<open>A concrete request, for the witnesses.\<close>

definition sample_env :: fcgi_env where
  "sample_env = \<lparr>uridecode = Some, find_header = (\<lambda>hs n. map_of hs n), stat_missing = (\<lambda>f. False),
     local_addr = ''10.0.0.1'', local_port = ''80'', strdup_ok = True, php_version = ''8.5''\<rparr>"

definition sample_gw :: fpm_http_gateway where
  "sample_gw = \<lparr>docroot = ''/srv'', front_controller = ''/index.php'', front_controller_ok = True, request_id_on = False\<rparr>"

definition sample_req :: evhttp_request where
  "sample_req = \<lparr>command = EVHTTP_REQ_POST, r_uri = ''/a.php?x=1'',
     evuri = Some \<lparr>u_path = Some ''/a.php'', u_query = Some ''x=1'', u_host = None\<rparr>,
     major = 1, minor = 1, r_host = Some ''h:80'',
     input_headers = [(''Host'', ''h:80''), (''X_Evil'', ''1''), (''Accept'', ''*/*'')], input_buffer = ''hello''\<rparr>"

definition sample_conn :: fpm_http_conn where
  "sample_conn = \<lparr>c_params = None, c_out = [], params_oversize = False, peer_addr = ''10.0.0.9'', peer_port = 4000,
     fwd = \<lparr>remote_addr = [], scheme = ''http'', https = False, server_port = []\<rparr>,
     c_remote_addr = [], c_remote_user = [], c_request_id = None\<rparr>"

definition sample_worker :: fcgi_request where
  "sample_worker = \<lparr>req_id = 0, keep = False, in_len = 0, in_pad = 0, has_env = False, env = [], fd = [], sent = []\<rparr>"

lemma sample_forwardable: "forwardable sample_env sample_gw 0 sample_req sample_conn"
  by code_simp

lemma sample_accepted: "\<exists>c'. fpm_http_build_request sample_env sample_gw 0 sample_req sample_conn = Inr c'"
proof -
  have "c_params sample_conn = None" "\<not> params_oversize sample_conn" "strdup_ok sample_env"
    by (simp_all add: sample_conn_def sample_env_def)
  with build_request_cases [where c = sample_conn and e = sample_env and gw = sample_gw and hint = 0 and req = sample_req] show ?thesis
    using sample_forwardable by (auto split: sum.splits if_splits)
qed


theorem build_request_refusals_witness:
  "case fpm_http_build_request sample_env sample_gw 0 (sample_req\<lparr>command := EVHTTP_REQ_OTHER\<rparr>) sample_conn of
      Inr c' \<Rightarrow> False | Inl code \<Rightarrow> code = HTTP_BADREQUEST"
proof -
  have "c_params sample_conn = None" "\<not> params_oversize sample_conn" "strdup_ok sample_env"
    by (simp_all add: sample_conn_def sample_env_def)
  moreover have "\<not> forwardable sample_env sample_gw 0 (sample_req\<lparr>command := EVHTTP_REQ_OTHER\<rparr>) sample_conn"
    by (simp add: forwardable_def request_params_def)
  ultimately show ?thesis
    using build_request_refusals [where c = sample_conn and e = sample_env and gw = sample_gw and hint = 0 and
      req = "sample_req\<lparr>command := EVHTTP_REQ_OTHER\<rparr>"]
    by (auto split: sum.splits if_splits)
qed

section \<open>The script stays under the document root\<close>

lemma contains_str_iff: "contains_str n s \<longleftrightarrow> (\<exists>a b. s = a @ n @ b)"
  by (induction s) (auto simp: prefix_def Cons_eq_append_conv)

lemma split_on_mem:
  "t \<in> set (split_on c s) \<Longrightarrow> \<exists>a b. s = a @ t @ b \<and> (a = [] \<or> last a = c) \<and> (b = [] \<or> hd b = c)"
proof (induction "length s" arbitrary: s rule: less_induct)
  case less
  let ?w = "takeWhile (\<lambda>x. x \<noteq> c) s" and ?r = "dropWhile (\<lambda>x. x \<noteq> c) s"
  show ?case
  proof (cases "c \<in> set s")
    case True
    then obtain u v where s: "s = u @ c # v" "c \<notin> set u" by (meson split_list_first)
    then have "split_on c s = u # split_on c v" by (simp add: split_on_append)
    then consider "t = u" | "t \<in> set (split_on c v)" using less.prems by auto
    then show ?thesis
    proof cases
      case 1
      then show ?thesis using s by (intro exI [of _ "[]"] exI [of _ "c # v"]) simp
    next
      case 2
      from less.hyps [OF _ 2] s obtain a b where "v = a @ t @ b" "a = [] \<or> last a = c" "b = [] \<or> hd b = c" by auto
      then show ?thesis using s by (intro exI [of _ "u @ c # a"] exI [of _ b]) auto
    qed
  next
    case False
    then show ?thesis using less.prems by (simp add: split_on_piece) (metis append_Nil append_Nil2)
  qed
qed

lemma find_sub_sound: "find_sub n s = Some i \<Longrightarrow> take (length n) (drop i s) = n"
  by (induction s arbitrary: i) (auto split: if_splits)

lemma climb_in_prefix:
  assumes "pre @ suf = a @ ''/../'' @ b" "CHR ''/'' \<notin> set suf"
  shows "\<exists>us. pre = a @ ''/../'' @ us"
proof -
  from assms(1) obtain us where "pre = (a @ ''/../'') @ us \<and> us @ suf = b \<or> pre @ us = a @ ''/../'' \<and> suf = us @ b"
    unfolding append_assoc [symmetric] by (auto simp: append_eq_append_conv2 simp del: append_assoc)
  then show ?thesis
  proof
    assume *: "pre @ us = a @ ''/../'' \<and> suf = us @ b"
    show ?thesis
    proof (cases us rule: rev_cases)
      case (snoc us' x)
      then have "x = last (a @ ''/../'')" using * by (metis append_assoc last_snoc)
      then have "x = CHR ''/''" by simp
      then show ?thesis using * snoc assms(2) by simp
    qed (use * in auto)
  qed auto
qed

lemma no_climb:
  assumes "fpm_http_decoded_path_ok d" "decoded_pre = take i d" "decoded_pre \<noteq> []" "CHR ''/'' \<notin> set suf"
    and "decoded_pre @ suf = d \<or> last (decoded_pre @ suf) \<noteq> CHR ''.''"
  shows "''..'' \<notin> set (split_on CHR ''/'' (decoded_pre @ suf))"
proof
  let ?p = "decoded_pre @ suf"
  have d: "d \<noteq> []" "hd d = CHR ''/''" "\<not> contains_str ''/../'' d" "\<not> (\<exists>x. d = x @ ''/..'')"
    using assms(1) by (auto simp: fpm_http_decoded_path_ok_def)
  have hd: "hd ?p = CHR ''/''" using assms(2,3) d(1,2) by (cases d; cases i) auto
  assume "''..'' \<in> set (split_on CHR ''/'' ?p)"
  then obtain a b where ab: "?p = a @ ''..'' @ b" "a = [] \<or> last a = CHR ''/''" "b = [] \<or> hd b = CHR ''/''"
    using split_on_mem by blast
  have "a \<noteq> []" using ab(1) hd by (cases a) auto
  then obtain a' where a: "a = a' @ ''/''" using ab(2) by (metis append_butlast_last_id)
  show False
  proof (cases b)
    case Nil
    then have "?p = a' @ ''/..''" using ab(1) a by simp
    then show False using assms(5) d(4) by (metis last_append last.simps list.distinct(1))
  next
    case (Cons x b')
    then have "?p = a' @ ''/../'' @ b'" using ab(1,3) a by simp
    from climb_in_prefix [OF this assms(4)] obtain us where "take i d = a' @ ''/../'' @ us" using assms(2) by auto
    then have "d = a' @ ''/../'' @ us @ drop i d" by (metis append_assoc append_take_drop_id)
    then show False using d(3) contains_str_iff by blast
  qed
qed

text \<open>
  C29. The file a request runs lies under the document root: it is the configured front
  controller, or the document root followed by a path that begins with a slash and has no
  \<open>..\<close> segment, for every decoded path that passes the check, every split at
  \<open>.php/\<close> and every trailing slash.
\<close>

theorem script_under_docroot:
  assumes "fpm_http_decoded_path_ok d"
  shows "fst (script_of e gw hint d) = docroot gw @ front_controller gw \<or>
    (\<exists>p. fst (script_of e gw hint d) = docroot gw @ p \<and> take 1 p = ''/'' \<and> ''..'' \<notin> set (split_on CHR ''/'' p))"
proof -
  define pi where "pi = map_option (\<lambda>i. i + 4) (find_sub ''.php/'' d)"
  define pre where "pre = (case pi of Some i \<Rightarrow> take i d | None \<Rightarrow> d)"
  define suf where "suf = (if last d = CHR ''/'' then ''index.php'' else [])"
  have d: "d \<noteq> []" "hd d = CHR ''/''" using assms by (auto simp: fpm_http_decoded_path_ok_def)
  have pre: "pre = d \<or> (\<exists>i. pre = take i d \<and> pre \<noteq> [] \<and> last pre = CHR ''p'')"
  proof (cases "find_sub ''.php/'' d")
    case (Some i)
    from find_sub_sound [OF this] have 5: "take 5 (drop i d) = ''.php/''" by (simp add: eval_nat_numeral)
    have "take 4 (drop i d) = take 4 (take 5 (drop i d))" by simp
    also have "\<dots> = ''.php''" unfolding 5 by simp
    finally have "take (i + 4) d = take i d @ ''.php''" by (simp add: take_add)
    then show ?thesis using Some by (intro disjI2 exI [of _ "i + 4"]) (simp add: pre_def pi_def)
  qed (simp add: pre_def pi_def)
  have s: "CHR ''/'' \<notin> set suf" by (simp add: suf_def)
  obtain i where i: "pre = take i d" "pre \<noteq> []" using pre d(1) by (metis take_all_iff order_refl)
  have "pre @ suf = d \<or> last (pre @ suf) \<noteq> CHR ''.''"
    using pre by (auto simp: suf_def)
  from no_climb [OF assms i s this] have n: "''..'' \<notin> set (split_on CHR ''/'' (pre @ suf))" .
  have t: "take 1 (pre @ suf) = ''/''" using i d by (cases d; cases i) auto
  have "fst (script_of e gw hint d) \<in> {docroot gw @ front_controller gw, docroot gw @ pre @ suf}"
    by (simp add: script_of_def Let_def pre_def pi_def suf_def)
  then show ?thesis using n t by blast
qed

theorem script_under_docroot_witness:
  "fst (script_of sample_env (sample_gw\<lparr>front_controller_ok := False\<rparr>) 0 ''/a/b.php/c'') = ''/srv/a/b.php'' \<and>
    (\<exists>p. ''/srv/a/b.php'' = ''/srv'' @ p \<and> take 1 p = ''/'' \<and> ''..'' \<notin> set (split_on CHR ''/'' p))"
proof -
  have f: "fst (script_of sample_env (sample_gw\<lparr>front_controller_ok := False\<rparr>) 0 ''/a/b.php/c'') = ''/srv/a/b.php''" by code_simp
  have "fpm_http_decoded_path_ok ''/a/b.php/c''" by code_simp
  from script_under_docroot [OF this, of sample_env "sample_gw\<lparr>front_controller_ok := False\<rparr>" 0]
  show ?thesis unfolding f by (simp add: sample_gw_def)
qed


end
