(* ===== verification/Http_Client_Request.thy ===== *)
theory Http_Client_Request
  imports Http_Client Http_Fcgi
begin

text \<open>
  The request the gateway writes to an http-direct target (\<open>fpm_http_client.c\<close>, from
  \<open>fpm_http_http_upgrade_requested()\<close> to \<open>fpm_http_http_write_request()\<close>).
\<close>

definition FPM_HTTP_HEADERS_MAX :: nat where "FPM_HTTP_HEADERS_MAX = 64 * 1024"

definition find_header :: "(string \<times> string) list \<Rightarrow> string \<Rightarrow> string option" where
  "find_header hs key = map_option snd (find (\<lambda>(k, v). strcaseeq k key) hs)"

definition fpm_http_http_upgrade_requested :: "evhttp_request \<Rightarrow> bool" where
  "fpm_http_http_upgrade_requested req \<longleftrightarrow>
     (case find_header (input_headers req) ''Upgrade'' of Some v \<Rightarrow> v \<noteq> [] | None \<Rightarrow> False)"

definition fpm_http_http_websocket_upgrade :: "evhttp_request \<Rightarrow> bool" where
  "fpm_http_http_websocket_upgrade req \<longleftrightarrow>
     command req = EVHTTP_REQ_GET \<and>
     (case find_header (input_headers req) ''Upgrade'' of Some v \<Rightarrow> strcaseeq v ''websocket'' | None \<Rightarrow> False)"

definition fpm_http_http_xff :: "string option \<Rightarrow> string \<Rightarrow> bytes" where
  "fpm_http_http_xff existing effective =
     (case existing of Some v \<Rightarrow> if v \<noteq> [] then v @ '', '' else [] | None \<Rightarrow> []) @ effective @ crlf"

text \<open>What the request takes from the gateway and the connection.\<close>

record client_conn =
  route_upgrade :: bool
  upstream_uri :: "string option"
  pool_name :: string
  request_ids :: bool
  own_id :: string
  peer :: string
  fwd_scheme :: string
  fwd_port :: string

definition header_kept :: "bool \<Rightarrow> string \<Rightarrow> bool" where
  "header_kept ids key \<longleftrightarrow>
     \<not> (fpm_http_http_header_dropped key \<or> CHR ''_'' \<in> set key \<or> strcaseeq key ''Host'' \<or>
        strcaseeq key ''Content-Length'' \<or> strcaseeq key ''X-Forwarded-For'' \<or> strcaseeq key ''X-Forwarded-Proto'' \<or>
        strcaseeq key ''X-Forwarded-Port'' \<or> (ids \<and> strcaseeq key ''X-Request-Id''))"

definition header_text :: "string \<times> string \<Rightarrow> bytes" where
  "header_text h = fst h @ '': '' @ snd h @ crlf"

text \<open>The bytes of a block counted against the limit: each line up to the blank one, without its end.\<close>

fun counted_lines :: "bytes list \<Rightarrow> nat" where
  "counted_lines (l # m # ls) =
     (if l = [CR] then 0 else length (strip_cr l) + counted_lines (m # ls))"
| "counted_lines _ = 0"

definition request_head :: "client_conn \<Rightarrow> bool \<Rightarrow> evhttp_request \<Rightarrow> string \<Rightarrow> bytes" where
  "request_head c upgrade req meth =
     (let hs = input_headers req; host = find_header hs ''Host'';
          host = (case authority_of req of Some a \<Rightarrow> Some a | None \<Rightarrow> host)
      in
      meth @ '' '' @ (case upstream_uri c of Some u \<Rightarrow> u | None \<Rightarrow> fpm_http_origin_form req) @ '' HTTP/1.1'' @ crlf @
      header_text (''Host'', case host of Some h \<Rightarrow> h | None \<Rightarrow> pool_name c) @
      concat (map header_text (filter (\<lambda>(k, v). header_kept (request_ids c) k) hs)) @
      (if own_id c \<noteq> [] then header_text (''X-Request-Id'', own_id c) else []) @
      ''X-Forwarded-For: '' @ fpm_http_http_xff (find_header hs ''X-Forwarded-For'') (peer c) @
      header_text (''X-Forwarded-Proto'', if fwd_scheme c \<noteq> [] then fwd_scheme c else ''http'') @
      (if fwd_port c \<noteq> [] then header_text (''X-Forwarded-Port'', fwd_port c) else []) @
      header_text (''Content-Length'', dec (length (input_buffer req))) @
      (if upgrade then header_text (''Connection'', ''Upgrade'') @ header_text (''Upgrade'', ''websocket'')
       else header_text (''Connection'', ''keep-alive'')) @ crlf)"

text \<open>
  \<open>Inl\<close> is the status of a refusal, \<open>Inr\<close> the bytes and whether the connection will
  switch; \<open>None\<close> is the method without a name, whose null pointer the code would append.
\<close>

definition fpm_http_http_write_request :: "client_conn \<Rightarrow> evhttp_request \<Rightarrow> (nat + bytes \<times> bool) option" where
  "fpm_http_http_write_request c req =
     (let upgrade = fpm_http_http_upgrade_requested req in
      if upgrade \<and> \<not> (route_upgrade c \<and> fpm_http_http_websocket_upgrade req) then Some (Inl 501)
      else
        map_option
          (\<lambda>meth.
             let out = request_head c upgrade req meth in
             if counted_lines (split_on LF out) > FPM_HTTP_HEADERS_MAX then Inl 400
             else Inr (out @ input_buffer req, upgrade))
          (fpm_http_method_name (command req)))"


end
