(* ===== verification/Http_Static.thy ===== *)
theory Http_Static
  imports Cstring
begin

text \<open>
  Static files: the Range and If-Range tests (\<open>fpm_http_static_range.c\<close>).
  A position is accumulated in a \<open>long long\<close> and clamped to its largest value; the main
  lemma compares the parser with the same range read with unbounded numbers. A header value is the
  text before its terminating NUL byte; \<open>range_text\<close> and \<open>selected\<close> are the specification.
\<close>

definition LLONG_MAX :: nat where "LLONG_MAX = 2 ^ 63 - 1"

datatype fpm_http_static_range =
    FPM_HTTP_STATIC_RANGE_IGNORE
  | FPM_HTTP_STATIC_RANGE_PARTIAL nat nat
  | FPM_HTTP_STATIC_RANGE_UNSATISFIABLE

text \<open>The value of the digits at the front, and how many there are.\<close>

definition fpm_http_static_range_digits :: "string \<Rightarrow> nat \<times> nat \<times> string" where
  "fpm_http_static_range_digits p =
     (let ds = takeWhile isdigit p in
      (foldl (\<lambda>out c. if out > (LLONG_MAX - digit_val c) div 10 then LLONG_MAX else out * 10 + digit_val c) 0 ds,
       length ds, dropWhile isdigit p))"

definition fpm_http_static_parse_range :: "string option \<Rightarrow> nat \<Rightarrow> fpm_http_static_range" where
  "fpm_http_static_parse_range value len =
     (case value of
        None \<Rightarrow> FPM_HTTP_STATIC_RANGE_IGNORE
      | Some v \<Rightarrow>
          if \<not> strncaseeq v ''bytes='' 6 then FPM_HTTP_STATIC_RANGE_IGNORE
          else
            let p = drop 6 v; suffix = (p \<noteq> [] \<and> hd p = CHR ''-''); p = (if suffix then tl p else p);
                (a, na, p) = fpm_http_static_range_digits p
            in
            if suffix then
              (if na = 0 \<or> p \<noteq> [] then FPM_HTTP_STATIC_RANGE_IGNORE
               else if a = 0 \<or> len = 0 then FPM_HTTP_STATIC_RANGE_UNSATISFIABLE
               else let a = (if a > len then len else a) in FPM_HTTP_STATIC_RANGE_PARTIAL (len - a) (len - 1))
            else if na = 0 \<or> p = [] \<or> hd p \<noteq> CHR ''-'' then FPM_HTTP_STATIC_RANGE_IGNORE
            else
              let (b, nb, p) = fpm_http_static_range_digits (tl p); has_b = nb > 0 in
              if p \<noteq> [] then FPM_HTTP_STATIC_RANGE_IGNORE
              else if has_b \<and> b < a then FPM_HTTP_STATIC_RANGE_IGNORE
              else if a \<ge> len then FPM_HTTP_STATIC_RANGE_UNSATISFIABLE
              else FPM_HTTP_STATIC_RANGE_PARTIAL a (if has_b \<and> b < len then b else len - 1))"

definition fpm_http_static_if_range_matches :: "string \<Rightarrow> string \<Rightarrow> string \<Rightarrow> bool" where
  "fpm_http_static_if_range_matches value etag last_modified \<longleftrightarrow>
     (if take 1 value = [CHR 0x22] then value = etag
      else if take 2 value = ''W/'' then False
      else last_modified \<noteq> [] \<and> value = last_modified)"

section \<open>Ranges with unbounded positions\<close>

datatype byte_range = Suffix nat | From nat | Between nat nat

definition number :: "string \<Rightarrow> bool" where
  "number ds \<longleftrightarrow> ds \<noteq> [] \<and> list_all isdigit ds"

text \<open>The single ranges of RFC 9110 and their texts.\<close>

inductive range_text :: "string \<Rightarrow> byte_range \<Rightarrow> bool" where
  suffix: "strcaseeq u ''bytes='' \<Longrightarrow> number ds \<Longrightarrow> range_text (u @ ''-'' @ ds) (Suffix (dec_value 0 ds))"
| onwards: "strcaseeq u ''bytes='' \<Longrightarrow> number ds \<Longrightarrow> range_text (u @ ds @ ''-'') (From (dec_value 0 ds))"
| between: "strcaseeq u ''bytes='' \<Longrightarrow> number ds \<Longrightarrow> number es \<Longrightarrow>
    range_text (u @ ds @ ''-'' @ es) (Between (dec_value 0 ds) (dec_value 0 es))"

text \<open>
  What a range selects of a representation of \<open>len\<close> bytes; an inverted range is invalid and
  ignored.
\<close>

definition selected :: "byte_range \<Rightarrow> nat \<Rightarrow> fpm_http_static_range" where
  "selected r len =
     (case r of
        Suffix n \<Rightarrow> if n = 0 \<or> len = 0 then FPM_HTTP_STATIC_RANGE_UNSATISFIABLE
          else FPM_HTTP_STATIC_RANGE_PARTIAL (len - min n len) (len - 1)
      | From a \<Rightarrow> if a \<ge> len then FPM_HTTP_STATIC_RANGE_UNSATISFIABLE else FPM_HTTP_STATIC_RANGE_PARTIAL a (len - 1)
      | Between a b \<Rightarrow>
          if b < a then FPM_HTTP_STATIC_RANGE_IGNORE
          else if a \<ge> len then FPM_HTTP_STATIC_RANGE_UNSATISFIABLE
          else FPM_HTTP_STATIC_RANGE_PARTIAL a (min b (len - 1)))"

text \<open>An inverted range whose positions are both clamped: they are equal for the parser.\<close>

fun both_clamped :: "byte_range \<Rightarrow> bool" where
  "both_clamped (Between a b) = (b < a \<and> LLONG_MAX \<le> b)"
| "both_clamped _ = False"

lemma LLONG_MAX_ge: "9 < LLONG_MAX"
  by (simp add: LLONG_MAX_def)

lemma clamp_step:
  assumes "d \<le> 9"
  shows "(if min n LLONG_MAX > (LLONG_MAX - d) div 10 then LLONG_MAX else min n LLONG_MAX * 10 + d) = min (n * 10 + d) LLONG_MAX"
proof -
  have "min n LLONG_MAX > (LLONG_MAX - d) div 10 \<longleftrightarrow> LLONG_MAX < min n LLONG_MAX * 10 + d"
    using assms LLONG_MAX_ge by (subst div_less_iff_less_mult) linarith+
  then show ?thesis using assms LLONG_MAX_ge by (simp only:) (simp split: split_min)
qed

lemma clamp_fold:
  "list_all isdigit ds \<Longrightarrow>
   foldl (\<lambda>out c. if out > (LLONG_MAX - digit_val c) div 10 then LLONG_MAX else out * 10 + digit_val c) (min n LLONG_MAX) ds =
   min (dec_value n ds) LLONG_MAX"
proof (induction ds arbitrary: n)
  case (Cons c ds)
  then have "digit_val c \<le> 9" by (simp add: digit_val_le)
  then show ?case using Cons by (simp only: foldl_Cons clamp_step dec_value_simps list.pred_inject)
qed simp

lemma range_digits:
  "fpm_http_static_range_digits p =
     (min (dec_value 0 (takeWhile isdigit p)) LLONG_MAX, length (takeWhile isdigit p), dropWhile isdigit p)"
proof -
  have "list_all isdigit (takeWhile isdigit p)" by (auto simp: list_all_iff dest: set_takeWhileD)
  from clamp_fold [OF this, of 0] show ?thesis by (simp add: fpm_http_static_range_digits_def Let_def)
qed


lemma takeWhile_number [simp]:
  "list_all isdigit ds \<Longrightarrow> takeWhile isdigit (ds @ CHR ''-'' # es) = ds"
  "list_all isdigit ds \<Longrightarrow> dropWhile isdigit (ds @ CHR ''-'' # es) = CHR ''-'' # es"
  "list_all isdigit ds \<Longrightarrow> takeWhile isdigit ds = ds"
  "list_all isdigit ds \<Longrightarrow> dropWhile isdigit ds = []"
  by (induction ds) (auto simp: isdigit_of_char)

lemma number_hd: "number ds \<Longrightarrow> hd (ds @ es) \<noteq> CHR ''-''"
  by (cases ds) (auto simp: number_def isdigit_of_char)

lemma bytes_unit:
  assumes "strcaseeq u ''bytes=''"
  shows "strncaseeq (u @ p) ''bytes='' 6" "drop 6 (u @ p) = p"
  using assms strcaseeq_length [OF assms] by (simp_all add: strncaseeq_def strcaseeq_def)

lemma parse_suffix:
  assumes "strcaseeq u ''bytes=''"
  shows "fpm_http_static_parse_range (Some (u @ CHR ''-'' # q)) len =
    (let a = min (dec_value 0 (takeWhile isdigit q)) LLONG_MAX in
     if takeWhile isdigit q = [] \<or> dropWhile isdigit q \<noteq> [] then FPM_HTTP_STATIC_RANGE_IGNORE
     else if a = 0 \<or> len = 0 then FPM_HTTP_STATIC_RANGE_UNSATISFIABLE
     else FPM_HTTP_STATIC_RANGE_PARTIAL (len - min a len) (len - 1))"
  unfolding fpm_http_static_parse_range_def option.case bytes_unit [OF assms] range_digits Let_def
  by (simp add: bytes_unit(1) [OF assms] min_def del: dropWhile_eq_Nil_conv)

lemma parse_positions:
  assumes "strcaseeq u ''bytes=''" "p = [] \<or> hd p \<noteq> CHR ''-''"
  shows "fpm_http_static_parse_range (Some (u @ p)) len =
    (let a = min (dec_value 0 (takeWhile isdigit p)) LLONG_MAX; q = dropWhile isdigit p;
         es = takeWhile isdigit (tl q); b = min (dec_value 0 es) LLONG_MAX in
     if takeWhile isdigit p = [] \<or> q = [] \<or> hd q \<noteq> CHR ''-'' \<or> dropWhile isdigit (tl q) \<noteq> [] \<or> es \<noteq> [] \<and> b < a
     then FPM_HTTP_STATIC_RANGE_IGNORE
     else if a \<ge> len then FPM_HTTP_STATIC_RANGE_UNSATISFIABLE
     else FPM_HTTP_STATIC_RANGE_PARTIAL a (if es \<noteq> [] \<and> b < len then b else len - 1))"
proof -
  have nosuffix: "(p \<noteq> [] \<and> hd p = CHR ''-'') = False" using assms(2) by blast
  have unit: "strncaseeq (u @ p) ''bytes='' 6 = True" using bytes_unit(1) [OF assms(1)] by blast
  have chain: "(if c1 then x else if c2 then x else if c3 then x else y) = (if c1 \<or> c2 \<or> c3 then x else y)"
    for c1 c2 c3 and x y :: fpm_http_static_range by simp
  show ?thesis
    unfolding fpm_http_static_parse_range_def option.case unit bytes_unit(2) [OF assms(1)] Let_def nosuffix
      not_True_eq_False if_False range_digits prod.case length_0_conv length_greater_0_conv chain disj_assoc
    by (rule refl)
qed

lemma parse_range_text:
  assumes "range_text v r" "len \<le> LLONG_MAX"
  shows "fpm_http_static_parse_range (Some v) len =
    (if both_clamped r then FPM_HTTP_STATIC_RANGE_UNSATISFIABLE else selected r len)"
  using assms(1)
proof cases
  case (suffix u ds)
  then show ?thesis using assms(2) LLONG_MAX_ge
    by (simp add: parse_suffix number_def selected_def Let_def min_def)
next
  case (onwards u ds)
  then show ?thesis using assms(2) number_hd [of ds "''-''"]
    by (simp add: parse_positions number_def selected_def Let_def min_def)
next
  case (between u ds es)
  then have "hd (ds @ CHR ''-'' # es) \<noteq> CHR ''-''" using number_hd by blast
  with between show ?thesis using assms(2)
    by (auto simp: parse_positions number_def selected_def Let_def min_def simp del: dropWhile_eq_Nil_conv)
qed

lemma parse_range_ignores:
  assumes "\<nexists>r. range_text v r"
  shows "fpm_http_static_parse_range (Some v) len = FPM_HTTP_STATIC_RANGE_IGNORE"
proof (rule ccontr)
  assume n: "\<not> ?thesis"
  define u p where "u = take 6 v" and "p = drop 6 v"
  have v: "v = u @ p" by (simp add: u_def p_def)
  have u: "strcaseeq u ''bytes=''"
    using n by (auto simp: fpm_http_static_parse_range_def strncaseeq_def strcaseeq_def u_def split: if_splits)
  define ds q where "ds = takeWhile isdigit p" and "q = dropWhile isdigit p"
  have p: "p = ds @ q" and ds: "list_all isdigit ds"
    by (auto simp: ds_def q_def list_all_iff dest: set_takeWhileD)
  show False
  proof (cases "p \<noteq> [] \<and> hd p = CHR ''-''")
    case True
    then obtain es where es: "p = CHR ''-'' # es" by (cases p) auto
    have "takeWhile isdigit es \<noteq> []" "dropWhile isdigit es = []"
      using n unfolding v es parse_suffix [OF u] Let_def by (simp_all split: if_split_asm del: dropWhile_eq_Nil_conv takeWhile_eq_Nil_iff)
    then have "number es" by (auto simp: number_def list_all_iff)
    then show False using assms range_text.suffix [OF u] by (auto simp: v es)
  next
    case False
    then have ph: "p = [] \<or> hd p \<noteq> CHR ''-''" by blast
    have "ds \<noteq> []" "q \<noteq> []" "hd q = CHR ''-''" "dropWhile isdigit (tl q) = []"
      using n unfolding v parse_positions [OF u ph] Let_def ds_def [symmetric] q_def [symmetric] by (simp_all split: if_split_asm del: dropWhile_eq_Nil_conv takeWhile_eq_Nil_iff)
    moreover from this ds have nd: "number ds" by (simp add: number_def)
    ultimately obtain es where "q = CHR ''-'' # es" "list_all isdigit es" by (cases q) (auto simp: list_all_iff)
    then show False using assms nd range_text.onwards [OF u, of ds] range_text.between [OF u, of ds es]
      by (cases "es = []") (auto simp: v p number_def)
  qed
qed

text \<open>
  C40. The Range parser serves exactly the single byte ranges of RFC 9110. On a file of at most
  \<open>LLONG_MAX\<close> bytes, a value that is the text of a range gives what the range selects, read with
  unbounded positions, except that an inverted range whose two positions are both clamped is
  answered as unsatisfiable instead of being ignored. Every other value is ignored.
\<close>

theorem parse_range_exact:
  assumes "len \<le> LLONG_MAX"
  shows "(\<forall>r. range_text v r \<longrightarrow> fpm_http_static_parse_range (Some v) len =
      (if both_clamped r then FPM_HTTP_STATIC_RANGE_UNSATISFIABLE else selected r len)) \<and>
    ((\<nexists>r. range_text v r) \<longrightarrow> fpm_http_static_parse_range (Some v) len = FPM_HTTP_STATIC_RANGE_IGNORE)"
  using assms parse_range_text parse_range_ignores by blast

theorem parse_range_exact_witness:
  "(100::nat) \<le> LLONG_MAX \<and> range_text ''Bytes=20-300'' (Between 20 300) \<and>
   fpm_http_static_parse_range (Some ''Bytes=20-300'') 100 = FPM_HTTP_STATIC_RANGE_PARTIAL 20 99"
proof -
  have l: "(100::nat) \<le> LLONG_MAX" by (simp add: LLONG_MAX_def)
  have "range_text (''Bytes='' @ ''20'' @ ''-'' @ ''300'') (Between (dec_value 0 ''20'') (dec_value 0 ''300''))"
    by (rule range_text.between) (code_simp)+
  moreover have "dec_value 0 ''20'' = 20" "dec_value 0 ''300'' = 300" by code_simp+
  ultimately have r: "range_text ''Bytes=20-300'' (Between 20 300)" by simp
  show ?thesis using parse_range_exact [OF l, of "''Bytes=20-300''"] l r by (simp add: selected_def)
qed

end
