(* ===== verification/Payload.thy ===== *)
theory Payload
  imports Cstring
begin

text \<open>
  Payloads appended to the binary: the reader (\<open>fpm_payload.c\<close>), the writer
  \<open>php-fpm-ng pack\<close> (\<open>fpm_pack.c\<close>) and the archive inside. A file is its list of
  bytes; offsets and sizes are natural numbers, cut to the width of the field they are
  written to. SHA-256 is a parameter. The main lemmas: what is packed is read back,
  packing keeps the entries that were there, and the walk over the chain ends.
\<close>

section \<open>Little-endian fields\<close>

fun le_value :: "bytes \<Rightarrow> nat" where
  "le_value [] = 0"
| "le_value (c # s) = of_char c + 256 * le_value s"

fun put_le :: "nat \<Rightarrow> nat \<Rightarrow> bytes" where
  "put_le 0 v = []"
| "put_le (Suc n) v = char_of v # put_le n (v div 256)"

definition fpm_payload_u32 :: "bytes \<Rightarrow> nat" where "fpm_payload_u32 p = le_value (take 4 p)"
definition fpm_payload_u64 :: "bytes \<Rightarrow> nat" where
  "fpm_payload_u64 p = fpm_payload_u32 p + 2 ^ 32 * fpm_payload_u32 (drop 4 p)"

definition fpm_pack_put32 :: "nat \<Rightarrow> bytes" where "fpm_pack_put32 v = put_le 4 v"
definition fpm_pack_put64 :: "nat \<Rightarrow> bytes" where "fpm_pack_put64 v = put_le 8 v"

section \<open>Finding an entry\<close>

definition FPM_PAYLOAD_KIND_DISTRIBUTION :: nat where "FPM_PAYLOAD_KIND_DISTRIBUTION = 1"
definition FPM_PAYLOAD_KIND_APPLICATION :: nat where "FPM_PAYLOAD_KIND_APPLICATION = 2"
definition FPM_PAYLOAD_MAGIC :: bytes where "FPM_PAYLOAD_MAGIC = ''FPMNGPY1''"
definition FPM_PAYLOAD_RECORD_SIZE :: nat where "FPM_PAYLOAD_RECORD_SIZE = 72"
definition FPM_PAYLOAD_DIGEST_SIZE :: nat where "FPM_PAYLOAD_DIGEST_SIZE = 32"
definition FPM_PAYLOAD_MAX_CHAIN :: nat where "FPM_PAYLOAD_MAX_CHAIN = 64"

record fpm_payload_entry =
  kind :: nat
  offset :: nat
  size_of :: nat
  digest :: bytes

text \<open>
  One record, one step of the walk (an answer, or the record before), and the walk: \<open>Inl\<close> is the reason of a broken
  payload, \<open>Inr None\<close> a file without an entry of the kind. The first argument counts
  the steps that are left, \<open>first\<close> tells the step that followed no pointer.
\<close>

definition record_at :: "bytes \<Rightarrow> nat \<Rightarrow> bytes option" where
  "record_at f at =
     (if at + FPM_PAYLOAD_RECORD_SIZE \<le> length f then Some (take FPM_PAYLOAD_RECORD_SIZE (drop at f)) else None)"

definition find_step :: "bool \<Rightarrow> bytes \<Rightarrow> nat \<Rightarrow> nat \<Rightarrow> (string + fpm_payload_entry option) + nat" where
  "find_step first f k at =
     (case record_at f at of
        None \<Rightarrow> Inl (Inl ''a payload record could not be read'')
      | Some record \<Rightarrow>
          if take 8 record \<noteq> FPM_PAYLOAD_MAGIC
          then Inl (if first then Inr None else Inl ''a payload record points at data that is not a payload record'')
          else
            let this_kind = fpm_payload_u32 (drop 8 record); flags = fpm_payload_u32 (drop 12 record);
                off = fpm_payload_u64 (drop 16 record); sz = fpm_payload_u64 (drop 24 record);
                prev = fpm_payload_u64 (drop 64 record)
            in
            if flags \<noteq> 0 then Inl (Inl ''a payload record sets flags this build does not know'')
            else if sz > at \<or> off > at - sz then Inl (Inl ''a payload record describes data outside the binary'')
            else if this_kind = k
            then Inl (Inr (Some \<lparr>kind = this_kind, offset = off, size_of = sz,
                                 digest = take FPM_PAYLOAD_DIGEST_SIZE (drop 32 record)\<rparr>))
            else if prev = 0 then Inl (Inr None)
            else if prev \<ge> at \<or> prev > length f - FPM_PAYLOAD_RECORD_SIZE
            then Inl (Inl ''a payload record does not point backwards'')
            else Inr prev)"

fun find_loop :: "nat \<Rightarrow> bool \<Rightarrow> bytes \<Rightarrow> nat \<Rightarrow> nat \<Rightarrow> string + fpm_payload_entry option" where
  "find_loop 0 first f k at = Inl ''the payload chain is longer than this build accepts''"
| "find_loop (Suc n) first f k at =
     (case find_step first f k at of Inl r \<Rightarrow> r | Inr prev \<Rightarrow> find_loop n False f k prev)"

text \<open>The file as \<open>fopen()\<close> and \<open>ftell()\<close> give it: \<open>None\<close> when it cannot be opened.\<close>

definition fpm_payload_find :: "bytes option \<Rightarrow> nat \<Rightarrow> string + fpm_payload_entry option" where
  "fpm_payload_find file k =
     (case file of
        None \<Rightarrow> Inl ''the file cannot be opened''
      | Some f \<Rightarrow>
          if length f < FPM_PAYLOAD_RECORD_SIZE then Inr None
          else find_loop FPM_PAYLOAD_MAX_CHAIN True f k (length f - FPM_PAYLOAD_RECORD_SIZE))"

section \<open>Reading an entry\<close>

definition fpm_payload_read :: "(bytes \<Rightarrow> bytes) \<Rightarrow> bytes option \<Rightarrow> fpm_payload_entry \<Rightarrow> string + bytes" where
  "fpm_payload_read sha256 file entry =
     (if size_of entry > SIZE_MAX - 1 then Inl ''the payload entry does not fit in memory''
      else (case file of
              None \<Rightarrow> Inl ''the file cannot be opened''
            | Some f \<Rightarrow>
                let buf = take (size_of entry) (drop (offset entry) f) in
                if length buf \<noteq> size_of entry then Inl ''the payload entry could not be read in full''
                else if sha256 buf \<noteq> digest entry then Inl ''the payload entry does not match its digest''
                else Inr buf))"

section \<open>The tail of the file\<close>

text \<open>
  Whether a file ends with its ELF image or with a record. The sums of unsigned
  64-bit fields wrap.
\<close>

definition u16_at :: "bytes \<Rightarrow> nat \<Rightarrow> nat" where "u16_at h i = of_char (h ! i) + 256 * of_char (h ! (i + 1))"

definition wrap64 :: "nat \<Rightarrow> nat" where "wrap64 n = n mod 2 ^ 64"

fun segments_extent :: "bytes \<Rightarrow> nat \<Rightarrow> nat \<Rightarrow> nat list \<Rightarrow> nat \<Rightarrow> nat" where
  "segments_extent f phoff phentsize [] extent = extent"
| "segments_extent f phoff phentsize (i # is) extent =
     (let ph = take 56 (drop (wrap64 (phoff + i * phentsize)) f) in
      if wrap64 (phoff + i * phentsize) \<ge> 2 ^ 63 \<or> length ph < 56 then extent
      else
        let end_at = wrap64 (fpm_payload_u64 (drop 8 ph) + fpm_payload_u64 (drop 32 ph)) in
        segments_extent f phoff phentsize is (if end_at > extent then end_at else extent))"

definition fpm_payload_check_tail :: "bytes option \<Rightarrow> string + unit" where
  "fpm_payload_check_tail file =
     (case file of
        None \<Rightarrow> Inl ''the file cannot be opened''
      | Some f \<Rightarrow>
          if length f \<ge> FPM_PAYLOAD_RECORD_SIZE \<and>
             take 8 (drop (length f - FPM_PAYLOAD_RECORD_SIZE) f) = FPM_PAYLOAD_MAGIC then Inr ()
          else
            let hdr = take 64 f in
            if length hdr < 64 \<or> take 4 hdr \<noteq> CHR 0x7F # ''ELF'' \<or> hdr ! 4 \<noteq> CHR 0x02 \<or> hdr ! 5 \<noteq> CHR 0x01 then Inr ()
            else
              let phoff = fpm_payload_u64 (drop 32 hdr); shoff = fpm_payload_u64 (drop 40 hdr);
                  phentsize = u16_at hdr 54; phnum = u16_at hdr 56; shentsize = u16_at hdr 58; shnum = u16_at hdr 60;
                  sections = wrap64 (shoff + shentsize * shnum); programs = wrap64 (phoff + phentsize * phnum);
                  extent = 64;
                  extent = (if shoff \<noteq> 0 \<and> shnum \<noteq> 0 \<and> sections > extent then sections else extent);
                  extent = (if phoff \<noteq> 0 \<and> phnum \<noteq> 0 \<and> phentsize \<ge> 56 \<and> programs > extent then programs else extent);
                  extent = (if phoff \<noteq> 0 \<and> phnum \<le> 256 \<and> phentsize \<ge> 56
                            then segments_extent f phoff phentsize [0..<phnum] extent else extent)
              in if length f > extent
                 then Inl ''the file continues past the end of its ELF image with data that is not a payload record''
                 else Inr ())"

section \<open>The archive\<close>

definition FPM_PACK_ARCHIVE_MAGIC :: bytes where "FPM_PACK_ARCHIVE_MAGIC = ''FPMNGAR1''"
definition FPM_PACK_ENTRY_PHAR :: string where "FPM_PACK_ENTRY_PHAR = ''app.phar''"
definition FPM_PACK_ENTRY_INI :: string where "FPM_PACK_ENTRY_INI = ''php.ini''"
definition FPM_PACK_ENTRY_CONF :: string where "FPM_PACK_ENTRY_CONF = ''fpm.conf''"

record fpm_pack_input =
  i_name :: string
  i_data :: bytes

text \<open>The index: one entry per file, with the offset its data will have.\<close>

fun archive_index :: "nat \<Rightarrow> fpm_pack_input list \<Rightarrow> bytes" where
  "archive_index at [] = []"
| "archive_index at (f # fs) =
     fpm_pack_put32 (length (i_name f)) @ fpm_pack_put64 (length (i_data f)) @ fpm_pack_put64 at @ i_name f @
     archive_index (at + length (i_data f)) fs"

definition index_size :: "fpm_pack_input list \<Rightarrow> nat" where
  "index_size fs = sum_list (map (\<lambda>f. 4 + 8 + 8 + length (i_name f)) fs)"

definition fpm_pack_build_archive :: "fpm_pack_input list \<Rightarrow> bytes" where
  "fpm_pack_build_archive files =
     (let header = 12; index = index_size files in
      FPM_PACK_ARCHIVE_MAGIC @ fpm_pack_put32 (length files) @ archive_index (header + index) files @
      concat (map i_data files))"

text \<open>
  The reader of the archive (\<open>fpm_pack_archive_find()\<close>); the first argument counts the
  entries that are left, \<open>pos\<close> is the position in the index.
\<close>

fun archive_find_loop :: "nat \<Rightarrow> bytes \<Rightarrow> nat \<Rightarrow> string \<Rightarrow> bytes option" where
  "archive_find_loop 0 a pos name = None"
| "archive_find_loop (Suc n) a pos name =
     (if length a - pos < 20 then None
      else
        let nl = fpm_payload_u32 (drop pos a); sz = fpm_payload_u64 (drop (pos + 4) a);
            off = fpm_payload_u64 (drop (pos + 12) a); pos = pos + 20
        in
        if nl > length a - pos then None
        else if sz > length a \<or> off > length a - sz then None
        else if nl = length name \<and> take nl (drop pos a) = name then Some (take sz (drop off a))
        else archive_find_loop n a (pos + nl) name)"

definition fpm_pack_archive_find :: "bytes \<Rightarrow> string \<Rightarrow> bytes option" where
  "fpm_pack_archive_find a name =
     (if length a < 12 \<or> take 8 a \<noteq> FPM_PACK_ARCHIVE_MAGIC then None
      else archive_find_loop (fpm_payload_u32 (drop 8 a)) a 12 name)"

section \<open>Writing the packed executable\<close>

definition fpm_pack_contains :: "bytes \<Rightarrow> bytes \<Rightarrow> bool" where
  "fpm_pack_contains hay needle \<longleftrightarrow> length hay \<ge> length needle \<and> contains_str needle hay"

definition fpm_pack_check_content :: "bytes \<Rightarrow> bytes \<Rightarrow> bytes \<Rightarrow> bool" where
  "fpm_pack_check_content phar ini conf \<longleftrightarrow>
     fpm_pack_contains phar ''__HALT_COMPILER'' \<and> NUL \<notin> set ini \<and> NUL \<notin> set conf"

definition payload_record :: "(bytes \<Rightarrow> bytes) \<Rightarrow> nat \<Rightarrow> nat \<Rightarrow> bytes \<Rightarrow> nat \<Rightarrow> bytes" where
  "payload_record sha256 k off archive prev =
     FPM_PAYLOAD_MAGIC @ fpm_pack_put32 k @ fpm_pack_put32 0 @ fpm_pack_put64 off @
     fpm_pack_put64 (length archive) @ sha256 archive @ fpm_pack_put64 prev"

text \<open>Whether the copied binary ends in a record.\<close>

definition chained :: "bytes \<Rightarrow> bool" where
  "chained self \<longleftrightarrow>
     length self \<ge> FPM_PAYLOAD_RECORD_SIZE \<and> take 8 (drop (length self - FPM_PAYLOAD_RECORD_SIZE) self) = FPM_PAYLOAD_MAGIC"

definition packed_file :: "(bytes \<Rightarrow> bytes) \<Rightarrow> bytes \<Rightarrow> bytes \<Rightarrow> bytes" where
  "packed_file sha256 self archive =
     self @ archive @
     payload_record sha256 FPM_PAYLOAD_KIND_APPLICATION (length self) archive
       (if chained self then length self - FPM_PAYLOAD_RECORD_SIZE else 0)"

definition fpm_pack_verify :: "(bytes \<Rightarrow> bytes) \<Rightarrow> bytes \<Rightarrow> bytes \<Rightarrow> bool" where
  "fpm_pack_verify sha256 packed archive \<longleftrightarrow>
     (case fpm_payload_find (Some packed) FPM_PAYLOAD_KIND_APPLICATION of
        Inr (Some entry) \<Rightarrow> fpm_payload_read sha256 (Some packed) entry = Inr archive
      | _ \<Rightarrow> False)"

text \<open>
  \<open>fpm_pack_main()\<close> after its arguments: the three inputs as read, the running binary, and
  whether the output exists. The result is the file that appears at the output.
\<close>

definition fpm_pack_main ::
  "(bytes \<Rightarrow> bytes) \<Rightarrow> bytes option \<Rightarrow> bool \<Rightarrow> bytes \<Rightarrow> bytes \<Rightarrow> bytes \<Rightarrow> bytes option" where
  "fpm_pack_main sha256 self out_exists phar ini conf =
     (if phar = [] \<or> ini = [] \<or> conf = [] then None
      else if \<not> fpm_pack_check_content phar ini conf then None
      else if out_exists then None
      else (case self of
              None \<Rightarrow> None
            | Some s \<Rightarrow>
                (case fpm_payload_find (Some s) FPM_PAYLOAD_KIND_APPLICATION of
                   Inr None \<Rightarrow>
                     let archive = fpm_pack_build_archive
                           [\<lparr>i_name = FPM_PACK_ENTRY_CONF, i_data = conf\<rparr>,
                            \<lparr>i_name = FPM_PACK_ENTRY_INI, i_data = ini\<rparr>,
                            \<lparr>i_name = FPM_PACK_ENTRY_PHAR, i_data = phar\<rparr>];
                         packed = packed_file sha256 s archive
                     in if fpm_pack_verify sha256 packed archive then Some packed else None
                 | _ \<Rightarrow> None)))"

section \<open>Fields read back\<close>

lemma length_put_le [simp]: "length (put_le n v) = n"
  by (induction n arbitrary: v) simp_all

lemma le_value_put_le [simp]: "le_value (put_le n v) = v mod 256 ^ n"
proof (induction n arbitrary: v)
  case (Suc n)
  have "v mod 256 ^ Suc n = v mod 256 + 256 * (v div 256 mod 256 ^ n)"
    by (simp add: mod_mult2_eq)
  then show ?case using Suc by simp
qed simp

lemma le_value_append: "le_value (a @ b) = le_value a + 256 ^ length a * le_value b"
  by (induction a) (simp_all add: algebra_simps)

lemma put_widths [simp]: "length (fpm_pack_put32 v) = 4" "length (fpm_pack_put64 v) = 8"
  by (simp_all add: fpm_pack_put32_def fpm_pack_put64_def)

lemma u32_put32 [simp]: "fpm_payload_u32 (fpm_pack_put32 v @ r) = v mod 2 ^ 32"
  by (simp add: fpm_payload_u32_def fpm_pack_put32_def)

lemma u64_take: "8 \<le> length p \<Longrightarrow> fpm_payload_u64 p = le_value (take 8 p)"
proof -
  assume "8 \<le> length p"
  then have l: "length (take 4 p) = 4" by simp
  have "take 8 p = take 4 p @ take 4 (drop 4 p)" by (simp add: take_add [of 4 4, symmetric])
  then show ?thesis using l by (simp only: fpm_payload_u64_def fpm_payload_u32_def le_value_append) simp
qed

lemma u64_put64 [simp]: "fpm_payload_u64 (fpm_pack_put64 v @ r) = v mod 2 ^ 64"
proof -
  have "fpm_payload_u64 (fpm_pack_put64 v @ r) = le_value (take 8 (fpm_pack_put64 v @ r))"
    by (rule u64_take) simp
  also have "\<dots> = v mod 2 ^ 64" by (simp add: fpm_pack_put64_def)
  finally show ?thesis .
qed

lemma magic_widths [simp]: "length FPM_PAYLOAD_MAGIC = 8" "length FPM_PACK_ARCHIVE_MAGIC = 8"
  by (simp_all add: FPM_PAYLOAD_MAGIC_def FPM_PACK_ARCHIVE_MAGIC_def)

section \<open>The archive reads back\<close>

lemma length_archive_index [simp]: "length (archive_index at fs) = index_size fs"
  by (induction at fs rule: archive_index.induct) (simp_all add: index_size_def)

lemma archive_find_step:
  assumes "a = pre @ archive_index at (f # fs) @ post" "pos = length pre"
    and "at + length (i_data f) \<le> length a" "length a < 2 ^ 64" "length (i_name f) < 2 ^ 32"
  shows "archive_find_loop (Suc n) a pos name =
    (if i_name f = name then Some (take (length (i_data f)) (drop at a))
     else archive_find_loop n a (pos + 20 + length (i_name f)) name)"
proof -
  let ?n = "i_name f" and ?s = "length (i_data f)"
  let ?r = "archive_index (at + ?s) fs @ post"
  have d: "drop pos a = fpm_pack_put32 (length ?n) @ fpm_pack_put64 ?s @ fpm_pack_put64 at @ ?n @ ?r"
    "drop (pos + 4) a = fpm_pack_put64 ?s @ fpm_pack_put64 at @ ?n @ ?r"
    "drop (pos + 12) a = fpm_pack_put64 at @ ?n @ ?r"
    "drop (pos + 20) a = ?n @ ?r"
    using assms(1,2) by simp_all
  have l: "length a = pos + 20 + length ?n + length ?r" using assms(1,2) by simp
  have m: "length ?n mod 2 ^ 32 = length ?n" "?s mod 2 ^ 64 = ?s" "at mod 2 ^ 64 = at" using assms(3-5) by simp_all
  show ?thesis
    unfolding archive_find_loop.simps Let_def d u32_put32 u64_put64 m using l assms(3) by auto
qed

lemma archive_find_all:
  "a = pre @ archive_index at fs @ post \<Longrightarrow> drop at a = concat (map i_data fs) \<Longrightarrow> at \<le> length a \<Longrightarrow> length a < 2 ^ 64 \<Longrightarrow>
   list_all (\<lambda>f. length (i_name f) < 2 ^ 32) fs \<Longrightarrow>
   archive_find_loop (length fs) a (length pre) name = map_option i_data (List.find (\<lambda>f. i_name f = name) fs)"
proof (induction fs arbitrary: pre at)
  case (Cons f fs)
  let ?s = "length (i_data f)"
  let ?e = "fpm_pack_put32 (length (i_name f)) @ fpm_pack_put64 ?s @ fpm_pack_put64 at @ i_name f"
  have "length (drop at a) = length (concat (map i_data (f # fs)))" by (simp only: Cons.prems(2))
  then have fit: "at + ?s \<le> length a" using Cons.prems(3) by simp
  have data: "take ?s (drop at a) = i_data f" "drop (at + ?s) a = concat (map i_data fs)"
    using Cons.prems(2) by (simp_all add: drop_drop [symmetric] add.commute [of at] del: drop_drop)
  have next_pre: "a = (pre @ ?e) @ archive_index (at + ?s) fs @ post" using Cons.prems(1) by simp
  have "archive_find_loop (length (f # fs)) a (length pre) name =
      (if i_name f = name then Some (i_data f) else archive_find_loop (length fs) a (length (pre @ ?e)) name)"
    using archive_find_step [OF Cons.prems(1) refl fit Cons.prems(4), of "length fs" name] Cons.prems(5) data(1)
    by (simp add: add.assoc del: archive_find_loop.simps)
  also have "\<dots> = map_option i_data (List.find (\<lambda>f. i_name f = name) (f # fs))"
    using Cons.IH [OF next_pre data(2) fit Cons.prems(4)] Cons.prems(5) by simp
  finally show ?case .
qed simp

lemma archive_roundtrip:
  assumes "length (fpm_pack_build_archive files) < 2 ^ 64" "length files < 2 ^ 32"
    and "list_all (\<lambda>f. length (i_name f) < 2 ^ 32) files"
  shows "fpm_pack_archive_find (fpm_pack_build_archive files) name =
    map_option i_data (List.find (\<lambda>f. i_name f = name) files)"
proof -
  let ?a = "fpm_pack_build_archive files" let ?at = "12 + index_size files"
  let ?pre = "FPM_PACK_ARCHIVE_MAGIC @ fpm_pack_put32 (length files)"
  have a: "?a = ?pre @ archive_index ?at files @ concat (map i_data files)"
    by (simp add: fpm_pack_build_archive_def)
  have d: "drop ?at ?a = concat (map i_data files)" "?at \<le> length ?a" unfolding a by simp_all
  have h: "fpm_payload_u32 (drop 8 ?a) = length files" "take 8 ?a = FPM_PACK_ARCHIVE_MAGIC" "\<not> length ?a < 12"
    unfolding a using assms(2) by simp_all
  show ?thesis unfolding fpm_pack_archive_find_def
    using archive_find_all [OF a d assms(1,3), of name] h by simp
qed

section \<open>The packed file reads back\<close>

lemma record_fields:
  assumes "length (sha a) = 32" "length a < 2 ^ 64" "off < 2 ^ 64" "prev < 2 ^ 64" "k < 2 ^ 32"
  shows "length (payload_record sha k off a prev) = FPM_PAYLOAD_RECORD_SIZE"
    "take 8 (payload_record sha k off a prev) = FPM_PAYLOAD_MAGIC"
    "fpm_payload_u32 (drop 8 (payload_record sha k off a prev)) = k"
    "fpm_payload_u32 (drop 12 (payload_record sha k off a prev)) = 0"
    "fpm_payload_u64 (drop 16 (payload_record sha k off a prev)) = off"
    "fpm_payload_u64 (drop 24 (payload_record sha k off a prev)) = length a"
    "take FPM_PAYLOAD_DIGEST_SIZE (drop 32 (payload_record sha k off a prev)) = sha a"
    "fpm_payload_u64 (drop 64 (payload_record sha k off a prev)) = prev"
  using assms u64_put64 [of prev "[]"]
  by (simp_all add: payload_record_def FPM_PAYLOAD_RECORD_SIZE_def FPM_PAYLOAD_DIGEST_SIZE_def)

lemma find_first_step:
  assumes "length (sha a) = 32" "length s + length a + FPM_PAYLOAD_RECORD_SIZE < 2 ^ 64" "k' < 2 ^ 32"
    and "prev < length s" and "f = s @ a @ payload_record sha k' (length s) a prev"
  shows "fpm_payload_find (Some f) k =
    (if k = k' then Inr (Some \<lparr>kind = k, offset = length s, size_of = length a, digest = sha a\<rparr>)
     else if prev = 0 then Inr None
     else find_loop (FPM_PAYLOAD_MAX_CHAIN - 1) False f k prev)"
proof -
  let ?r = "payload_record sha k' (length s) a prev" let ?at = "length s + length a"
  have lt: "length a < 2 ^ 64" "length s < 2 ^ 64" "prev < 2 ^ 64" using assms(2,4) by simp_all
  note r = record_fields [where sha = sha and a = a, OF assms(1) lt assms(3)]
  have l: "length f = ?at + FPM_PAYLOAD_RECORD_SIZE" using r(1) by (simp add: assms(5))
  have ra: "record_at f ?at = Some ?r" using l r(1) by (simp add: record_at_def assms(5))
  have n: "FPM_PAYLOAD_MAX_CHAIN = Suc (FPM_PAYLOAD_MAX_CHAIN - 1)" by (simp add: FPM_PAYLOAD_MAX_CHAIN_def)
  have "fpm_payload_find (Some f) k = find_loop (Suc (FPM_PAYLOAD_MAX_CHAIN - 1)) True f k ?at"
    unfolding fpm_payload_find_def option.case n [symmetric] by (simp add: l)
  also have "\<dots> = (if k = k' then Inr (Some \<lparr>kind = k, offset = length s, size_of = length a, digest = sha a\<rparr>)
     else if prev = 0 then Inr None else find_loop (FPM_PAYLOAD_MAX_CHAIN - 1) False f k prev)"
    unfolding find_loop.simps find_step_def ra option.case r Let_def using assms(4) l by auto
  finally show ?thesis .
qed

lemma chained_size: "chained s \<Longrightarrow> FPM_PAYLOAD_RECORD_SIZE \<le> length s"
  by (simp add: chained_def)

lemma packed_find_application:
  assumes "length (sha a) = 32" "length s + length a + FPM_PAYLOAD_RECORD_SIZE < 2 ^ 64" "s \<noteq> []"
  shows "fpm_payload_find (Some (packed_file sha s a)) FPM_PAYLOAD_KIND_APPLICATION =
    Inr (Some \<lparr>kind = FPM_PAYLOAD_KIND_APPLICATION, offset = length s, size_of = length a, digest = sha a\<rparr>)"
proof -
  have p: "(if chained s then length s - FPM_PAYLOAD_RECORD_SIZE else 0) < length s"
    using assms(3) chained_size by (cases s) (auto simp: FPM_PAYLOAD_RECORD_SIZE_def)
  have k: "FPM_PAYLOAD_KIND_APPLICATION < 2 ^ 32" by (simp add: FPM_PAYLOAD_KIND_APPLICATION_def)
  show ?thesis using find_first_step [where sha = sha and a = a, OF assms(1,2) k p packed_file_def] by simp
qed

lemma packed_read:
  assumes "length (sha a) = 32" "length s + length a + FPM_PAYLOAD_RECORD_SIZE < 2 ^ 64"
  shows "fpm_payload_read sha (Some (packed_file sha s a))
    \<lparr>kind = k, offset = length s, size_of = length a, digest = sha a\<rparr> = Inr a"
  using assms by (simp add: fpm_payload_read_def packed_file_def SIZE_MAX_def FPM_PAYLOAD_RECORD_SIZE_def)

lemma packed_verifies:
  assumes "length (sha a) = 32" "length s + length a + FPM_PAYLOAD_RECORD_SIZE < 2 ^ 64" "s \<noteq> []"
  shows "fpm_pack_verify sha (packed_file sha s a) a"
  using packed_find_application [where sha = sha and a = a, OF assms] packed_read [where sha = sha and a = a, OF assms(1,2)] by (simp add: fpm_pack_verify_def)

text \<open>
  C32. Packing succeeds on every well-formed input and what is packed is read back: the
  running binary is a prefix of the output byte for byte, and the runtime's own reader
  finds the application entry, accepts its digest and returns exactly the three
  files.
\<close>

theorem pack_roundtrip:
  assumes sha: "\<And>x. length (sha x) = FPM_PAYLOAD_DIGEST_SIZE"
    and self: "s \<noteq> []" "fpm_payload_find (Some s) FPM_PAYLOAD_KIND_APPLICATION = Inr None"
    and ok: "phar \<noteq> []" "ini \<noteq> []" "conf \<noteq> []" "fpm_pack_check_content phar ini conf"
    and size: "length s + length phar + length ini + length conf + 167 < 2 ^ 64"
  shows "\<exists>out entry archive.
    fpm_pack_main sha (Some s) False phar ini conf = Some out \<and> take (length s) out = s \<and>
    fpm_payload_find (Some out) FPM_PAYLOAD_KIND_APPLICATION = Inr (Some entry) \<and>
    fpm_payload_read sha (Some out) entry = Inr archive \<and>
    fpm_pack_archive_find archive FPM_PACK_ENTRY_PHAR = Some phar \<and>
    fpm_pack_archive_find archive FPM_PACK_ENTRY_INI = Some ini \<and>
    fpm_pack_archive_find archive FPM_PACK_ENTRY_CONF = Some conf"
proof -
  let ?fs = "[\<lparr>i_name = FPM_PACK_ENTRY_CONF, i_data = conf\<rparr>, \<lparr>i_name = FPM_PACK_ENTRY_INI, i_data = ini\<rparr>,
    \<lparr>i_name = FPM_PACK_ENTRY_PHAR, i_data = phar\<rparr>]"
  let ?a = "fpm_pack_build_archive ?fs" let ?out = "packed_file sha s ?a"
  note names = FPM_PACK_ENTRY_CONF_def FPM_PACK_ENTRY_INI_def FPM_PACK_ENTRY_PHAR_def
  have la: "length ?a = length phar + length ini + length conf + 95"
    by (simp add: fpm_pack_build_archive_def index_size_def names)
  have h: "length (sha ?a) = 32" using sha by (simp add: FPM_PAYLOAD_DIGEST_SIZE_def)
  have sz: "length s + length ?a + FPM_PAYLOAD_RECORD_SIZE < 2 ^ 64" using size la by (simp add: FPM_PAYLOAD_RECORD_SIZE_def)
  note found = packed_find_application [where sha = sha and a = ?a, OF h sz self(1)]
  note rd = packed_read [where sha = sha and a = ?a and s = s, OF h sz]
  have get: "fpm_pack_archive_find ?a n = map_option i_data (List.find (\<lambda>f. i_name f = n) ?fs)" for n
    by (rule archive_roundtrip) (use sz in \<open>simp_all add: names\<close>)
  have "fpm_pack_main sha (Some s) False phar ini conf = Some ?out"
    using self ok packed_verifies [where sha = sha and a = ?a, OF h sz self(1)] by (simp add: fpm_pack_main_def)
  moreover have "take (length s) ?out = s" by (simp add: packed_file_def)
  ultimately show ?thesis using found rd
    by (intro exI [of _ ?out] exI [of _ "\<lparr>kind = _, offset = _, size_of = _, digest = _\<rparr>"] exI [of _ ?a] conjI)
      (simp_all add: get, simp_all add: names)
qed

definition sample_digest :: "bytes \<Rightarrow> bytes" where "sample_digest x = replicate 32 NUL"

theorem pack_roundtrip_witness:
  "\<exists>out entry archive.
    fpm_pack_main sample_digest (Some ''ELF'') False ''__HALT_COMPILER();'' ''a=1'' ''b=2'' = Some out \<and> take 3 out = ''ELF'' \<and>
    fpm_payload_find (Some out) FPM_PAYLOAD_KIND_APPLICATION = Inr (Some entry) \<and>
    fpm_payload_read sample_digest (Some out) entry = Inr archive \<and>
    fpm_pack_archive_find archive FPM_PACK_ENTRY_PHAR = Some ''__HALT_COMPILER();'' \<and>
    fpm_pack_archive_find archive FPM_PACK_ENTRY_INI = Some ''a=1'' \<and>
    fpm_pack_archive_find archive FPM_PACK_ENTRY_CONF = Some ''b=2''"
proof -
  have 1: "length (sample_digest x) = FPM_PAYLOAD_DIGEST_SIZE" for x
    by (simp add: sample_digest_def FPM_PAYLOAD_DIGEST_SIZE_def)
  have 2: "fpm_payload_find (Some ''ELF'') FPM_PAYLOAD_KIND_APPLICATION = Inr None"
    by (simp add: fpm_payload_find_def FPM_PAYLOAD_RECORD_SIZE_def)
  have 3: "fpm_pack_check_content ''__HALT_COMPILER();'' ''a=1'' ''b=2''" by code_simp
  have 4: "length ''ELF'' = 3" "''ELF'' \<noteq> []" "''__HALT_COMPILER();'' \<noteq> []" "''a=1'' \<noteq> []" "''b=2'' \<noteq> []"
    "length ''ELF'' + length ''__HALT_COMPILER();'' + length ''a=1'' + length ''b=2'' + 167 < (2 :: nat) ^ 64" by simp_all
  from pack_roundtrip [where sha = sample_digest, OF 1 4(2) 2 4(3-5) 3 4(6)] show ?thesis unfolding 4(1) .
qed

section \<open>Packing keeps the other entries, and the walk ends\<close>

abbreviation too_long :: "string + fpm_payload_entry option" where
  "too_long \<equiv> Inl ''the payload chain is longer than this build accepts''"

lemma find_step_back:
  assumes "find_step first f k at = Inr prev"
  shows "prev < at" "at + FPM_PAYLOAD_RECORD_SIZE \<le> length f"
  using assms by (simp_all add: find_step_def record_at_def Let_def split: if_splits)

lemma find_step_answer: "find_step first f k at = Inl r \<Longrightarrow> r \<noteq> too_long"
  by (auto simp: find_step_def Let_def split: if_splits option.splits)

lemma find_loop_mono: "find_loop n first f k at \<noteq> too_long \<Longrightarrow> find_loop (Suc n) first f k at = find_loop n first f k at"
proof (induction n arbitrary: first at)
  case (Suc n)
  show ?case
  proof (cases "find_step first f k at")
    case (Inr prev)
    then have "find_loop n False f k prev \<noteq> too_long" using Suc.prems by simp
    from Suc.IH [OF this] show ?thesis using Inr by (subst (1 2) find_loop.simps(2)) simp
  qed simp
qed simp

lemma find_loop_ends: "at < n \<Longrightarrow> find_loop n first f k at \<noteq> too_long"
proof (induction n arbitrary: first at)
  case (Suc n)
  show ?case
  proof (cases "find_step first f k at")
    case (Inr prev)
    then show ?thesis using Suc find_step_back(1) [OF Inr] by simp
  qed (use find_step_answer in auto)
qed simp

lemma record_at_prefix: "at + FPM_PAYLOAD_RECORD_SIZE \<le> length s \<Longrightarrow> record_at (s @ t) at = record_at s at"
  by (simp add: record_at_def)

lemma find_step_prefix:
  assumes "at + FPM_PAYLOAD_RECORD_SIZE \<le> length s" "first' = first \<or> take 8 (drop at s) = FPM_PAYLOAD_MAGIC"
  shows "find_step first' (s @ t) k at = find_step first s k at"
proof -
  obtain r where r: "record_at s at = Some r" "r = take FPM_PAYLOAD_RECORD_SIZE (drop at s)"
    using assms(1) by (simp add: record_at_def)
  have m: "take 8 r = take 8 (drop at s)" using r(2) by (simp add: FPM_PAYLOAD_RECORD_SIZE_def)
  have "prev \<ge> at \<or> prev > length (s @ t) - FPM_PAYLOAD_RECORD_SIZE \<longleftrightarrow>
      prev \<ge> at \<or> prev > length s - FPM_PAYLOAD_RECORD_SIZE" for prev
    using assms(1) by (simp add: FPM_PAYLOAD_RECORD_SIZE_def) linarith
  then show ?thesis
    unfolding find_step_def record_at_prefix [OF assms(1)] r(1) option.case Let_def using assms(2) m by auto
qed

lemma find_loop_prefix:
  "at + FPM_PAYLOAD_RECORD_SIZE \<le> length s \<Longrightarrow> first' = first \<or> take 8 (drop at s) = FPM_PAYLOAD_MAGIC \<Longrightarrow>
   find_loop n first' (s @ t) k at = find_loop n first s k at"
proof (induction n arbitrary: first first' at)
  case (Suc n)
  show ?case
  proof (cases "find_step first s k at")
    case (Inr prev)
    have "prev + FPM_PAYLOAD_RECORD_SIZE \<le> length s" using find_step_back(1) [OF Inr] Suc.prems(1) by simp
    from Suc.IH [OF this, of False False] show ?thesis using Inr find_step_prefix [OF Suc.prems] by simp
  qed (simp add: find_step_prefix [OF Suc.prems])
qed simp

text \<open>
  C33. Appending an application leaves every other entry of the binary as it was: a lookup of
  another kind in the packed file gives exactly the answer it gave in the binary, as long as
  the binary's chain leaves room for one more record.
\<close>

theorem pack_keeps_entries:
  assumes "length (sha a) = FPM_PAYLOAD_DIGEST_SIZE" "length s + length a + FPM_PAYLOAD_RECORD_SIZE < 2 ^ 64"
    and "k \<noteq> FPM_PAYLOAD_KIND_APPLICATION" "FPM_PAYLOAD_RECORD_SIZE < length s"
    and "find_loop (FPM_PAYLOAD_MAX_CHAIN - 1) True s k (length s - FPM_PAYLOAD_RECORD_SIZE) \<noteq>
      Inl ''the payload chain is longer than this build accepts''"
  shows "fpm_payload_find (Some (packed_file sha s a)) k = fpm_payload_find (Some s) k"
proof -
  let ?at = "length s - FPM_PAYLOAD_RECORD_SIZE" let ?prev = "if chained s then ?at else 0"
  have h: "length (sha a) = 32" using assms(1) by (simp add: FPM_PAYLOAD_DIGEST_SIZE_def)
  have k: "FPM_PAYLOAD_KIND_APPLICATION < 2 ^ 32" by (simp add: FPM_PAYLOAD_KIND_APPLICATION_def)
  have p: "?prev < length s" using assms(4) by (auto simp: FPM_PAYLOAD_RECORD_SIZE_def)
  have packed: "fpm_payload_find (Some (packed_file sha s a)) k =
      (if ?prev = 0 then Inr None else find_loop (FPM_PAYLOAD_MAX_CHAIN - 1) False (packed_file sha s a) k ?prev)"
    using find_first_step [where sha = sha and a = a, OF h assms(2) k p packed_file_def] assms(3) by simp
  have self: "fpm_payload_find (Some s) k = find_loop (Suc (FPM_PAYLOAD_MAX_CHAIN - 1)) True s k ?at"
    using assms(4) by (simp add: fpm_payload_find_def FPM_PAYLOAD_MAX_CHAIN_def)
  show ?thesis
  proof (cases "chained s")
    case True
    then have m: "take 8 (drop ?at s) = FPM_PAYLOAD_MAGIC" by (simp add: chained_def)
    have "?at + FPM_PAYLOAD_RECORD_SIZE \<le> length s" using assms(4) by simp
    from find_loop_prefix [OF this, of False True] m
    have "find_loop (FPM_PAYLOAD_MAX_CHAIN - 1) False (packed_file sha s a) k ?at =
        find_loop (FPM_PAYLOAD_MAX_CHAIN - 1) True s k ?at" by (simp add: packed_file_def)
    then show ?thesis using packed self find_loop_mono [OF assms(5)] True assms(4) by simp
  next
    case False
    then have m: "take 8 (drop ?at s) \<noteq> FPM_PAYLOAD_MAGIC" using assms(4) by (simp add: chained_def)
    have "find_step True s k ?at = Inl (Inr None)"
      using m assms(4) by (simp add: find_step_def record_at_def FPM_PAYLOAD_RECORD_SIZE_def)
    then show ?thesis using packed self False by simp
  qed
qed

definition sample_binary :: bytes where
  "sample_binary = ''ELF image'' @ ''acme'' @ payload_record sample_digest FPM_PAYLOAD_KIND_DISTRIBUTION 9 ''acme'' 0"

theorem pack_keeps_entries_witness:
  "fpm_payload_find (Some (packed_file sample_digest sample_binary ''archive'')) FPM_PAYLOAD_KIND_DISTRIBUTION =
     fpm_payload_find (Some sample_binary) FPM_PAYLOAD_KIND_DISTRIBUTION \<and>
   fpm_payload_find (Some sample_binary) FPM_PAYLOAD_KIND_DISTRIBUTION =
     Inr (Some \<lparr>kind = FPM_PAYLOAD_KIND_DISTRIBUTION, offset = 9, size_of = 4, digest = sample_digest ''acme''\<rparr>)"
proof -
  have l: "length sample_binary = 85"
    by (simp add: sample_binary_def payload_record_def sample_digest_def)
  let ?r = "find_loop (FPM_PAYLOAD_MAX_CHAIN - 1) True sample_binary FPM_PAYLOAD_KIND_DISTRIBUTION 13"
  have r: "?r = Inr (Some \<lparr>kind = FPM_PAYLOAD_KIND_DISTRIBUTION, offset = 9, size_of = 4, digest = sample_digest ''acme''\<rparr>)"
    by code_simp
  have 1: "length (sample_digest ''archive'') = FPM_PAYLOAD_DIGEST_SIZE" "FPM_PAYLOAD_RECORD_SIZE < length sample_binary"
    "length sample_binary + length ''archive'' + FPM_PAYLOAD_RECORD_SIZE < 2 ^ 64"
    "FPM_PAYLOAD_KIND_DISTRIBUTION \<noteq> FPM_PAYLOAD_KIND_APPLICATION"
    by (simp_all add: l sample_digest_def FPM_PAYLOAD_DIGEST_SIZE_def FPM_PAYLOAD_RECORD_SIZE_def
        FPM_PAYLOAD_KIND_DISTRIBUTION_def FPM_PAYLOAD_KIND_APPLICATION_def)
  have "?r \<noteq> too_long" unfolding r by simp
  then have "fpm_payload_find (Some (packed_file sample_digest sample_binary ''archive'')) FPM_PAYLOAD_KIND_DISTRIBUTION =
     fpm_payload_find (Some sample_binary) FPM_PAYLOAD_KIND_DISTRIBUTION"
    using pack_keeps_entries [where sha = sample_digest, OF 1(1,3,4,2)] l by (simp add: FPM_PAYLOAD_RECORD_SIZE_def)
  moreover have "fpm_payload_find (Some sample_binary) FPM_PAYLOAD_KIND_DISTRIBUTION = ?r" 
    using find_loop_mono [OF \<open>?r \<noteq> too_long\<close>] l
    by (simp add: fpm_payload_find_def FPM_PAYLOAD_MAX_CHAIN_def FPM_PAYLOAD_RECORD_SIZE_def)
  ultimately show ?thesis unfolding r by simp
qed

text \<open>
  C34. The walk over the records ends on every file, damaged or not: each step moves
  strictly towards the start, so a number of steps bounded by the size of the file gives an
  answer other than giving up, and more steps never change it.
\<close>

theorem payload_walk_ends:
  assumes "FPM_PAYLOAD_RECORD_SIZE \<le> length f" "length f \<le> n"
  shows "find_loop n True f k (length f - FPM_PAYLOAD_RECORD_SIZE) \<noteq> Inl ''the payload chain is longer than this build accepts'' \<and>
    find_loop (n + m) True f k (length f - FPM_PAYLOAD_RECORD_SIZE) = find_loop n True f k (length f - FPM_PAYLOAD_RECORD_SIZE)"
proof -
  let ?at = "length f - FPM_PAYLOAD_RECORD_SIZE"
  have lt: "?at < n + j" for j using assms by (simp add: FPM_PAYLOAD_RECORD_SIZE_def)
  have "find_loop (n + m) True f k ?at = find_loop n True f k ?at"
  proof (induction m)
    case (Suc m)
    then show ?case using find_loop_mono [OF find_loop_ends [OF lt [of m]]] by (metis add_Suc_right)
  qed simp
  then show ?thesis using find_loop_ends [OF lt [of 0]] by simp
qed

theorem payload_walk_ends_witness:
  "find_loop 85 True sample_binary 7 13 \<noteq> too_long \<and> find_loop 185 True sample_binary 7 13 = find_loop 85 True sample_binary 7 13"
proof -
  have l: "length sample_binary = 85"
    by (simp add: sample_binary_def payload_record_def sample_digest_def)
  then show ?thesis using payload_walk_ends [of sample_binary 85 7 100] by (simp add: FPM_PAYLOAD_RECORD_SIZE_def)
qed

end
