(* ===== verification/Spec2Isabelle.thy ===== *)
theory Spec2Isabelle
  imports Cron_Schedule Shutdown Proxy_Protocol Http_Client_Request Http_Static Payload
begin

text \<open>
  \<^bold>\<open>The program.\<close> php-fpm-ng is a process manager for PHP. A \<^emph>\<open>master\<close> forks and reaps
  the workers of its pools, delays the respawn of a pool whose children crash, runs
  pools on a crontab schedule, and stops or reloads everything in passes of signals. A
  \<^emph>\<open>gateway\<close> process accepts HTTP connections, reads an optional PROXY protocol header,
  decides what it believes of the peer and the request, and forwards the request to a
  worker over FastCGI. The binary itself can carry \<^emph>\<open>payloads\<close>: a packed application is
  the binary with an archive appended. All file names below are under
  \<open>src/sapi/fpmng/fpm/\<close> unless a path is given.

  \<^bold>\<open>Representation.\<close> A C string or a buffer is a list of bytes (\<open>char list\<close>); where a
  function stops at a NUL byte the model does (\<open>c_str\<close>). Unsigned counters whose
  wrap-around matters are words (\<open>Crash_Backoff\<close>) or numbers reduced modulo the width of
  the field (\<open>Payload\<close>). A signed overflow is an error value (\<open>Cron_Schedule\<close>). A function
  that reports an error returns a sum type with one value per message or branch. What
  the program reads from outside (clock, \<open>fork()\<close>, \<open>/proc\<close>, \<open>stat()\<close>, what libevent parsed,
  the random source, SHA-256, the zone files behind \<open>localtime_r()\<close>) is an argument of
  the definitions. Memory allocation succeeds except where the code's answer to a
  failure is modelled.

  \<^bold>\<open>Shared theories.\<close> \<open>Prelude\<close> has the functions of the C library, the result type and
  two interfaces. The locale \<open>machine\<close> lifts an invariant of steps to runs; it is
  interpreted on the crash backoff, on a child's life and on the stopping master. The
  locale \<open>codec\<close> lifts a decoder that inverts an encoder to streams; it is interpreted on
  the FastCGI name-value pairs. \<open>Calendar\<close> is \<open>gmtime_r()\<close> with the range of its fields,
  \<open>Cstring\<close> has \<open>strtol()\<close> and \<open>strtoull()\<close>, \<open>Inet\<close> has \<open>inet_pton()\<close> and \<open>inet_ntop()\<close>.

  \<^bold>\<open>The master.\<close>
  \<^item> \<open>Cron_Schedule\<close> (\<open>fpm_cron_schedule.c\<close>): \<open>fpm_cron_schedule_parse\<close> accepts exactly the
    crontab grammar and computes what it denotes; \<open>fpm_cron_schedule_next\<close> returns the
    first matching minute and restores \<open>TZ\<close>. The search visits the code's own horizon of
    4 * 366 days, no fuel is added. Two lemmas exhibit inputs that overflow and a leap
    day beyond the horizon.
  \<^item> \<open>Crash_Backoff\<close> (\<open>fpm_crash_backoff.c\<close>): the streak counter refines a count of fast
    failures in a row, the delay lies in the documented window, the gate opens exactly
    when the wait is over.
  \<^item> \<open>Children\<close>, \<open>Reload_Selective\<close>, \<open>Process_Ctl\<close>, \<open>Master\<close>, \<open>Shutdown\<close> (\<open>fpm_children.c\<close>,
    \<open>fpm_children_extra.c\<close>, \<open>fpm_http_gw_proc.c\<close>, \<open>fpm_reload_selective.c\<close>,
    \<open>fpm_process_ctl.c\<close>, \<open>fpm_pctl_window.c\<close>): one record \<open>master\<close> holds the pools, the
    control state and the effects; one function per handler; \<open>master_step\<close> dispatches the
    events of the loop. Over every history the counters agree with the child lists and
    the control state only moves forward; a stop signals every child, reaches \<open>SIGKILL\<close>
    within three timeouts, forks nothing, and ends the process when the last child is
    reaped; a selective reload loses no child and its handoff variable is read back as
    it was written. The loops over pools are folds over the list of pools; the
    bury loop runs over the list of reaped processes, so none needs fuel.

  \<^bold>\<open>The gateway.\<close>
  \<^item> \<open>Http_Acl\<close> (\<open>fpm_http_acl.c\<close>, \<open>fpm_http_forwarded.c\<close>): an address list admits exactly
    what it lists, and a client's own \<open>X-Forwarded-For\<close> text cannot change the address
    reported behind trusted proxies.
  \<^item> \<open>Proxy_Protocol\<close> (\<open>fpm_http_proxy_protocol.c\<close>, \<open>fpm_http_proxy.c\<close>): the parser is
    prefix free, and the reader takes exactly the header off the socket however the
    bytes arrive.
  \<^item> \<open>Http_Request\<close> (\<open>fpm_http_host.c\<close>, \<open>fpm_http_header_cgi.c\<close>, \<open>fpm_http_auth.c\<close>,
    \<open>fpm_http_request_id.c\<close>): the host parser accepts exactly the grammar, CGI keys are
    injective up to case, credentials are read back, generated ids are valid, and the
    host name of any request is a valid name in canonical form.
  \<^item> \<open>Fastcgi\<close> (\<open>src/third_party/php-src/main/fastcgi.c\<close>) is the worker's decoder and
    \<open>Http_Fcgi\<close> (\<open>fpm_http_fcgi.c\<close>) the gateway's encoder. The worker decodes every request
    the gateway builds, to the same environment and body, and finds the next request
    on the connection; refusals are characterised; the script stays under the document
    root. The decoder's loops recurse on the bytes still to come.
  \<^item> \<open>Http_Reply\<close> (\<open>fpm_http_start_reply()\<close>, \<open>fpm_http_stdout()\<close>, \<open>fpm_http_finish()\<close> of
    \<open>fpm_http_fcgi.c\<close>, \<open>fpm_http_response_chunk()\<close>) turns an upstream's bytes into a reply;
    \<open>Http_Upstream\<close> (\<open>fpm_http.c\<close>, from \<open>fpm_http_upstream_drop()\<close> to
    \<open>fpm_http_upstream_readcb()\<close>) is the record parser of one FastCGI connection. Both
    are related to a reading of the stream byte by byte, so the lemmas do not depend on
    how it is cut: an answer reaches the client whole, and a truncated one is never
    ended as if it were complete. The parser's loop has as many turns as there are
    bytes, enough because every turn takes one.
  \<^item> \<open>Http_Client\<close> and \<open>Http_Client_Request\<close> (\<open>fpm_http_client.c\<close>): the answer parser and the
    request writer of the HTTP transport. The chunked decoder accepts exactly the
    chunked grammar, an inductive definition. Its loop and the rescan of a head are
    proved to terminate. A lemma shows that every end of a connection frees its parser
    state except the idle timeout.
  \<^item> \<open>Http_Static\<close> (\<open>fpm_http_static_range.c\<close>): the Range parser serves exactly the single
    byte ranges, read with unbounded positions, except for inverted ranges whose
    positions are both clamped.

  \<^bold>\<open>The binary.\<close>
  \<^item> \<open>Payload\<close> (\<open>fpm_payload.c\<close>, \<open>fpm_pack.c\<close>, part of \<open>fpm_pack_run.c\<close>): what is packed is
    read back byte for byte, packing keeps the other entries, and the walk over the
    chain of records ends. The walk has the code's own bound \<open>FPM_PAYLOAD_MAX_CHAIN\<close>; a
    lemma shows it ends without the bound because every step moves backwards.

  \<^bold>\<open>Not modelled.\<close> The configuration reader (driven by PHP's INI scanner), the libevent
  callbacks that connect the gateway's parts, TLS, and the http-direct workers (PHP runs
  inside an event callback) mostly call libraries whose code is not in the repository. The
  operator pages, metrics, access logs and child logs format text from shared memory. Process start, exec, the
  shared-memory segments and the service notifications are system calls. The upstream
  PHP-FPM files other than those named above enter as arguments. The route table and the
  content negotiation of static files are ordinary code that is not covered yet.
\<close>

end
